(* ===== verification/Amt_Prelude.thy ===== *)
theory Amt_Prelude
  imports Main "HOL-Library.Word" "HOL-Library.Finite_Map"
    "HOL-Library.Product_Lexorder" "HOL-Library.Option_ord"
begin

text \<open>
  Vocabulary shared by every component: the machine types, the result monad in which
  the fallible Rust code is written, checked access to byte slices, big-endian
  encodings, and the ordered collections.

  A Rust expression that can panic (an index or a slice out of range, an
  \<open>unreachable!\<close>, an \<open>expect\<close>) is the value \<open>Panic\<close>, an early return
  \<open>Err(e)\<close> is \<open>Err e\<close>; both end the computation.  \<open>usize\<close> is \<open>nat\<close>: every
  unchecked sum of the modelled code is bounded by the length of a slice plus a
  16-bit field, far below the 64-bit word size; the \<open>checked_\<close> operations of the
  source are written with that bound.
\<close>

section \<open>Machine types\<close>

unbundle bit_operations_syntax

type_synonym u8 = "8 word"
type_synonym u16 = "16 word"
type_synonym u32 = "32 word"
type_synonym bytes = "u8 list"
type_synonym instant = nat  \<comment> \<open>\<open>std::time::Instant\<close>, in nanoseconds\<close>
type_synonym duration = nat \<comment> \<open>\<open>std::time::Duration\<close>, in nanoseconds\<close>

named_theorems slice_simps \<open>evaluation of slice reads and writes that are in range\<close>
named_theorems be_simps \<open>big-endian encodings of the fixed widths\<close>
named_theorems eval_simps \<open>definitions that the simplifier unfolds to evaluate concrete inputs\<close>

definition from_secs :: "nat \<Rightarrow> duration" where
  "from_secs s = s * 1000000000"

definition as_secs :: "duration \<Rightarrow> nat" where
  "as_secs d = d div 1000000000"

lemma as_secs_from_secs [simp]: "as_secs (from_secs s) = s"
  by (simp add: as_secs_def from_secs_def)

text \<open>\<open>Instant::elapsed\<close> saturates at zero.\<close>

definition elapsed :: "instant \<Rightarrow> instant \<Rightarrow> duration" where
  "elapsed now t = now - t"

definition checked_add_usize :: "nat \<Rightarrow> nat \<Rightarrow> nat option" where
  "checked_add_usize a b = (if a + b < 2 ^ 64 then Some (a + b) else None)"

definition checked_sub_usize :: "nat \<Rightarrow> nat \<Rightarrow> nat option" where
  "checked_sub_usize a b = (if b \<le> a then Some (a - b) else None)"

definition checked_mul_usize :: "nat \<Rightarrow> nat \<Rightarrow> nat option" where
  "checked_mul_usize a b = (if a * b < 2 ^ 64 then Some (a * b) else None)"

section \<open>The result monad\<close>

datatype (err: 'e, ok: 'a) res = Ok 'a | Err 'e | Panic

fun bnd :: "('e, 'a) res \<Rightarrow> ('a \<Rightarrow> ('e, 'b) res) \<Rightarrow> ('e, 'b) res" where
  "bnd (Ok x) f = f x"
| "bnd (Err e) f = Err e"
| "bnd Panic f = Panic"

text \<open>The conversion that the operator \<open>?\<close> applies to the error (a \<open>From\<close> instance).\<close>

fun map_err :: "('e \<Rightarrow> 'f) \<Rightarrow> ('e, 'a) res \<Rightarrow> ('f, 'a) res" where
  "map_err g (Ok x) = Ok x"
| "map_err g (Err e) = Err (g e)"
| "map_err g Panic = Panic"

definition ok_or :: "'a option \<Rightarrow> 'e \<Rightarrow> ('e, 'a) res" where
  "ok_or o' e = (case o' of None \<Rightarrow> Err e | Some x \<Rightarrow> Ok x)"

definition ensure :: "bool \<Rightarrow> 'e \<Rightarrow> ('e, unit) res" where
  "ensure c e = (if c then Ok () else Err e)"

text \<open>A \<open>for\<close> loop that threads a state and may leave early.\<close>

fun for_each :: "'x list \<Rightarrow> ('x \<Rightarrow> 's \<Rightarrow> ('e, 's) res) \<Rightarrow> 's \<Rightarrow> ('e, 's) res" where
  "for_each [] f s = Ok s"
| "for_each (x # xs) f s = bnd (f x s) (for_each xs f)"

definition is_ok :: "('e, 'a) res \<Rightarrow> bool" where
  "is_ok r = (case r of Ok _ \<Rightarrow> True | _ \<Rightarrow> False)"

definition no_panic :: "('e, 'a) res \<Rightarrow> bool" where
  "no_panic r = (case r of Panic \<Rightarrow> False | _ \<Rightarrow> True)"

lemma no_panic_simps [simp]:
  "no_panic (Ok x)" "no_panic (Err e)" "\<not> no_panic Panic"
  by (simp_all add: no_panic_def)

lemma is_ok_iff: "is_ok r \<longleftrightarrow> (\<exists>x. r = Ok x)"
  by (cases r) (simp_all add: is_ok_def)

lemma no_panic_iff: "no_panic r \<longleftrightarrow> r \<noteq> Panic"
  by (cases r) simp_all

lemma no_panic_bnd [intro]:
  "no_panic m \<Longrightarrow> (\<And>x. m = Ok x \<Longrightarrow> no_panic (f x)) \<Longrightarrow> no_panic (bnd m f)"
  by (cases m) simp_all

lemma no_panic_map_err [simp]: "no_panic (map_err g r) = no_panic r"
  by (cases r) simp_all

lemma no_panic_ok_or [simp]: "no_panic (ok_or o' e)"
  by (simp add: ok_or_def split: option.split)

lemma no_panic_ensure [simp]: "no_panic (ensure c e)"
  by (simp add: ensure_def)

lemma bnd_eq_Ok: "bnd m f = Ok y \<longleftrightarrow> (\<exists>x. m = Ok x \<and> f x = Ok y)"
  by (cases m) simp_all

lemma bnd_assoc: "bnd (bnd m f) g = bnd m (\<lambda>x. bnd (f x) g)"
  by (cases m) simp_all

lemma map_err_eq_Ok [simp]: "map_err g r = Ok x \<longleftrightarrow> r = Ok x"
  by (cases r) simp_all

lemma ok_or_eq_Ok [simp]: "ok_or o' e = Ok x \<longleftrightarrow> o' = Some x"
  by (simp add: ok_or_def split: option.split)

lemma ok_or_simps [simp]: "ok_or None e = Err e" "ok_or (Some x) e = Ok x"
  by (simp_all add: ok_or_def)

lemma ensure_eq_Ok [simp]: "ensure c e = Ok u \<longleftrightarrow> c"
  by (simp add: ensure_def)

lemma ensure_True [simp]: "ensure True e = Ok ()"
  by (simp add: ensure_def)

lemma ensure_False [simp]: "ensure False e = Err e"
  by (simp add: ensure_def)

lemma for_each_append: "for_each (xs @ ys) f s = bnd (for_each xs f s) (for_each ys f)"
proof (induction xs arbitrary: s)
  case (Cons x xs)
  then show ?case by (cases "f x s") simp_all
qed simp

lemma bnd_cong [fundef_cong]:
  "m = m' \<Longrightarrow> (\<And>x. m' = Ok x \<Longrightarrow> f x = f' x) \<Longrightarrow> bnd m f = bnd m' f'"
  by (cases m') simp_all

lemma no_panic_for_each:
  assumes "P s" and "\<And>x s. x \<in> set xs \<Longrightarrow> P s \<Longrightarrow> no_panic (f x s)"
    and "\<And>x s s'. x \<in> set xs \<Longrightarrow> P s \<Longrightarrow> f x s = Ok s' \<Longrightarrow> P s'"
  shows "no_panic (for_each xs f s)"
  using assms
proof (induction xs arbitrary: s)
  case (Cons x xs)
  show ?case
  proof (cases "f x s")
    case (Ok s')
    with Cons.prems(1) Cons.prems(3)[of x s s'] have P: "P s'" by simp
    have "no_panic (for_each xs f s')"
      by (rule Cons.IH[OF P]) (simp_all add: Cons.prems(2), rule Cons.prems(3), auto)
    with Ok show ?thesis by simp
  next
    case Panic
    with Cons.prems(2)[of x s] Cons.prems(1) show ?thesis by simp
  qed simp
qed simp

lemma for_each_collect:
  assumes "\<And>x. x \<in> set xs \<Longrightarrow> f x = Ok (g x)"
  shows "for_each xs (\<lambda>x acc. bnd (f x) (\<lambda>y. Ok (acc @ [y]))) acc = Ok (acc @ map g xs)"
  using assms by (induction xs arbitrary: acc) auto

section \<open>Byte slices\<close>

definition byte_at :: "bytes \<Rightarrow> nat \<Rightarrow> ('e, u8) res" where
  "byte_at bs i = (if i < length bs then Ok (bs ! i) else Panic)"

text \<open>\<open>&bs[a..b]\<close>, \<open>&bs[a..]\<close> and \<open>bs.get(i)\<close>.\<close>

definition slice :: "bytes \<Rightarrow> nat \<Rightarrow> nat \<Rightarrow> ('e, bytes) res" where
  "slice bs a b = (if a \<le> b \<and> b \<le> length bs then Ok (take (b - a) (drop a bs)) else Panic)"

definition slice_from :: "bytes \<Rightarrow> nat \<Rightarrow> ('e, bytes) res" where
  "slice_from bs a = slice bs a (length bs)"

definition get_byte :: "bytes \<Rightarrow> nat \<Rightarrow> u8 option" where
  "get_byte bs i = (if i < length bs then Some (bs ! i) else None)"

text \<open>\<open>bs[i] = v\<close> and \<open>bs[a..b].copy_from_slice(src)\<close>, which panics unless the
  lengths agree.\<close>

definition set_byte :: "bytes \<Rightarrow> nat \<Rightarrow> u8 \<Rightarrow> ('e, bytes) res" where
  "set_byte bs i v = (if i < length bs then Ok (bs[i := v]) else Panic)"

definition copy_from_slice :: "bytes \<Rightarrow> nat \<Rightarrow> nat \<Rightarrow> bytes \<Rightarrow> ('e, bytes) res" where
  "copy_from_slice bs a b src =
     (if a \<le> b \<and> b \<le> length bs \<and> length src = b - a
      then Ok (take a bs @ src @ drop b bs) else Panic)"

text \<open>The same write into a buffer the builder has just allocated with constant offsets, all of
  them inside the buffer: the packet builders fill their \<open>vec![0; n]\<close> with it.\<close>

definition write_at :: "nat \<Rightarrow> bytes \<Rightarrow> bytes \<Rightarrow> bytes" where
  "write_at a src bs = take a bs @ src @ drop (a + length src) bs"

lemma write_at_simps [simp]:
  "write_at 0 [] bs = bs"
  "write_at 0 (y # ys) (x # xs) = y # write_at 0 ys xs"
  "write_at (Suc n) src (x # xs) = x # write_at n src xs"
  "write_at (numeral k) src (x # xs) = x # write_at (pred_numeral k) src xs"
  "length xs \<le> n \<Longrightarrow> write_at n src (xs @ ys) = xs @ write_at (n - length xs) src ys"
  by (simp_all add: write_at_def numeral_eq_Suc)

lemma write_at_prefix: "write_at 0 src bs = src @ drop (length src) bs"
  by (simp add: write_at_def)

lemma replicate_unroll: "replicate (numeral k) x = x # replicate (pred_numeral k) x"
  by (simp add: numeral_eq_Suc)

lemma byte_at_ok [slice_simps]: "Suc i \<le> length bs \<Longrightarrow> byte_at bs i = Ok (bs ! i)"
  by (simp add: byte_at_def)

lemma slice_ok [slice_simps]:
  "a \<le> b \<Longrightarrow> b \<le> length bs \<Longrightarrow> slice bs a b = Ok (take (b - a) (drop a bs))"
  by (simp add: slice_def)

lemma slice_from_ok [slice_simps]: "a \<le> length bs \<Longrightarrow> slice_from bs a = Ok (drop a bs)"
  by (simp add: slice_from_def slice_def)

lemma set_byte_ok [slice_simps]: "Suc i \<le> length bs \<Longrightarrow> set_byte bs i v = Ok (bs[i := v])"
  by (simp add: set_byte_def)

lemma copy_from_slice_ok [slice_simps]:
  "a \<le> b \<Longrightarrow> b \<le> length bs \<Longrightarrow> length src = b - a \<Longrightarrow>
   copy_from_slice bs a b src = Ok (take a bs @ src @ drop b bs)"
  by (simp add: copy_from_slice_def)

lemma byte_at_eq_Ok: "byte_at bs i = Ok v \<longleftrightarrow> i < length bs \<and> v = bs ! i"
  by (auto simp: byte_at_def)

lemma slice_eq_Ok: "slice bs a b = Ok v \<longleftrightarrow> a \<le> b \<and> b \<le> length bs \<and> v = take (b - a) (drop a bs)"
  by (auto simp: slice_def)

lemma get_byte_simps [simp]:
  "get_byte [] i = None" "get_byte (x # xs) 0 = Some x"
  "get_byte (x # xs) (Suc i) = get_byte xs i"
  by (simp_all add: get_byte_def)

lemma drop_Cons_add [slice_simps]:
  "drop (numeral k + n) (x # xs) = drop (pred_numeral k + n) xs"
  by (simp add: numeral_eq_Suc)

section \<open>Big-endian encodings\<close>

definition be_bytes :: "nat \<Rightarrow> 'a::len word \<Rightarrow> bytes" where
  "be_bytes n w = map (\<lambda>i. ucast (drop_bit (8 * i) w)) (rev [0..<n])"

definition from_be :: "bytes \<Rightarrow> 'a::len word" where
  "from_be bs = foldl (\<lambda>acc b. push_bit 8 acc OR ucast b) 0 bs"

declare from_be_def [eval_simps]

lemma length_be_bytes [simp]: "length (be_bytes n w) = n"
  by (simp add: be_bytes_def)

lemma from_be_snoc: "from_be (bs @ [b]) = push_bit 8 (from_be bs) OR ucast b"
  by (simp add: from_be_def)

lemma from_be_Nil [simp]: "from_be [] = 0"
  by (simp add: from_be_def)

lemma bit_from_be:
  "bit (from_be bs :: 'a::len word) k \<longleftrightarrow>
     k < LENGTH('a) \<and> k div 8 < length bs \<and> bit (rev bs ! (k div 8)) (k mod 8)"
proof (induction bs arbitrary: k rule: rev_induct)
  case Nil
  then show ?case by simp
next
  case (snoc b bs)
  show ?case
  proof (cases "k < 8")
    case True
    then show ?thesis
      by (auto simp: from_be_snoc bit_simps)
  next
    case False
    then obtain j where j: "k = j + 8"
      by (metis add.commute le_Suc_ex not_less)
    have "\<not> bit (ucast b :: 'a word) k"
      using False by (auto simp: bit_simps dest: bit_imp_le_length)
    then show ?thesis
      using snoc.IH[of j] by (auto simp: from_be_snoc bit_simps j)
  qed
qed

lemma bit_be_bytes_rev:
  assumes "i < n"
  shows "bit (rev (be_bytes n w) ! i) k \<longleftrightarrow> k < 8 \<and> bit w (8 * i + k)"
  using assms by (auto simp: be_bytes_def rev_map bit_simps add.commute)

lemma from_be_be_bytes:
  assumes "LENGTH('a::len) \<le> 8 * n"
  shows "from_be (be_bytes n (w :: 'a word)) = w"
proof (rule bit_word_eqI)
  fix k assume "k < LENGTH('a)"
  then have "k div 8 < n" using assms by auto
  with \<open>k < LENGTH('a)\<close> show "bit (from_be (be_bytes n w) :: 'a word) k = bit w k"
    by (simp add: bit_from_be bit_be_bytes_rev)
qed

lemma be_bytes_from_be:
  assumes "length bs = n" and "8 * n \<le> LENGTH('a::len)"
  shows "be_bytes n (from_be bs :: 'a word) = bs"
proof -
  have "rev (be_bytes n (from_be bs :: 'a word)) = rev bs"
  proof (rule nth_equalityI)
    fix i assume "i < length (rev (be_bytes n (from_be bs :: 'a word)))"
    then have i: "i < n" by simp
    show "rev (be_bytes n (from_be bs :: 'a word)) ! i = rev bs ! i"
    proof (rule bit_word_eqI)
      fix k assume k: "k < LENGTH(8)"
      then have "8 * i + k < LENGTH('a)" using i assms(2) by simp
      moreover have "(8 * i + k) div 8 = i" "(8 * i + k) mod 8 = k" using k by auto
      ultimately show "bit (rev (be_bytes n (from_be bs :: 'a word)) ! i) k = bit (rev bs ! i) k"
        using i k assms(1) by (simp add: bit_be_bytes_rev bit_from_be)
    qed
  qed (simp add: assms(1))
  then show ?thesis by simp
qed

lemma be_bytes_2 [be_simps]: "be_bytes 2 w = [ucast (drop_bit 8 w), ucast w]"
  by (simp add: be_bytes_def upt_conv_Cons numeral_2_eq_2)

lemma be_bytes_unroll [eval_simps]:
  "be_bytes 0 w = []"
  "be_bytes (Suc n) w = ucast (drop_bit (8 * n) w) # be_bytes n w"
  "be_bytes (numeral k) w = ucast (drop_bit (8 * pred_numeral k) w) # be_bytes (pred_numeral k) w"
  by (simp_all add: be_bytes_def numeral_eq_Suc)

lemma be_bytes_inj:
  assumes "LENGTH('a::len) \<le> 8 * n"
  shows "be_bytes n (v :: 'a word) = be_bytes n w \<longleftrightarrow> v = w"
  by (metis assms from_be_be_bytes)

lemma from_be_snoc_plus: "from_be (bs @ [b]) = (from_be bs * 256 + ucast b :: 'a::len word)"
proof -
  have "push_bit 8 (from_be bs :: 'a word) OR ucast b = push_bit 8 (from_be bs) + ucast b"
    by (rule sym, rule disjunctive_add) (auto simp: bit_simps dest: bit_imp_le_length)
  then show ?thesis
    by (simp add: from_be_snoc push_bit_eq_mult)
qed

lemma word_of_unat: "unat (w :: 'a::len word) = n \<Longrightarrow> w = of_nat n"
  by auto

lemma unat_u8_less: "unat (b :: u8) < 256"
  using unsigned_less[of b] by simp

lemma unat_u16_less: "unat (w :: u16) < 65536"
  using unsigned_less[of w] by simp

lemma unat_ucast_u8 [simp]:
  "8 \<le> LENGTH('a::len) \<Longrightarrow> unat (ucast (b :: u8) :: 'a word) = unat b"
proof -
  assume "8 \<le> LENGTH('a)"
  then have "(2 :: nat) ^ 8 \<le> 2 ^ LENGTH('a)" by (rule power_increasing) simp
  with unat_u8_less[of b] have "unat b < 2 ^ LENGTH('a)" by simp
  then show ?thesis by (simp add: unsigned_ucast_eq take_bit_nat_eq_self_iff)
qed

lemma unat_from_be_2 [be_simps]:
  "unat (from_be [a, b] :: u16) = 256 * unat a + unat b"
proof -
  have "(from_be [a, b] :: u16) = ucast a * 256 + ucast b"
    using from_be_snoc_plus[of "[a]" b, where 'a = 16] from_be_snoc_plus[of "[]" a, where 'a = 16]
    by simp
  moreover have "unat a * 256 + unat b < 65536"
    using unat_u8_less[of a] unat_u8_less[of b] by linarith
  ultimately show ?thesis
    by (simp add: unat_word_ariths)
qed

text \<open>\<open>u16::from_be_bytes([bs[i], bs[i + 1]])\<close>\<close>

definition be16_at :: "bytes \<Rightarrow> nat \<Rightarrow> ('e, u16) res" where
  "be16_at bs i = bnd (byte_at bs i) (\<lambda>a. bnd (byte_at bs (i + 1)) (\<lambda>b. Ok (from_be [a, b])))"

lemma be16_at_ok [slice_simps]:
  "i + 2 \<le> length bs \<Longrightarrow> be16_at bs i = Ok (from_be [bs ! i, bs ! Suc i])"
  by (simp add: be16_at_def byte_at_ok)

lemma unat_of_nat_u16: "n < 65536 \<Longrightarrow> unat (of_nat n :: u16) = n"
  by (simp add: unsigned_of_nat take_bit_nat_eq_self_iff)

end
