(* ===== verification/Addr.thy ===== *)
theory Addr
  imports Amt_Prelude
begin

text \<open>
  The part of \<open>std::net\<close> and \<open>std::collections\<close> the program uses: IP and socket
  addresses with their predicates, octets and orderings, and the interface of the
  ordered maps.  An address is the word its big-endian octets spell; fixed arrays
  \<open>[u8; 16]\<close> and \<open>[u8; 6]\<close> are represented the same way, as 128-bit and 48-bit words.
\<close>

section \<open>IP addresses\<close>

type_synonym ipv4 = "32 word"
type_synonym ipv6 = "128 word"

datatype ip_addr = V4 ipv4 | V6 ipv6

abbreviation octets4 :: "ipv4 \<Rightarrow> bytes" where "octets4 \<equiv> be_bytes 4"
abbreviation octets6 :: "ipv6 \<Rightarrow> bytes" where "octets6 \<equiv> be_bytes 16"

fun octets :: "ip_addr \<Rightarrow> bytes" where
  "octets (V4 a) = octets4 a"
| "octets (V6 a) = octets6 a"

definition ipv4_is_multicast :: "ipv4 \<Rightarrow> bool" where
  "ipv4_is_multicast a = (let o0 = octets4 a ! 0 in 224 \<le> o0 \<and> o0 \<le> 239)"

definition ipv4_is_unspecified :: "ipv4 \<Rightarrow> bool" where
  "ipv4_is_unspecified a = (a = 0)"

definition ipv4_is_broadcast :: "ipv4 \<Rightarrow> bool" where
  "ipv4_is_broadcast a = (a = 0xffffffff)"

definition ipv6_segment0 :: "ipv6 \<Rightarrow> u16" where
  "ipv6_segment0 a = from_be [octets6 a ! 0, octets6 a ! 1]"

definition ipv6_is_multicast :: "ipv6 \<Rightarrow> bool" where
  "ipv6_is_multicast a = (ipv6_segment0 a AND 0xff00 = 0xff00)"

definition ipv6_is_unspecified :: "ipv6 \<Rightarrow> bool" where
  "ipv6_is_unspecified a = (a = 0)"

fun is_multicast :: "ip_addr \<Rightarrow> bool" where
  "is_multicast (V4 a) = ipv4_is_multicast a"
| "is_multicast (V6 a) = ipv6_is_multicast a"

fun is_unspecified :: "ip_addr \<Rightarrow> bool" where
  "is_unspecified (V4 a) = ipv4_is_unspecified a"
| "is_unspecified (V6 a) = ipv6_is_unspecified a"

fun is_v4 :: "ip_addr \<Rightarrow> bool" where
  "is_v4 (V4 _) = True"
| "is_v4 (V6 _) = False"

text \<open>A usable unicast address: the check that \<open>ip.rs\<close>, \<open>membership.rs\<close> and
  \<open>gateway.rs\<close> each apply to source and relay addresses.\<close>

fun is_usable_unicast :: "ip_addr \<Rightarrow> bool" where
  "is_usable_unicast (V4 a) =
     (\<not> ipv4_is_unspecified a \<and> \<not> ipv4_is_multicast a \<and> \<not> ipv4_is_broadcast a)"
| "is_usable_unicast (V6 a) = (\<not> ipv6_is_unspecified a \<and> \<not> ipv6_is_multicast a)"

fun same_family :: "ip_addr \<Rightarrow> ip_addr \<Rightarrow> bool" where
  "same_family (V4 _) (V4 _) = True"
| "same_family (V6 _) (V6 _) = True"
| "same_family _ _ = False"

declare ipv4_is_multicast_def [eval_simps] ipv4_is_unspecified_def [eval_simps]
  ipv4_is_broadcast_def [eval_simps] ipv6_segment0_def [eval_simps]
  ipv6_is_multicast_def [eval_simps] ipv6_is_unspecified_def [eval_simps]

lemma same_family_iff: "same_family a b \<longleftrightarrow> is_v4 a = is_v4 b"
  by (cases a; cases b) simp_all

lemma length_octets: "length (octets a) = (if is_v4 a then 4 else 16)"
  by (cases a) simp_all

lemma usable_not_multicast: "is_usable_unicast a \<Longrightarrow> \<not> is_multicast a"
  by (cases a) simp_all

instantiation ip_addr :: linorder
begin

fun ip_key :: "ip_addr \<Rightarrow> nat \<times> nat" where
  "ip_key (V4 a) = (0, unat a)"
| "ip_key (V6 a) = (1, unat a)"

definition less_eq_ip_addr :: "ip_addr \<Rightarrow> ip_addr \<Rightarrow> bool" where
  "a \<le> b \<longleftrightarrow> ip_key a \<le> ip_key b"

definition less_ip_addr :: "ip_addr \<Rightarrow> ip_addr \<Rightarrow> bool" where
  "a < b \<longleftrightarrow> ip_key a < ip_key b"

instance
proof
  fix a b c :: ip_addr
  have inj: "ip_key x = ip_key y \<Longrightarrow> x = y" for x y
    by (cases x; cases y) (simp_all add: word_eq_iff_unsigned[where 'a = nat])
  show "a < b \<longleftrightarrow> a \<le> b \<and> \<not> b \<le> a" "a \<le> a" "a \<le> b \<or> b \<le> a"
    by (auto simp: less_eq_ip_addr_def less_ip_addr_def)
  show "a \<le> b \<Longrightarrow> b \<le> c \<Longrightarrow> a \<le> c" by (auto simp: less_eq_ip_addr_def)
  show "a \<le> b \<Longrightarrow> b \<le> a \<Longrightarrow> a = b" by (auto simp: less_eq_ip_addr_def intro: inj)
qed

end

lemma ip_addr_less [simp]:
  "V4 a \<le> V4 b \<longleftrightarrow> a \<le> b" "V4 a < V4 b \<longleftrightarrow> a < b"
  "V6 c \<le> V6 d \<longleftrightarrow> c \<le> d" "V6 c < V6 d \<longleftrightarrow> c < d"
  "V4 a \<le> V6 d" "V4 a < V6 d" "\<not> V6 c \<le> V4 b" "\<not> V6 c < V4 b"
  by (simp_all add: less_eq_ip_addr_def less_ip_addr_def word_le_nat_alt word_less_nat_alt)

section \<open>Socket addresses\<close>

text \<open>A version-6 socket address also carries the flow information and the scope id.\<close>

datatype socket_addr = SockV4 ipv4 u16 | SockV6 ipv6 u16 u32 u32

fun sock_ip :: "socket_addr \<Rightarrow> ip_addr" where
  "sock_ip (SockV4 a _) = V4 a"
| "sock_ip (SockV6 a _ _ _) = V6 a"

fun sock_port :: "socket_addr \<Rightarrow> u16" where
  "sock_port (SockV4 _ p) = p"
| "sock_port (SockV6 _ p _ _) = p"

text \<open>\<open>SocketAddr::new\<close>\<close>

fun socket_new :: "ip_addr \<Rightarrow> u16 \<Rightarrow> socket_addr" where
  "socket_new (V4 a) p = SockV4 a p"
| "socket_new (V6 a) p = SockV6 a p 0 0"

lemma socket_new_sel [simp]: "sock_ip (socket_new a p) = a" "sock_port (socket_new a p) = p"
  by (cases a; simp)+

text \<open>Sockets that carry nothing beyond address and port.\<close>

fun unscoped :: "socket_addr \<Rightarrow> bool" where
  "unscoped (SockV4 _ _) = True"
| "unscoped (SockV6 _ _ flow scope) = (flow = 0 \<and> scope = 0)"

lemma socket_new_unscoped: "socket_new (sock_ip s) (sock_port s) = s \<longleftrightarrow> unscoped s"
  by (cases s) auto

instantiation socket_addr :: linorder
begin

fun sock_key :: "socket_addr \<Rightarrow> (nat \<times> nat) \<times> nat \<times> nat \<times> nat" where
  "sock_key (SockV4 a p) = (ip_key (V4 a), unat p, 0, 0)"
| "sock_key (SockV6 a p f s) = (ip_key (V6 a), unat p, unat f, unat s)"

definition less_eq_socket_addr :: "socket_addr \<Rightarrow> socket_addr \<Rightarrow> bool" where
  "a \<le> b \<longleftrightarrow> sock_key a \<le> sock_key b"

definition less_socket_addr :: "socket_addr \<Rightarrow> socket_addr \<Rightarrow> bool" where
  "a < b \<longleftrightarrow> sock_key a < sock_key b"

instance
proof
  fix a b c :: socket_addr
  have inj: "sock_key x = sock_key y \<Longrightarrow> x = y" for x y
    by (cases x; cases y) (simp_all add: word_eq_iff_unsigned[where 'a = nat])
  show "a < b \<longleftrightarrow> a \<le> b \<and> \<not> b \<le> a" "a \<le> a" "a \<le> b \<or> b \<le> a"
    by (auto simp: less_eq_socket_addr_def less_socket_addr_def)
  show "a \<le> b \<Longrightarrow> b \<le> c \<Longrightarrow> a \<le> c" by (auto simp: less_eq_socket_addr_def)
  show "a \<le> b \<Longrightarrow> b \<le> a \<Longrightarrow> a = b" by (auto simp: less_eq_socket_addr_def intro: inj)
qed

end

section \<open>Ordered maps and sets\<close>

text \<open>\<open>BTreeMap\<close> and \<open>BTreeSet\<close> are finite maps and finite sets; iteration is in key
  order.  The interface lists what the clients use of a map, and the lemmas below it
  are proved from those laws.\<close>

type_synonym ('k, 'v) btree_map = "('k, 'v) fmap"
type_synonym 'k btree_set = "'k fset"

abbreviation map_iter :: "('k::linorder, 'v) btree_map \<Rightarrow> ('k \<times> 'v) list" where
  "map_iter \<equiv> sorted_list_of_fmap"

abbreviation set_iter :: "'k::linorder btree_set \<Rightarrow> 'k list" where
  "set_iter \<equiv> sorted_list_of_fset"

locale ordered_map =
  fixes mget :: "'m \<Rightarrow> 'k::linorder \<Rightarrow> 'v option"
    and minsert :: "'k \<Rightarrow> 'v \<Rightarrow> 'm \<Rightarrow> 'm"
    and mremove :: "'k \<Rightarrow> 'm \<Rightarrow> 'm"
    and iter :: "'m \<Rightarrow> ('k \<times> 'v) list"
    and size_of :: "'m \<Rightarrow> nat"
  assumes get_insert: "mget (minsert k v m) k' = (if k' = k then Some v else mget m k')"
    and get_remove: "mget (mremove k m) k' = (if k' = k then None else mget m k')"
    and iter_sorted: "sorted_wrt (<) (map fst (iter m))"
    and iter_get: "(k, v) \<in> set (iter m) \<longleftrightarrow> mget m k = Some v"
    and size_iter: "size_of m = length (iter m)"
begin

lemma iter_distinct: "distinct (map fst (iter m))"
  using iter_sorted[of m] strict_sorted_iff by blast

lemma iter_keys: "k \<in> set (map fst (iter m)) \<longleftrightarrow> mget m k \<noteq> None"
  using iter_get by force

lemma iter_eq_map: "iter m = map (\<lambda>k. (k, the (mget m k))) (map fst (iter m))"
  using iter_get by (auto intro!: nth_equalityI) (metis nth_mem option.sel prod.collapse)

lemma iter_cong: "(\<And>k. mget m k = mget m' k) \<Longrightarrow> iter m = iter m'"
proof -
  assume eq: "\<And>k. mget m k = mget m' k"
  have set_eq: "set (iter m) = set (iter m')"
    using eq iter_get by (metis subrelI subset_antisym)
  have "map fst (iter m) = map fst (iter m')"
    using iter_sorted set_eq by (metis list.set_map strict_sorted_equal)
  then show "iter m = iter m'"
    using iter_eq_map[of m] iter_eq_map[of m'] eq by simp
qed

lemma size_remove_le: "size_of (mremove k m) \<le> size_of m"
proof -
  have "set (map fst (iter (mremove k m))) \<subseteq> set (map fst (iter m))"
    using iter_keys get_remove by (metis subsetI)
  then show ?thesis
    using iter_distinct by (metis List.finite_set card_mono distinct_card length_map size_iter)
qed

end

lemma map_iter_get: "(k, v) \<in> set (map_iter m) \<longleftrightarrow> fmlookup m k = Some v"
  by (auto simp: sorted_list_of_fmap_def fmlookup_dom_iff)

lemma map_fst_map_iter: "map fst (map_iter m) = set_iter (fmdom m)"
  by (simp add: sorted_list_of_fmap_def comp_def)

lemma iter_empty [simp]: "set_iter {||} = []" "map_iter fmempty = []"
  by (simp_all add: sorted_list_of_fmap_def sorted_list_of_fset.rep_eq)

lemma set_set_iter [simp]: "set (set_iter S) = fset S"
  by (simp add: sorted_list_of_fset.rep_eq)

lemma strict_sorted_set_iter: "sorted_wrt (<) (set_iter S)"
  by (simp add: sorted_list_of_fset.rep_eq)

lemma length_set_iter: "length (set_iter S) = fcard S"
  by (simp add: sorted_list_of_fset.rep_eq fcard.rep_eq)

interpretation btree: ordered_map fmlookup fmupd fmdrop map_iter "\<lambda>m. fcard (fmdom m)"
  by unfold_locales
     (simp_all add: map_iter_get map_fst_map_iter strict_sorted_set_iter length_set_iter
        flip: length_map[of fst])

end
