(* ===== verification/Protocol.thy ===== *)
theory Protocol
  imports Addr
begin

text \<open>
  The AMT wire codec of \<open>src/protocol.rs\<close> (RFC 7450 section 5.1): message types, the
  seven messages, the encoder and the decoder with every error branch.  The decoder
  is written over checked slice accesses, so the absence of panics is a theorem.
\<close>

section \<open>Message types and fields\<close>

definition VERSION :: u8 where "VERSION = 0"
definition VERSION_MASK :: u8 where "VERSION_MASK = 0xf0"
definition TYPE_MASK :: u8 where "TYPE_MASK = 0x0f"
definition AMT_PORT :: u16 where "AMT_PORT = 2268"
definition GATEWAY_FIELDS_LEN :: nat where "GATEWAY_FIELDS_LEN = 2 + 16"

datatype message_type = MtRelayDiscovery | MtRelayAdvertisement | MtRequest | MtMembershipQuery
  | MtMembershipUpdate | MtMulticastData | MtTeardown

fun message_type_code :: "message_type \<Rightarrow> u8" where
  "message_type_code MtRelayDiscovery = 1"
| "message_type_code MtRelayAdvertisement = 2"
| "message_type_code MtRequest = 3"
| "message_type_code MtMembershipQuery = 4"
| "message_type_code MtMembershipUpdate = 5"
| "message_type_code MtMulticastData = 6"
| "message_type_code MtTeardown = 7"

datatype decode_error =
    UnsupportedVersion u8
  | UnknownMessageType u8
  | Truncated "message_type option" nat nat
  | InvalidLength message_type string nat

definition from_nibble :: "u8 \<Rightarrow> (decode_error, message_type) res" where
  "from_nibble v =
     (if v = 1 then Ok MtRelayDiscovery
      else if v = 2 then Ok MtRelayAdvertisement
      else if v = 3 then Ok MtRequest
      else if v = 4 then Ok MtMembershipQuery
      else if v = 5 then Ok MtMembershipUpdate
      else if v = 6 then Ok MtMulticastData
      else if v = 7 then Ok MtTeardown
      else Err (UnknownMessageType v))"

datatype membership_protocol = Igmpv3 | Mldv2

definition from_p_flag :: "bool \<Rightarrow> membership_protocol" where
  "from_p_flag p = (if p then Mldv2 else Igmpv3)"

fun p_flag :: "membership_protocol \<Rightarrow> bool" where
  "p_flag Mldv2 = True"
| "p_flag Igmpv3 = False"

text \<open>The six-byte Response MAC.\<close>

type_synonym response_mac = "48 word"

abbreviation mac_bytes :: "response_mac \<Rightarrow> bytes" where "mac_bytes \<equiv> be_bytes 6"

definition constant_time_eq :: "response_mac \<Rightarrow> response_mac \<Rightarrow> bool" where
  "constant_time_eq a b =
     (fold (\<lambda>(left, right) difference. difference OR (left XOR right))
        (zip (mac_bytes a) (mac_bytes b)) (0 :: u8) = 0)"

text \<open>The sixteen-byte gateway address field.\<close>

type_synonym gateway_address = "128 word"

abbreviation gateway_octets :: "gateway_address \<Rightarrow> bytes" where "gateway_octets \<equiv> be_bytes 16"

fun from_ip_addr :: "ip_addr \<Rightarrow> gateway_address" where
  "from_ip_addr (V4 addr) = from_be (replicate 12 0 @ octets4 addr)"
| "from_ip_addr (V6 addr) = addr"

definition as_ipv6 :: "gateway_address \<Rightarrow> ipv6" where
  "as_ipv6 g = from_be (gateway_octets g)"

definition as_ipv4_compatible :: "gateway_address \<Rightarrow> ipv4 option" where
  "as_ipv4_compatible g =
     (if take 12 (gateway_octets g) = replicate 12 0
      then Some (from_be (drop 12 (gateway_octets g))) else None)"

record gateway_endpoint =
  ge_port :: u16
  ge_address :: gateway_address

definition gateway_endpoint_new :: "u16 \<Rightarrow> gateway_address \<Rightarrow> gateway_endpoint" where
  "gateway_endpoint_new port address = \<lparr>ge_port = port, ge_address = address\<rparr>"

datatype message =
    RelayDiscovery u32
  | RelayAdvertisement u32 ip_addr
  | Request u32 membership_protocol bool
  | MembershipQuery response_mac u32 bool "gateway_endpoint option" bytes
  | MembershipUpdate response_mac u32 bytes
  | MulticastData bytes
  | Teardown response_mac u32 gateway_endpoint

section \<open>Encoding\<close>

definition header :: "message_type \<Rightarrow> u8" where
  "header mt = push_bit 4 VERSION OR message_type_code mt"

definition put_u32 :: "bytes \<Rightarrow> u32 \<Rightarrow> bytes" where
  "put_u32 out v = out @ be_bytes 4 v"

definition put_gateway_endpoint :: "bytes \<Rightarrow> gateway_endpoint \<Rightarrow> bytes" where
  "put_gateway_endpoint out g = out @ be_bytes 2 (ge_port g) @ gateway_octets (ge_address g)"

fun encode_into :: "message \<Rightarrow> bytes \<Rightarrow> bytes" where
  "encode_into (RelayDiscovery nonce) out = put_u32 (out @ [header MtRelayDiscovery, 0, 0, 0]) nonce"
| "encode_into (RelayAdvertisement nonce relay_address) out =
     put_u32 (out @ [header MtRelayAdvertisement, 0, 0, 0]) nonce @ octets relay_address"
| "encode_into (Request nonce protocol ecn_capable) out =
     put_u32 (out @ [header MtRequest, push_bit 1 (of_bool ecn_capable) OR of_bool (p_flag protocol)]
       @ [0, 0]) nonce"
| "encode_into (MembershipQuery mac nonce limit gateway general_query) out =
     (let out = put_u32 (out @ [header MtMembershipQuery,
            push_bit 1 (of_bool limit) OR of_bool (gateway \<noteq> None)] @ mac_bytes mac) nonce
          @ general_query
      in case gateway of Some g \<Rightarrow> put_gateway_endpoint out g | None \<Rightarrow> out)"
| "encode_into (MembershipUpdate mac nonce membership_update) out =
     put_u32 (out @ [header MtMembershipUpdate, 0] @ mac_bytes mac) nonce @ membership_update"
| "encode_into (MulticastData packet) out = out @ [header MtMulticastData, 0] @ packet"
| "encode_into (Teardown mac nonce gateway) out =
     put_gateway_endpoint (put_u32 (out @ [header MtTeardown, 0] @ mac_bytes mac) nonce) gateway"

definition encode :: "message \<Rightarrow> bytes" where
  "encode m = encode_into m []"

fun encoded_len :: "message \<Rightarrow> nat" where
  "encoded_len (RelayDiscovery _) = 8"
| "encoded_len (RelayAdvertisement _ relay_address) = 8 + (case relay_address of V4 _ \<Rightarrow> 4 | V6 _ \<Rightarrow> 16)"
| "encoded_len (Request _ _ _) = 8"
| "encoded_len (MembershipQuery _ _ _ gateway general_query) =
     12 + length general_query + (case gateway of Some _ \<Rightarrow> GATEWAY_FIELDS_LEN | None \<Rightarrow> 0)"
| "encoded_len (MembershipUpdate _ _ membership_update) = 12 + length membership_update"
| "encoded_len (MulticastData packet) = 2 + length packet"
| "encoded_len (Teardown _ _ _) = 12 + GATEWAY_FIELDS_LEN"

section \<open>Decoding\<close>

definition require_exact :: "message_type \<Rightarrow> bytes \<Rightarrow> nat \<Rightarrow> (decode_error, unit) res" where
  "require_exact mt input expected =
     (if length input = expected then Ok ()
      else if length input < expected then Err (Truncated (Some mt) expected (length input))
      else Err (InvalidLength mt ''the fixed RFC 7450 message length'' (length input)))"

definition require_at_least :: "message_type \<Rightarrow> bytes \<Rightarrow> nat \<Rightarrow> (decode_error, unit) res" where
  "require_at_least mt input expected =
     (if expected \<le> length input then Ok ()
      else Err (Truncated (Some mt) expected (length input)))"

definition read_u32 :: "bytes \<Rightarrow> nat \<Rightarrow> ('e, u32) res" where
  "read_u32 input offset =
     bnd (byte_at input offset) (\<lambda>a. bnd (byte_at input (offset + 1)) (\<lambda>b.
     bnd (byte_at input (offset + 2)) (\<lambda>c. bnd (byte_at input (offset + 3)) (\<lambda>d.
     Ok (from_be [a, b, c, d])))))"

definition read_response_mac :: "bytes \<Rightarrow> ('e, response_mac) res" where
  "read_response_mac input = bnd (slice input 2 8) (\<lambda>mac. Ok (from_be mac))"

definition read_gateway_endpoint :: "bytes \<Rightarrow> (decode_error, gateway_endpoint) res" where
  "read_gateway_endpoint input =
     (if length input \<noteq> GATEWAY_FIELDS_LEN
      then Err (InvalidLength MtTeardown ''18 gateway endpoint bytes'' (length input))
      else bnd (slice input 2 18) (\<lambda>address.
           bnd (byte_at input 0) (\<lambda>p0. bnd (byte_at input 1) (\<lambda>p1.
           Ok \<lparr>ge_port = from_be [p0, p1], ge_address = from_be address\<rparr>))))"

definition decode_relay_discovery :: "bytes \<Rightarrow> (decode_error, message) res" where
  "decode_relay_discovery input =
     bnd (require_exact MtRelayDiscovery input 8) (\<lambda>_.
     bnd (read_u32 input 4) (\<lambda>nonce. Ok (RelayDiscovery nonce)))"

definition decode_relay_advertisement :: "bytes \<Rightarrow> (decode_error, message) res" where
  "decode_relay_advertisement input =
     bnd (require_at_least MtRelayAdvertisement input 8) (\<lambda>_.
     bnd (read_u32 input 4) (\<lambda>nonce.
     bnd (if length input - 8 = 4 then bnd (slice input 8 12) (\<lambda>o4. Ok (V4 (from_be o4)))
          else if length input - 8 = 16 then bnd (slice input 8 24) (\<lambda>o6. Ok (V6 (from_be o6)))
          else Err (InvalidLength MtRelayAdvertisement ''12 bytes for IPv4 or 24 bytes for IPv6''
                 (length input)))
       (\<lambda>relay_address. Ok (RelayAdvertisement nonce relay_address))))"

definition decode_request :: "bytes \<Rightarrow> (decode_error, message) res" where
  "decode_request input =
     bnd (require_exact MtRequest input 8) (\<lambda>_.
     bnd (read_u32 input 4) (\<lambda>nonce. bnd (byte_at input 1) (\<lambda>flags.
     Ok (Request nonce (from_p_flag (flags AND 0x01 \<noteq> 0)) (flags AND 0x02 \<noteq> 0)))))"

definition decode_membership_query :: "bytes \<Rightarrow> (decode_error, message) res" where
  "decode_membership_query input =
     bnd (require_at_least MtMembershipQuery input 12) (\<lambda>_.
     bnd (byte_at input 1) (\<lambda>flags.
     let has_gateway = flags AND 0x01 \<noteq> 0 in
     bnd (if has_gateway
          then if length input < 12 + GATEWAY_FIELDS_LEN
               then Err (Truncated (Some MtMembershipQuery) (12 + GATEWAY_FIELDS_LEN) (length input))
               else Ok (length input - GATEWAY_FIELDS_LEN)
          else Ok (length input)) (\<lambda>gateway_offset.
     bnd (read_response_mac input) (\<lambda>mac.
     bnd (read_u32 input 8) (\<lambda>nonce.
     bnd (if has_gateway
          then bnd (slice_from input gateway_offset) (\<lambda>g.
               bnd (read_gateway_endpoint g) (\<lambda>e. Ok (Some e)))
          else Ok None) (\<lambda>gateway.
     bnd (slice input 12 gateway_offset) (\<lambda>general_query.
     Ok (MembershipQuery mac nonce (flags AND 0x02 \<noteq> 0) gateway general_query))))))))"

definition decode_membership_update :: "bytes \<Rightarrow> (decode_error, message) res" where
  "decode_membership_update input =
     bnd (require_at_least MtMembershipUpdate input 12) (\<lambda>_.
     bnd (read_response_mac input) (\<lambda>mac. bnd (read_u32 input 8) (\<lambda>nonce.
     bnd (slice_from input 12) (\<lambda>membership_update.
     Ok (MembershipUpdate mac nonce membership_update)))))"

definition decode_multicast_data :: "bytes \<Rightarrow> (decode_error, message) res" where
  "decode_multicast_data input =
     bnd (require_at_least MtMulticastData input 2) (\<lambda>_.
     bnd (slice_from input 2) (\<lambda>packet. Ok (MulticastData packet)))"

definition decode_teardown :: "bytes \<Rightarrow> (decode_error, message) res" where
  "decode_teardown input =
     bnd (require_exact MtTeardown input (12 + GATEWAY_FIELDS_LEN)) (\<lambda>_.
     bnd (read_response_mac input) (\<lambda>mac. bnd (read_u32 input 8) (\<lambda>nonce.
     bnd (slice_from input 12) (\<lambda>g. bnd (read_gateway_endpoint g) (\<lambda>gateway.
     Ok (Teardown mac nonce gateway))))))"

definition decode :: "bytes \<Rightarrow> (decode_error, message) res" where
  "decode input =
     bnd (ok_or (get_byte input 0) (Truncated None 1 0)) (\<lambda>first.
     let version = drop_bit 4 (first AND VERSION_MASK) in
     if version \<noteq> VERSION then Err (UnsupportedVersion version)
     else bnd (from_nibble (first AND TYPE_MASK)) (\<lambda>mt.
       case mt of
         MtRelayDiscovery \<Rightarrow> decode_relay_discovery input
       | MtRelayAdvertisement \<Rightarrow> decode_relay_advertisement input
       | MtRequest \<Rightarrow> decode_request input
       | MtMembershipQuery \<Rightarrow> decode_membership_query input
       | MtMembershipUpdate \<Rightarrow> decode_membership_update input
       | MtMulticastData \<Rightarrow> decode_multicast_data input
       | MtTeardown \<Rightarrow> decode_teardown input))"

section \<open>Field lemmas\<close>

lemma read_u32_ok [slice_simps]:
  assumes "offset + 4 \<le> length input"
  shows "read_u32 input offset = Ok (from_be (take 4 (drop offset input)))"
proof -
  have "take 4 (drop offset input) =
      [input ! offset, input ! (offset + 1), input ! (offset + 2), input ! (offset + 3)]"
    using assms by (auto intro!: nth_equalityI simp: less_Suc_eq numeral_eq_Suc)
  then show ?thesis
    using assms by (simp add: read_u32_def byte_at_ok)
qed

lemma read_response_mac_ok [slice_simps]:
  "8 \<le> length input \<Longrightarrow> read_response_mac input = Ok (from_be (take 6 (drop 2 input)))"
  by (simp add: read_response_mac_def slice_ok)

lemma read_gateway_endpoint_ok [slice_simps]:
  assumes "length input = 18"
  shows "read_gateway_endpoint input =
    Ok \<lparr>ge_port = from_be (take 2 input), ge_address = from_be (drop 2 input)\<rparr>"
proof -
  have "take 2 input = [input ! 0, input ! 1]"
    using assms by (auto intro!: nth_equalityI simp: less_Suc_eq numeral_eq_Suc)
  then show ?thesis
    using assms by (simp add: read_gateway_endpoint_def GATEWAY_FIELDS_LEN_def slice_simps)
qed

lemma require_exact_Ok [simp]: "require_exact mt input n = Ok u \<longleftrightarrow> length input = n"
  by (simp add: require_exact_def)

lemma require_at_least_Ok [simp]: "require_at_least mt input n = Ok u \<longleftrightarrow> n \<le> length input"
  by (simp add: require_at_least_def)

lemma header_simps [simp]:
  "drop_bit 4 (header mt) AND drop_bit 4 VERSION_MASK = 0" "header mt AND TYPE_MASK = message_type_code mt"
  by (cases mt; simp add: header_def VERSION_def VERSION_MASK_def TYPE_MASK_def)+

lemma from_nibble_code [simp]: "from_nibble (message_type_code mt) = Ok mt"
  by (cases mt) (simp_all add: from_nibble_def)

lemmas decode_defs = decode_relay_discovery_def decode_relay_advertisement_def decode_request_def
  decode_membership_query_def decode_membership_update_def decode_multicast_data_def
  decode_teardown_def

lemma decode_header:
  "decode (header mt # rest) =
     (case mt of
         MtRelayDiscovery \<Rightarrow> decode_relay_discovery (header mt # rest)
       | MtRelayAdvertisement \<Rightarrow> decode_relay_advertisement (header mt # rest)
       | MtRequest \<Rightarrow> decode_request (header mt # rest)
       | MtMembershipQuery \<Rightarrow> decode_membership_query (header mt # rest)
       | MtMembershipUpdate \<Rightarrow> decode_membership_update (header mt # rest)
       | MtMulticastData \<Rightarrow> decode_multicast_data (header mt # rest)
       | MtTeardown \<Rightarrow> decode_teardown (header mt # rest))"
  by (simp add: decode_def VERSION_def Let_def)

lemmas encode_defs = encode_def put_u32_def put_gateway_endpoint_def GATEWAY_FIELDS_LEN_def

lemma length_encode: "length (encode m) = encoded_len m"
  by (cases m) (auto simp: encode_defs length_octets Let_def split: option.split ip_addr.split)

lemma flag_bits:
  "(push_bit 1 (of_bool a) OR of_bool b :: u8) AND 1 = of_bool b"
  "(push_bit 1 (of_bool a) OR of_bool b :: u8) AND 2 = push_bit 1 (of_bool a)"
  by (cases a; cases b; simp)+

lemma p_flag_from [simp]: "from_p_flag (p_flag p) = p"
  by (cases p) (simp_all add: from_p_flag_def)

lemma decode_encode_raw: "decode (encode m) = Ok m"
proof (cases m)
  case (MembershipQuery mac nonce limit gateway q)
  then show ?thesis
    by (cases gateway)
       (simp_all add: encode_defs decode_header decode_membership_query_def require_at_least_def
         slice_simps flag_bits from_be_be_bytes Let_def)
next
  case (Request nonce p e)
  then show ?thesis
    by (cases p) (simp_all add: encode_defs decode_header decode_defs require_exact_def
         from_p_flag_def slice_simps flag_bits from_be_be_bytes)
next
  case (RelayAdvertisement nonce a)
  then show ?thesis
    by (cases a) (simp_all add: encode_defs decode_header decode_defs require_at_least_def
         slice_simps from_be_be_bytes)
qed (simp_all add: encode_defs decode_header decode_defs require_exact_def require_at_least_def
       slice_simps flag_bits from_be_be_bytes)

section \<open>Panic freedom and the accepted language\<close>

lemma no_panic_require [simp]:
  "no_panic (require_exact mt input n)" "no_panic (require_at_least mt input n)"
  by (simp_all add: require_exact_def require_at_least_def)

lemma no_panic_from_nibble [simp]: "no_panic (from_nibble v)"
  by (simp add: from_nibble_def)

lemma no_panic_decoders [simp]:
  "no_panic (decode_relay_discovery input)" "no_panic (decode_relay_advertisement input)"
  "no_panic (decode_request input)" "no_panic (decode_membership_query input)"
  "no_panic (decode_membership_update input)" "no_panic (decode_multicast_data input)"
  "no_panic (decode_teardown input)"
  by (auto simp: decode_defs slice_simps Let_def GATEWAY_FIELDS_LEN_def
      require_exact_def require_at_least_def)

lemma no_panic_decode: "no_panic (decode input)"
  unfolding decode_def Let_def by (auto intro!: no_panic_bnd split: message_type.splits)

lemma is_ok_simps [simp]: "is_ok (Ok x)" "\<not> is_ok (Err e)" "\<not> is_ok Panic"
  by (simp_all add: is_ok_def)

lemma low_nibble_byte:
  fixes b :: u8
  assumes "drop_bit 4 (b AND 0xf0) = 0"
  shows "b AND 0x0f = b"
proof -
  have "drop_bit 4 (b AND 0xf0) = drop_bit 4 b AND mask 4"
    by (simp add: mask_eq_exp_minus_1)
  also have "\<dots> = take_bit 4 (drop_bit 4 b)" by (simp only: take_bit_eq_mask)
  also have "\<dots> = drop_bit 4 b"
    by (simp add: take_bit_drop_bit take_bit_word_eq_self)
  finally have "drop_bit 4 b = 0" using assms by simp
  then have "take_bit 4 b = b" using bits_ident[of 4 b] by simp
  then show ?thesis by (simp add: take_bit_eq_mask mask_eq_exp_minus_1)
qed

text \<open>The datagrams the decoder accepts, by first byte and length.\<close>

definition amt_wellformed :: "bytes \<Rightarrow> bool" where
  "amt_wellformed bs =
     (bs \<noteq> [] \<and> (let n = length bs; b = bs ! 0 in
        (b = 1 \<and> n = 8) \<or> (b = 2 \<and> (n = 12 \<or> n = 24)) \<or> (b = 3 \<and> n = 8) \<or>
        (b = 4 \<and> 12 \<le> n \<and> (bs ! 1 AND 1 \<noteq> 0 \<longrightarrow> 30 \<le> n)) \<or>
        (b = 5 \<and> 12 \<le> n) \<or> (b = 6 \<and> 2 \<le> n) \<or> (b = 7 \<and> n = 30)))"

lemma is_ok_decoders:
  "is_ok (decode_relay_discovery input) \<longleftrightarrow> length input = 8"
  "is_ok (decode_relay_advertisement input) \<longleftrightarrow> length input = 12 \<or> length input = 24"
  "is_ok (decode_request input) \<longleftrightarrow> length input = 8"
  "is_ok (decode_membership_query input) \<longleftrightarrow>
     12 \<le> length input \<and> (input ! 1 AND 1 \<noteq> 0 \<longrightarrow> 30 \<le> length input)"
  "is_ok (decode_membership_update input) \<longleftrightarrow> 12 \<le> length input"
  "is_ok (decode_multicast_data input) \<longleftrightarrow> 2 \<le> length input"
  "is_ok (decode_teardown input) \<longleftrightarrow> length input = 30"
  by (auto simp: decode_defs slice_simps Let_def GATEWAY_FIELDS_LEN_def
      require_exact_def require_at_least_def)

lemma decode_accepts_raw: "is_ok (decode bs) \<longleftrightarrow> amt_wellformed bs"
proof (cases bs)
  case Nil
  then show ?thesis by (simp add: decode_def amt_wellformed_def)
next
  case (Cons b rest)
  show ?thesis
  proof (cases "drop_bit 4 (b AND 0xf0) = 0")
    case True
    then have "b AND TYPE_MASK = b" by (simp add: low_nibble_byte TYPE_MASK_def del: drop_bit_and)
    with True Cons show ?thesis
      by (simp add: decode_def amt_wellformed_def VERSION_def VERSION_MASK_def from_nibble_def
          is_ok_decoders Let_def del: drop_bit_and)
  next
    case False
    then have "b \<notin> {1, 2, 3, 4, 5, 6, 7}" by auto
    with False Cons show ?thesis
      by (simp add: decode_def amt_wellformed_def VERSION_def VERSION_MASK_def Let_def
          del: drop_bit_and)
  qed
qed

section \<open>Response MAC comparison and gateway addresses\<close>

lemma xor_eq_zero: "a XOR b = 0 \<longleftrightarrow> a = (b :: u8)"
  by (metis xor.assoc xor.right_neutral xor_self_eq)

lemma fold_or_xor:
  "fold (\<lambda>(left, right) difference. difference OR (left XOR right)) ps (d :: u8) = 0 \<longleftrightarrow>
     d = 0 \<and> (\<forall>(l, r) \<in> set ps. l = r)"
  by (induction ps arbitrary: d) (auto simp: or_eq_0_iff xor_eq_zero)

lemma constant_time_eq_iff: "constant_time_eq a b \<longleftrightarrow> a = b"
proof -
  have "(\<forall>(l, r) \<in> set (zip (mac_bytes a) (mac_bytes b)). l = r) \<longleftrightarrow> mac_bytes a = mac_bytes b"
    by (simp add: list_eq_iff_zip_eq[of "mac_bytes a"])
  then show ?thesis
    by (simp add: constant_time_eq_def fold_or_xor be_bytes_inj)
qed

lemma as_ipv6_id [simp]: "as_ipv6 g = g"
  by (simp add: as_ipv6_def from_be_be_bytes)

lemma as_ipv4_compatible_from_v4 [simp]: "as_ipv4_compatible (from_ip_addr (V4 a)) = Some a"
  by (simp add: as_ipv4_compatible_def be_bytes_from_be from_be_be_bytes)

lemma as_ipv4_compatible_Some:
  assumes "as_ipv4_compatible g = Some a"
  shows "from_ip_addr (V4 a) = g"
proof -
  from assms have t: "take 12 (gateway_octets g) = replicate 12 0"
    and a: "a = from_be (drop 12 (gateway_octets g))"
    by (auto simp: as_ipv4_compatible_def split: if_splits)
  have "octets4 a = drop 12 (gateway_octets g)" by (simp add: a be_bytes_from_be)
  then have "replicate 12 0 @ octets4 a = gateway_octets g"
    using append_take_drop_id[of 12 "gateway_octets g"] t by simp
  then have "from_ip_addr (V4 a) = from_be (gateway_octets g)"
    by (simp only: from_ip_addr.simps)
  then show ?thesis by (simp add: from_be_be_bytes)
qed

section \<open>Properties of the AMT codec\<close>

text \<open>C17: every AMT message, once encoded, decodes to itself, and its encoding has the length
  that \<open>encoded_len\<close> announces.\<close>

theorem decode_encode: "decode (encode m) = Ok m \<and> length (encode m) = encoded_len m"
  by (simp add: decode_encode_raw length_encode)

text \<open>C18: the decoder never panics on any bytes of the network, and accepts exactly the
  datagrams whose version is zero, whose type is known and whose length fits that type.\<close>

theorem decode_accepts: "no_panic (decode bs) \<and> (is_ok (decode bs) \<longleftrightarrow> amt_wellformed bs)"
  by (simp add: no_panic_decode decode_accepts_raw)

end
