(* ===== verification/Checksum.thy ===== *)
theory Checksum
  imports Amt_Prelude
begin

text \<open>
  The Internet checksum of \<open>src/checksum.rs\<close>: the byte-by-byte accumulation with
  end-around carry over a list of slices, the arithmetic it computes, and the fact
  every packet builder of the program relies on: a checksum stored over its zeroed
  field makes the region sum to \<open>0xffff\<close>.
\<close>

section \<open>The accumulation loop\<close>

text \<open>One end-around-carry addition of a 16-bit word to the 32-bit accumulator.\<close>

definition add_carry :: "u32 \<Rightarrow> u16 \<Rightarrow> u32" where
  "add_carry acc w = (let s = acc + ucast w in (s AND 0xffff) + drop_bit 16 s)"

fun sum_byte :: "u8 \<Rightarrow> u32 \<times> u8 option \<Rightarrow> u32 \<times> u8 option" where
  "sum_byte byte (acc, Some high) = (add_carry acc (from_be [high, byte]), None)"
| "sum_byte byte (acc, None) = (acc, Some byte)"

definition ones_complement_sum_parts :: "bytes list \<Rightarrow> u16" where
  "ones_complement_sum_parts parts =
     (case fold (fold sum_byte) parts (0, None) of
        (acc, Some high) \<Rightarrow> ucast (add_carry acc (from_be [high, 0]))
      | (acc, None) \<Rightarrow> ucast acc)"

definition ones_complement_sum :: "bytes \<Rightarrow> u16" where
  "ones_complement_sum bs = ones_complement_sum_parts [bs]"

definition checksum_parts :: "bytes list \<Rightarrow> u16" where
  "checksum_parts parts = NOT (ones_complement_sum_parts parts)"

definition checksum :: "bytes \<Rightarrow> u16" where
  "checksum bs = checksum_parts [bs]"

definition icmpv6_checksum :: "bytes \<Rightarrow> bytes \<Rightarrow> u8 \<Rightarrow> bytes \<Rightarrow> u16" where
  "icmpv6_checksum source destination next_header payload =
     checksum_parts [source, destination, be_bytes 4 (of_nat (length payload) :: u32),
       [0, 0, 0, next_header], payload]"

declare add_carry_def [eval_simps] ones_complement_sum_parts_def [eval_simps]
  ones_complement_sum_def [eval_simps] checksum_parts_def [eval_simps] checksum_def [eval_simps]

section \<open>What the loop computes\<close>

lemma and_mask_nat: "(n :: nat) AND 65535 = n mod 65536"
  using take_bit_eq_mask[of 16 n] by (simp add: take_bit_eq_mod mask_eq_exp_minus_1)


text \<open>The sum of the big-endian 16-bit words, an odd last byte padded with zero, and
  its representative among \<open>0 .. 65535\<close> modulo \<open>65535\<close> (zero only for the sum zero).\<close>

fun words_sum :: "bytes \<Rightarrow> nat" where
  "words_sum [] = 0"
| "words_sum [h] = 256 * unat h"
| "words_sum (h # l # bs) = 256 * unat h + unat l + words_sum bs"

definition oc_norm :: "nat \<Rightarrow> nat" where
  "oc_norm t = (if t = 0 then 0 else (t - 1) mod 65535 + 1)"

lemma oc_norm_le: "oc_norm t \<le> 65535"
  by (simp add: oc_norm_def Suc_le_eq)

lemma oc_norm_add:
  assumes "w \<le> 65535"
  shows "oc_norm (t + w) = (let s = oc_norm t + w in s mod 65536 + s div 65536)"
proof (cases "t = 0")
  case True
  then show ?thesis using assms by (auto simp: oc_norm_def)
next
  case False
  define r where "r = (t - 1) mod 65535"
  have r: "r < 65535" by (simp add: r_def)
  have "(t + w - 1) mod 65535 = (r + w) mod 65535"
    using False by (simp add: r_def mod_simps)
  moreover have "(r + w) mod 65535 = (if r + w < 65535 then r + w else r + w - 65535)"
    using r assms by (auto simp: le_mod_geq)
  moreover have "(r + 1 + w) mod 65536 + (r + 1 + w) div 65536 =
      (if r + w < 65535 then r + w + 1 else r + w - 65535 + 1)"
    using r assms by (auto simp: le_mod_geq le_div_geq)
  ultimately show ?thesis
    using False by (simp add: oc_norm_def flip: r_def One_nat_def)
qed

lemma unat_add_carry:
  assumes "unat s \<le> 65535"
  shows "unat (add_carry s w) = (let t = unat s + unat w in t mod 65536 + t div 65536)"
proof -
  have w: "unat (ucast w :: u32) = unat w"
    using unat_u16_less[of w] by (simp add: unsigned_ucast_eq take_bit_nat_eq_self_iff)
  have t: "unat (s + ucast w :: u32) = unat s + unat w"
    using assms unat_u16_less[of w] by (simp add: unat_word_ariths w)
  define x where "x = s + ucast w"
  have lo: "unat (x AND 0xffff) = unat x mod 65536"
    by (simp add: unsigned_and_eq and_mask_nat)
  have hi: "unat (drop_bit 16 x) = unat x div 65536"
    by (simp add: drop_bit_eq_div unat_div_distrib)
  have "unat x mod 65536 + unat x div 65536 < 2 ^ 32"
    using t assms unat_u16_less[of w] by (auto simp: x_def)
  then show ?thesis
    using t by (simp add: add_carry_def x_def[symmetric] unat_word_ariths lo hi Let_def)
qed

lemma fold_sum_byte:
  assumes "unat s = oc_norm t"
  shows "\<exists>s'. fold sum_byte bs (s, None) =
           (s', if even (length bs) then None else Some (last bs)) \<and>
         unat s' = oc_norm (t + words_sum (if even (length bs) then bs else butlast bs))"
  using assms
proof (induction bs arbitrary: s t rule: words_sum.induct)
  case (3 h l bs)
  let ?w = "from_be [h, l] :: u16"
  have "unat (add_carry s ?w) = oc_norm (t + (256 * unat h + unat l))"
    using "3.prems" oc_norm_le[of t] unat_u16_less[of ?w]
    by (simp add: unat_add_carry oc_norm_add unat_from_be_2)
  from "3.IH"[OF this] show ?case
    by (cases bs) (auto simp: add.assoc split: if_splits)
qed auto

lemma words_sum_append:
  "even (length xs) \<Longrightarrow> words_sum (xs @ ys) = words_sum xs + words_sum ys"
  by (induction xs rule: words_sum.induct) simp_all

lemma unat_ones_complement_sum_parts:
  "unat (ones_complement_sum_parts parts) = oc_norm (words_sum (concat parts))"
proof -
  have trunc: "unat (ucast s :: u16) = unat s" if "unat s \<le> 65535" for s :: u32
    using that by (simp add: unsigned_ucast_eq take_bit_nat_eq_self_iff)
  have cat: "fold (fold sum_byte) parts st = fold sum_byte (concat parts) st" for st
    by (induction parts arbitrary: st) simp_all
  obtain s where s: "fold sum_byte (concat parts) (0, None) =
      (s, if even (length (concat parts)) then None else Some (last (concat parts)))"
    and us: "unat s = oc_norm (words_sum (if even (length (concat parts)) then concat parts
      else butlast (concat parts)))"
    using fold_sum_byte[of 0 0 "concat parts"] by (auto simp: oc_norm_def)
  show ?thesis
  proof (cases "even (length (concat parts))")
    case True
    then show ?thesis
      using s us oc_norm_le by (simp add: ones_complement_sum_parts_def cat trunc)
  next
    case False
    then obtain xs l where xs: "concat parts = xs @ [l]" by (cases "concat parts" rule: rev_cases) auto
    with False have ev: "even (length xs)" by simp
    have "unat (add_carry s (from_be [l, 0])) = oc_norm (words_sum (concat parts))"
      using us False ev oc_norm_le[of "words_sum xs"] unat_u16_less[of "from_be [l, 0]"]
      by (simp add: xs unat_add_carry oc_norm_add words_sum_append unat_from_be_2)
    then show ?thesis
      using s False oc_norm_le by (simp add: ones_complement_sum_parts_def cat xs trunc)
  qed
qed

section \<open>Validity of a stored checksum\<close>

lemma words_sum_be_bytes [simp]: "words_sum (be_bytes 2 (w :: u16)) = unat w"
proof -
  have "words_sum (be_bytes 2 w) = unat (from_be (be_bytes 2 w) :: u16)"
    by (simp add: be_bytes_2 unat_from_be_2)
  then show ?thesis by (simp add: from_be_be_bytes)
qed

lemma unat_not_u16: "unat (NOT w :: u16) = 65535 - unat w"
proof -
  have "NOT w = 0xffff - w" by (simp add: not_eq_complement)
  moreover have "w \<le> 0xffff" using unat_u16_less[of w] by (simp add: word_le_nat_alt)
  ultimately show ?thesis by (simp add: unat_sub)
qed

lemma oc_norm_complement: "oc_norm (t + (65535 - oc_norm t)) = 65535"
proof -
  have "oc_norm (t + (65535 - oc_norm t)) = (let s = 65535 :: nat in s mod 65536 + s div 65536)"
    using oc_norm_add[of "65535 - oc_norm t" t] oc_norm_le[of t] by simp
  then show ?thesis by simp
qed

lemma u16_eq_ffff: "unat (w :: u16) = 65535 \<Longrightarrow> w = 0xffff"
  by (rule unsigned_word_eqI[where 'a = nat]) simp

text \<open>The zeroed checksum field may lie in any part of the region, at an even offset.\<close>

lemma sum_with_checksum_parts:
  assumes "even (length xs)"
    and "concat zeroed = xs @ [0, 0] @ ys" and "concat parts = xs @ be_bytes 2 (checksum_parts zeroed) @ ys"
  shows "ones_complement_sum_parts parts = 0xffff"
proof -
  let ?t = "words_sum xs + words_sum ys"
  have s0: "unat (ones_complement_sum_parts zeroed) = oc_norm ?t"
    using assms(1,2) by (simp add: unat_ones_complement_sum_parts words_sum_append)
  have "unat (ones_complement_sum_parts parts) = oc_norm (?t + (65535 - oc_norm ?t))"
    using assms(1,3) s0
    by (simp add: unat_ones_complement_sum_parts words_sum_append checksum_parts_def unat_not_u16
        ac_simps)
  then show ?thesis by (simp add: oc_norm_complement u16_eq_ffff)
qed

lemma ones_complement_sum_with_checksum:
  assumes "even (length xs)"
  shows "ones_complement_sum (xs @ be_bytes 2 (checksum (xs @ [0, 0] @ ys)) @ ys) = 0xffff"
  unfolding ones_complement_sum_def checksum_def
  by (rule sum_with_checksum_parts[OF assms]) simp_all

lemma icmpv6_checksum_with_checksum:
  assumes "even (length xs)" and "even (length src + length dst)"
  shows "icmpv6_checksum src dst nh
    (xs @ be_bytes 2 (icmpv6_checksum src dst nh (xs @ [0, 0] @ ys)) @ ys) = 0"
proof -
  let ?pre = "src @ dst @ be_bytes 4 (of_nat (length (xs @ [0 :: u8, 0] @ ys)) :: u32) @ [0, 0, 0, nh] @ xs"
  let ?parts = "\<lambda>p. [src, dst, be_bytes 4 (of_nat (length p) :: u32), [0, 0, 0, nh], p]"
  have "ones_complement_sum_parts (?parts (xs @ be_bytes 2 (checksum_parts (?parts (xs @ [0, 0] @ ys))) @ ys)) = 0xffff"
    by (rule sum_with_checksum_parts[where xs = ?pre and ys = ys and zeroed = "?parts (xs @ [0, 0] @ ys)"])
       (use assms in simp_all)
  then show ?thesis
    unfolding icmpv6_checksum_def checksum_parts_def[of "_ # _"] by simp
qed

end
