(* ===== verification/Ip.thy ===== *)
theory Ip
  imports Addr Checksum
begin

text \<open>
  Validation of tunnelled IP datagrams, \<open>src/ip.rs\<close>: the multicast datagram parser for
  both families, the groups a relay forwards, and the two Router Alert option walks.
  The walks are compared with the option grammars they implement.
\<close>

section \<open>Multicast datagrams\<close>

record multicast_packet =
  mp_source :: ip_addr
  mp_group :: ip_addr
  mp_ip_protocol :: u8
  mp_datagram_len :: nat
  mp_fragmented :: bool

datatype ip_packet_error =
    IpTruncated
  | IpUnsupportedVersion u8
  | IpInvalidHeader
  | IpInvalidLength
  | IpInvalidChecksum
  | IpInvalidSource ip_addr
  | IpNonMulticastDestination ip_addr

definition IPV4_MIN_HEADER_LEN :: nat where "IPV4_MIN_HEADER_LEN = 20"
definition IPV6_HEADER_LEN :: nat where "IPV6_HEADER_LEN = 40"
definition IPV4_FRAGMENT_OFFSET_MASK :: u16 where "IPV4_FRAGMENT_OFFSET_MASK = 0x1fff"
definition IPV4_MORE_FRAGMENTS :: u16 where "IPV4_MORE_FRAGMENTS = 0x2000"

lemmas ip_consts = IPV4_MIN_HEADER_LEN_def IPV6_HEADER_LEN_def
  IPV4_FRAGMENT_OFFSET_MASK_def IPV4_MORE_FRAGMENTS_def

definition validate_addresses :: "ip_addr \<Rightarrow> ip_addr \<Rightarrow> (ip_packet_error, unit) res" where
  "validate_addresses source grp =
     (let invalid_source = (case source of
          V4 s \<Rightarrow> ipv4_is_unspecified s \<or> ipv4_is_multicast s \<or> ipv4_is_broadcast s
        | V6 s \<Rightarrow> ipv6_is_unspecified s \<or> ipv6_is_multicast s)
      in if invalid_source then Err (IpInvalidSource source)
         else if \<not> is_multicast grp then Err (IpNonMulticastDestination grp)
         else Ok ())"

text \<open>The header length field of an IPv4 packet, in bytes.\<close>

definition ihl_of :: "u8 \<Rightarrow> nat" where
  "ihl_of b = unat (b AND 0x0f) * 4"

definition parse_ipv4 :: "bytes \<Rightarrow> (ip_packet_error, multicast_packet) res" where
  "parse_ipv4 d =
     (if length d < IPV4_MIN_HEADER_LEN then Err IpTruncated else
      bnd (byte_at d 0) (\<lambda>b0. let ihl = ihl_of b0 in
      if ihl < IPV4_MIN_HEADER_LEN \<or> length d < ihl then Err IpInvalidHeader else
      bnd (be16_at d 2) (\<lambda>l16. let total_len = unat l16 in
      if total_len < ihl \<or> total_len \<noteq> length d then Err IpInvalidLength else
      bnd (slice d 0 ihl) (\<lambda>hdr.
      if ones_complement_sum hdr \<noteq> 0xffff then Err IpInvalidChecksum else
      bnd (slice d 12 16) (\<lambda>s. let source = V4 (from_be s) in
      bnd (slice d 16 20) (\<lambda>g. let grp = V4 (from_be g) in
      bnd (validate_addresses source grp) (\<lambda>_.
      bnd (be16_at d 6) (\<lambda>fragment.
      bnd (byte_at d 9) (\<lambda>proto.
      Ok \<lparr>mp_source = source, mp_group = grp, mp_ip_protocol = proto,
          mp_datagram_len = total_len,
          mp_fragmented =
            (fragment AND (IPV4_MORE_FRAGMENTS OR IPV4_FRAGMENT_OFFSET_MASK) \<noteq> 0)\<rparr>)))))))))"

definition parse_ipv6 :: "bytes \<Rightarrow> (ip_packet_error, multicast_packet) res" where
  "parse_ipv6 d =
     (if length d < IPV6_HEADER_LEN then Err IpTruncated else
      bnd (be16_at d 4) (\<lambda>l16. let payload_len = unat l16 in
      bnd (ok_or (checked_add_usize IPV6_HEADER_LEN payload_len) IpInvalidLength) (\<lambda>total_len.
      if total_len \<noteq> length d then Err IpInvalidLength else
      bnd (slice d 8 24) (\<lambda>s. let source = V6 (from_be s) in
      bnd (slice d 24 40) (\<lambda>g. let grp = V6 (from_be g) in
      bnd (validate_addresses source grp) (\<lambda>_.
      bnd (byte_at d 6) (\<lambda>next_header.
      Ok \<lparr>mp_source = source, mp_group = grp, mp_ip_protocol = next_header,
          mp_datagram_len = total_len, mp_fragmented = (next_header = 44)\<rparr>)))))))"

definition parse_multicast_packet :: "bytes \<Rightarrow> (ip_packet_error, multicast_packet) res" where
  "parse_multicast_packet d =
     bnd (ok_or (get_byte d 0) IpTruncated) (\<lambda>b. let version = drop_bit 4 b in
     if version = 4 then parse_ipv4 d
     else if version = 6 then parse_ipv6 d
     else Err (IpUnsupportedVersion version))"

fun is_amt_forwardable_group :: "ip_addr \<Rightarrow> bool" where
  "is_amt_forwardable_group (V4 grp) =
     (ipv4_is_multicast grp \<and> take 3 (octets4 grp) \<noteq> [224, 0, 0])"
| "is_amt_forwardable_group (V6 grp) =
     (let scope = ipv6_segment0 grp AND 0x000f
      in ipv6_is_multicast grp \<and> 3 \<le> scope \<and> scope < 15)"

section \<open>Router Alert options\<close>

function router_alert4_from :: "bytes \<Rightarrow> nat \<Rightarrow> ('e, bool) res" where
  "router_alert4_from options offset =
     (if offset < length options then
        bnd (byte_at options offset) (\<lambda>kind.
        if kind = 0 then Ok False
        else if kind = 1 then router_alert4_from options (offset + 1)
        else (case get_byte options (offset + 1) of
            None \<Rightarrow> Ok False
          | Some l \<Rightarrow> let len = unat l in
              if len < 2 \<or> length options < offset + len then Ok False
              else bnd (if kind = 0x94 \<and> len = 4
                        then bnd (slice options (offset + 2) (offset + 4)) (\<lambda>v. Ok (v = [0, 0]))
                        else Ok False) (\<lambda>found.
                   if found then Ok True else router_alert4_from options (offset + len))))
      else Ok False)"
  by pat_completeness auto
termination
  by (relation "measure (\<lambda>(options, offset). length options - offset)") auto

definition has_ipv4_router_alert :: "bytes \<Rightarrow> ('e, bool) res" where
  "has_ipv4_router_alert options = router_alert4_from options 0"

function router_alert6_from :: "bytes \<Rightarrow> nat \<Rightarrow> ('e, bool) res" where
  "router_alert6_from options offset =
     (if offset < length options then
        bnd (byte_at options offset) (\<lambda>kind.
        if kind = 0 then router_alert6_from options (offset + 1)
        else (case get_byte options (offset + 1) of
            None \<Rightarrow> Ok False
          | Some l \<Rightarrow> let option_end = offset + 2 + unat l in
              if length options < option_end then Ok False
              else bnd (if kind = 5 \<and> l = 2
                        then bnd (slice options (offset + 2) option_end) (\<lambda>v. Ok (v = [0, 0]))
                        else Ok False) (\<lambda>found.
                   if found then Ok True else router_alert6_from options option_end)))
      else Ok False)"
  by pat_completeness auto
termination
  by (relation "measure (\<lambda>(options, offset). length options - offset)") auto

definition has_ipv6_router_alert :: "bytes \<Rightarrow> ('e, bool) res" where
  "has_ipv6_router_alert options = router_alert6_from options 0"

declare router_alert4_from.simps [simp del] router_alert6_from.simps [simp del]

text \<open>The grammars: padding options are one byte, every other option carries its length;
  an end-of-list option (IPv4) ends the list.\<close>

inductive router_alert4 :: "bytes \<Rightarrow> bool" where
  alert4: "router_alert4 (0x94 # 4 # 0 # 0 # rest)"
| nop4: "router_alert4 rest \<Longrightarrow> router_alert4 (1 # rest)"
| skip4: "kind \<notin> {0, 1} \<Longrightarrow> 2 \<le> unat len \<Longrightarrow> length body = unat len - 2 \<Longrightarrow>
    router_alert4 rest \<Longrightarrow> router_alert4 (kind # len # body @ rest)"

inductive router_alert6 :: "bytes \<Rightarrow> bool" where
  alert6: "router_alert6 (5 # 2 # 0 # 0 # rest)"
| pad6: "router_alert6 rest \<Longrightarrow> router_alert6 (0 # rest)"
| skip6: "kind \<noteq> 0 \<Longrightarrow> length body = unat len \<Longrightarrow>
    router_alert6 rest \<Longrightarrow> router_alert6 (kind # len # body @ rest)"

inductive_cases router_alert4_NilE: "router_alert4 []"
inductive_cases router_alert4_ConsE: "router_alert4 (k # xs)"
inductive_cases router_alert6_NilE: "router_alert6 []"
inductive_cases router_alert6_ConsE: "router_alert6 (k # xs)"

lemma router_alert4_simps:
  "\<not> router_alert4 []" "\<not> router_alert4 (0 # xs)" "k \<noteq> 1 \<Longrightarrow> \<not> router_alert4 [k]"
  "router_alert4 (1 # xs) \<longleftrightarrow> router_alert4 xs"
  by (auto elim: router_alert4_NilE router_alert4_ConsE intro: router_alert4.intros)

lemma router_alert4_tlv:
  assumes "k \<notin> {0, 1}"
  shows "router_alert4 (k # l # xs) \<longleftrightarrow>
    2 \<le> unat l \<and> unat l - 2 \<le> length xs \<and>
    ((k = 0x94 \<and> unat l = 4 \<and> take 2 xs = [0, 0]) \<or> router_alert4 (drop (unat l - 2) xs))"
proof
  assume "router_alert4 (k # l # xs)"
  then show "2 \<le> unat l \<and> unat l - 2 \<le> length xs \<and>
    ((k = 0x94 \<and> unat l = 4 \<and> take 2 xs = [0, 0]) \<or> router_alert4 (drop (unat l - 2) xs))"
    by (rule router_alert4_ConsE) (use assms in auto)
next
  assume r: "2 \<le> unat l \<and> unat l - 2 \<le> length xs \<and>
    ((k = 0x94 \<and> unat l = 4 \<and> take 2 xs = [0, 0]) \<or> router_alert4 (drop (unat l - 2) xs))"
  show "router_alert4 (k # l # xs)"
  proof (cases "k = 0x94 \<and> unat l = 4 \<and> take 2 xs = [0, 0]")
    case True
    then have "l = 4" by (auto dest: word_of_unat)
    moreover obtain rest where "xs = 0 # 0 # rest"
      using True by (cases xs; cases "tl xs") auto
    ultimately show ?thesis using True by (simp add: alert4)
  next
    case False
    with r assms show ?thesis
      using skip4[of k l "take (unat l - 2) xs" "drop (unat l - 2) xs"] by auto
  qed
qed

lemma router_alert6_simps:
  "\<not> router_alert6 []" "k \<noteq> 0 \<Longrightarrow> \<not> router_alert6 [k]"
  "router_alert6 (0 # xs) \<longleftrightarrow> router_alert6 xs"
  by (auto elim: router_alert6_NilE router_alert6_ConsE intro: router_alert6.intros)

lemma router_alert6_tlv:
  assumes "k \<noteq> 0"
  shows "router_alert6 (k # l # xs) \<longleftrightarrow>
    unat l \<le> length xs \<and>
    ((k = 5 \<and> l = 2 \<and> take 2 xs = [0, 0]) \<or> router_alert6 (drop (unat l) xs))"
proof
  assume "router_alert6 (k # l # xs)"
  then show "unat l \<le> length xs \<and>
    ((k = 5 \<and> l = 2 \<and> take 2 xs = [0, 0]) \<or> router_alert6 (drop (unat l) xs))"
    by (rule router_alert6_ConsE) (use assms in auto)
next
  assume r: "unat l \<le> length xs \<and>
    ((k = 5 \<and> l = 2 \<and> take 2 xs = [0, 0]) \<or> router_alert6 (drop (unat l) xs))"
  show "router_alert6 (k # l # xs)"
  proof (cases "k = 5 \<and> l = 2 \<and> take 2 xs = [0, 0]")
    case True
    then obtain rest where "xs = 0 # 0 # rest"
      by (cases xs; cases "tl xs") auto
    with True show ?thesis by (simp add: alert6)
  next
    case False
    with r assms show ?thesis
      using skip6[of k "take (unat l) xs" l "drop (unat l) xs"] by auto
  qed
qed

lemma drop_two: "n < length xs \<Longrightarrow> n + 1 < length xs \<Longrightarrow> drop n xs = xs ! n # xs ! (n + 1) # drop (n + 2) xs"
  by (metis Cons_nth_drop_Suc Suc_eq_plus1 add_2_eq_Suc')

lemma drop_one: "n < length xs \<Longrightarrow> \<not> n + 1 < length xs \<Longrightarrow> drop n xs = [xs ! n]"
  by (metis Cons_nth_drop_Suc Suc_eq_plus1 drop_all not_less)

lemma router_alert4_from_correct:
  "(router_alert4_from options offset :: ('e, bool) res) =
     Ok (router_alert4 (drop offset options))"
proof (induction "length options - offset" arbitrary: offset rule: less_induct)
  case less
  let ?k = "options ! offset"
  show ?case
  proof (cases "offset < length options")
    case False
    then show ?thesis by (simp add: router_alert4_from.simps router_alert4_simps)
  next
    case off: True
    have IH: "(router_alert4_from options (offset + n) :: ('e, bool) res) =
        Ok (router_alert4 (drop (offset + n) options))"
      if "0 < n" for n using less off that by simp
    have hd: "drop offset options = ?k # drop (offset + 1) options"
      using off by (simp add: Cons_nth_drop_Suc)
    consider "?k = 0" | "?k = 1" | "?k \<notin> {0, 1}" "\<not> offset + 1 < length options"
      | (tlv) "?k \<notin> {0, 1}" "offset + 1 < length options" by blast
    then show ?thesis
    proof cases
      case tlv
      define l where "l = options ! (offset + 1)"
      have d: "drop offset options = ?k # l # drop (offset + 2) options"
        using off tlv by (simp add: drop_two l_def)
      have tl: "drop (unat l - 2) (drop (offset + 2) options) = drop (offset + unat l) options"
        if "2 \<le> unat l" using le_Suc_ex[OF that] by (auto simp: add.commute)
      have spec: "router_alert4 (drop offset options) \<longleftrightarrow>
          2 \<le> unat l \<and> offset + unat l \<le> length options \<and>
          ((?k = 0x94 \<and> unat l = 4 \<and> take 2 (drop (offset + 2) options) = [0, 0]) \<or>
            router_alert4 (drop (offset + unat l) options))"
        unfolding d router_alert4_tlv[OF tlv(1)] using tlv(2) tl by auto
      have get: "get_byte options (offset + 1) = Some l"
        using tlv by (simp add: get_byte_def l_def)
      show ?thesis
        unfolding router_alert4_from.simps[of options offset] get spec
        using off tlv(1) IH[of "unat l"] by (auto simp: byte_at_ok slice_ok Let_def)
    qed (use IH[of 1] off in \<open>simp_all add: router_alert4_from.simps[of options offset]
        byte_at_ok hd router_alert4_simps get_byte_def\<close>)
  qed
qed

lemma router_alert6_from_correct:
  "(router_alert6_from options offset :: ('e, bool) res) =
     Ok (router_alert6 (drop offset options))"
proof (induction "length options - offset" arbitrary: offset rule: less_induct)
  case less
  let ?k = "options ! offset"
  show ?case
  proof (cases "offset < length options")
    case False
    then show ?thesis by (simp add: router_alert6_from.simps router_alert6_simps)
  next
    case off: True
    have IH: "(router_alert6_from options (offset + n) :: ('e, bool) res) =
        Ok (router_alert6 (drop (offset + n) options))"
      if "0 < n" for n using less off that by simp
    have hd: "drop offset options = ?k # drop (offset + 1) options"
      using off by (simp add: Cons_nth_drop_Suc)
    consider "?k = 0" | "?k \<noteq> 0" "\<not> offset + 1 < length options"
      | (tlv) "?k \<noteq> 0" "offset + 1 < length options" by blast
    then show ?thesis
    proof cases
      case tlv
      define l where "l = options ! (offset + 1)"
      have d: "drop offset options = ?k # l # drop (offset + 2) options"
        using off tlv by (simp add: drop_two l_def)
      have spec: "router_alert6 (drop offset options) \<longleftrightarrow>
          offset + 2 + unat l \<le> length options \<and>
          ((?k = 5 \<and> l = 2 \<and> take 2 (drop (offset + 2) options) = [0, 0]) \<or>
            router_alert6 (drop (offset + 2 + unat l) options))"
        unfolding d router_alert6_tlv[OF tlv(1)] using tlv(2) by (auto simp: add.commute)
      have get: "get_byte options (offset + 1) = Some l"
        using tlv by (simp add: get_byte_def l_def)
      have IH': "(router_alert6_from options (offset + 2 + n) :: ('e, bool) res) =
          Ok (router_alert6 (drop (offset + 2 + n) options))" for n
        using IH[of "2 + n"] by (simp add: add.assoc)
      show ?thesis
        unfolding router_alert6_from.simps[of options offset] get spec
        using off tlv(1) IH'[of "unat l"] by (auto simp: byte_at_ok slice_ok Let_def)
    qed (use IH[of 1] off in \<open>simp_all add: router_alert6_from.simps[of options offset]
        byte_at_ok hd router_alert6_simps get_byte_def\<close>)
  qed
qed

corollary has_ipv4_router_alert_correct:
  "has_ipv4_router_alert options = Ok (router_alert4 options)"
  by (simp add: has_ipv4_router_alert_def router_alert4_from_correct)

corollary has_ipv6_router_alert_correct:
  "has_ipv6_router_alert options = Ok (router_alert6 options)"
  by (simp add: has_ipv6_router_alert_def router_alert6_from_correct)

section \<open>What the datagram parser accepts\<close>

lemma validate_addresses_eq:
  "validate_addresses source grp =
     (if \<not> is_usable_unicast source then Err (IpInvalidSource source)
      else if \<not> is_multicast grp then Err (IpNonMulticastDestination grp) else Ok ())"
  by (cases source) (auto simp: validate_addresses_def)

lemma no_panic_validate_addresses [simp]: "no_panic (validate_addresses source grp)"
  by (simp add: validate_addresses_eq)

lemma no_panic_parse_multicast_packet: "no_panic (parse_multicast_packet d)"
proof -
  have "no_panic (parse_ipv4 d)"
    unfolding parse_ipv4_def ip_consts Let_def
    by (auto simp: slice_simps intro!: no_panic_bnd)
  moreover have "no_panic (parse_ipv6 d)"
    unfolding parse_ipv6_def ip_consts Let_def
    by (auto simp: slice_simps intro!: no_panic_bnd)
  ultimately show ?thesis
    unfolding parse_multicast_packet_def Let_def by (auto intro!: no_panic_bnd)
qed

lemma parse_ipv4_Ok:
  "parse_ipv4 d = Ok p \<longleftrightarrow>
     (let ihl = ihl_of (d ! 0); source = V4 (from_be (take 4 (drop 12 d)));
          grp = V4 (from_be (take 4 (drop 16 d)))
      in 20 \<le> ihl \<and> ihl \<le> length d \<and> unat (from_be [d ! 2, d ! 3] :: u16) = length d \<and>
         ones_complement_sum (take ihl d) = 0xffff \<and>
         is_usable_unicast source \<and> is_multicast grp \<and>
         p = \<lparr>mp_source = source, mp_group = grp, mp_ip_protocol = d ! 9,
              mp_datagram_len = length d,
              mp_fragmented = ((from_be [d ! 6, d ! 7] :: u16) AND 0x3fff \<noteq> 0)\<rparr>)"
  by (auto simp: parse_ipv4_def ip_consts Let_def slice_simps validate_addresses_eq)

lemma parse_ipv6_Ok:
  "parse_ipv6 d = Ok p \<longleftrightarrow>
     (let source = V6 (from_be (take 16 (drop 8 d))); grp = V6 (from_be (take 16 (drop 24 d)))
      in 40 \<le> length d \<and> 40 + unat (from_be [d ! 4, d ! 5] :: u16) = length d \<and>
         is_usable_unicast source \<and> is_multicast grp \<and>
         p = \<lparr>mp_source = source, mp_group = grp, mp_ip_protocol = d ! 6,
              mp_datagram_len = length d, mp_fragmented = (d ! 6 = 44)\<rparr>)"
proof -
  have "checked_add_usize 40 (unat (w :: u16)) = Some (40 + unat w)" for w
    using unat_u16_less[of w] by (simp add: checked_add_usize_def)
  then show ?thesis
    by (auto simp: parse_ipv6_def ip_consts Let_def slice_simps validate_addresses_eq)
qed

lemma parse_multicast_packet_Ok:
  "parse_multicast_packet d = Ok p \<longleftrightarrow>
     d \<noteq> [] \<and> (drop_bit 4 (d ! 0) = 4 \<and> parse_ipv4 d = Ok p \<or>
               drop_bit 4 (d ! 0) = 6 \<and> parse_ipv6 d = Ok p)"
  by (cases d) (auto simp: parse_multicast_packet_def Let_def)

lemma parse_multicast_packet_sound_raw:
  assumes "parse_multicast_packet d = Ok p"
  shows "is_usable_unicast (mp_source p)" and "is_multicast (mp_group p)"
    and "same_family (mp_source p) (mp_group p)" and "mp_datagram_len p = length d"
    and "is_v4 (mp_source p) \<longleftrightarrow> drop_bit 4 (d ! 0) = 4"
    and "is_v4 (mp_source p) \<Longrightarrow> ones_complement_sum (take (ihl_of (d ! 0)) d) = 0xffff"
  using assms
  by (auto simp: parse_multicast_packet_Ok parse_ipv4_Ok parse_ipv6_Ok Let_def)

section \<open>Properties of the datagram parser\<close>

text \<open>Both Router Alert walks terminate without panicking on any option bytes and find the
  option exactly when the option grammar contains it.\<close>

lemma router_alert_walks:
  "has_ipv4_router_alert options = Ok (router_alert4 options) \<and>
   has_ipv6_router_alert options = Ok (router_alert6 options)"
  by (simp add: has_ipv4_router_alert_correct has_ipv6_router_alert_correct)

text \<open>C20: the inner-datagram parser never panics on any bytes; what it accepts has a usable
  unicast source, a multicast group of the same family, the exact length of the buffer and,
  for IPv4, a valid header checksum.\<close>

theorem parse_multicast_packet_sound:
  "no_panic (parse_multicast_packet d) \<and>
   (case parse_multicast_packet d of
      Ok p \<Rightarrow> is_usable_unicast (mp_source p) \<and> is_multicast (mp_group p) \<and>
        same_family (mp_source p) (mp_group p) \<and> mp_datagram_len p = length d \<and>
        (drop_bit 4 (d ! 0) = 6 \<or>
         drop_bit 4 (d ! 0) = 4 \<and> ones_complement_sum (take (ihl_of (d ! 0)) d) = 0xffff)
    | _ \<Rightarrow> True)"
proof (cases "parse_multicast_packet d")
  case (Ok p)
  note s = parse_multicast_packet_sound_raw[OF Ok]
  have "drop_bit 4 (d ! 0) = 6 \<or> drop_bit 4 (d ! 0) = 4" using Ok by (auto simp: parse_multicast_packet_Ok)
  with s Ok show ?thesis by auto
next
  case Panic
  then show ?thesis using no_panic_parse_multicast_packet[of d] by simp
qed simp

end
