(* ===== verification/Ecn.thy ===== *)
theory Ecn
  imports Ip
begin

text \<open>
  ECN propagation across the tunnel, \<open>src/ecn.rs\<close> (RFC 9601 and RFC 6040): reading the
  ECN field of an IP packet, the decapsulation table of RFC 6040 Figure 4, and the
  in-place rewrite of the inner packet with its IPv4 checksum repair.
\<close>

section \<open>Codepoints\<close>

datatype ecn_codepoint = NotEct | Ect1 | Ect0 | Ce

definition ecn_from_bits :: "u8 \<Rightarrow> ecn_codepoint" where
  "ecn_from_bits b =
     (let v = b AND 3 in if v = 1 then Ect1 else if v = 2 then Ect0 else if v = 3 then Ce else NotEct)"

fun ecn_bits :: "ecn_codepoint \<Rightarrow> u8" where
  "ecn_bits NotEct = 0"
| "ecn_bits Ect1 = 1"
| "ecn_bits Ect0 = 2"
| "ecn_bits Ce = 3"

record ecn_decapsulation =
  ed_inner :: ecn_codepoint
  ed_outer :: ecn_codepoint
  ed_output :: "ecn_codepoint option"
  ed_currently_unused :: bool

definition ecn_is_drop :: "ecn_decapsulation \<Rightarrow> bool" where
  "ecn_is_drop d = (ed_output d = None)"

definition ecn_changed :: "ecn_decapsulation \<Rightarrow> bool" where
  "ecn_changed d = (case ed_output d of Some out \<Rightarrow> ecn_bits out \<noteq> ecn_bits (ed_inner d) | None \<Rightarrow> False)"

definition ecn_propagated_ce :: "ecn_decapsulation \<Rightarrow> bool" where
  "ecn_propagated_ce d = (ed_output d = Some Ce \<and> ecn_bits (ed_inner d) \<noteq> ecn_bits Ce)"

datatype ecn_error = EcnTruncated | EcnUnsupportedVersion u8 | EcnInvalidHeader | EcnInvalidLength

section \<open>Reading and rewriting the ECN field\<close>

definition ecn_validate_ipv4 :: "bytes \<Rightarrow> (ecn_error, nat) res" where
  "ecn_validate_ipv4 p =
     (if length p < IPV4_MIN_HEADER_LEN then Err EcnTruncated else
      bnd (byte_at p 0) (\<lambda>b0. let header_len = ihl_of b0 in
      if header_len < IPV4_MIN_HEADER_LEN \<or> length p < header_len then Err EcnInvalidHeader else
      bnd (be16_at p 2) (\<lambda>l16. let total_len = unat l16 in
      if total_len < header_len \<or> total_len \<noteq> length p then Err EcnInvalidLength
      else Ok header_len)))"

definition ecn_validate_ipv6 :: "bytes \<Rightarrow> (ecn_error, unit) res" where
  "ecn_validate_ipv6 p =
     (if length p < IPV6_HEADER_LEN then Err EcnTruncated else
      bnd (be16_at p 4) (\<lambda>l16. let payload_len = unat l16 in
      bnd (ok_or (checked_add_usize IPV6_HEADER_LEN payload_len) EcnInvalidLength) (\<lambda>total_len.
      if total_len \<noteq> length p then Err EcnInvalidLength else Ok ())))"

definition ip_ecn :: "bytes \<Rightarrow> (ecn_error, ecn_codepoint) res" where
  "ip_ecn p =
     bnd (ok_or (get_byte p 0) EcnTruncated) (\<lambda>b. let version = drop_bit 4 b in
     if version = 4 then
       bnd (ecn_validate_ipv4 p) (\<lambda>_. bnd (byte_at p 1) (\<lambda>b1. Ok (ecn_from_bits b1)))
     else if version = 6 then
       bnd (ecn_validate_ipv6 p) (\<lambda>_. bnd (byte_at p 1) (\<lambda>b1. Ok (ecn_from_bits (drop_bit 4 b1))))
     else Err (EcnUnsupportedVersion version))"

fun decapsulation_result :: "ecn_codepoint \<Rightarrow> ecn_codepoint \<Rightarrow> ecn_codepoint option \<times> bool" where
  "decapsulation_result NotEct Ce = (None, True)"
| "decapsulation_result NotEct NotEct = (Some NotEct, False)"
| "decapsulation_result NotEct Ect0 = (Some NotEct, True)"
| "decapsulation_result NotEct Ect1 = (Some NotEct, True)"
| "decapsulation_result Ect0 NotEct = (Some Ect0, False)"
| "decapsulation_result Ect0 Ect0 = (Some Ect0, False)"
| "decapsulation_result Ect0 Ect1 = (Some Ect1, False)"
| "decapsulation_result Ect0 Ce = (Some Ce, False)"
| "decapsulation_result Ect1 NotEct = (Some Ect1, False)"
| "decapsulation_result Ect1 Ect1 = (Some Ect1, False)"
| "decapsulation_result Ect1 Ect0 = (Some Ect1, True)"
| "decapsulation_result Ect1 Ce = (Some Ce, False)"
| "decapsulation_result Ce Ect1 = (Some Ce, True)"
| "decapsulation_result Ce NotEct = (Some Ce, False)"
| "decapsulation_result Ce Ect0 = (Some Ce, False)"
| "decapsulation_result Ce Ce = (Some Ce, False)"

definition set_ip_ecn :: "bytes \<Rightarrow> ecn_codepoint \<Rightarrow> (ecn_error, bytes) res" where
  "set_ip_ecn p ecn =
     bnd (ok_or (get_byte p 0) EcnTruncated) (\<lambda>b. let version = drop_bit 4 b in
     if version = 4 then
       bnd (ecn_validate_ipv4 p) (\<lambda>header_len.
       bnd (byte_at p 1) (\<lambda>b1.
       bnd (set_byte p 1 ((b1 AND NOT 3) OR ecn_bits ecn)) (\<lambda>p.
       bnd (copy_from_slice p 10 12 [0, 0]) (\<lambda>p.
       bnd (slice p 0 header_len) (\<lambda>hdr.
       copy_from_slice p 10 12 (be_bytes 2 (checksum hdr)))))))
     else if version = 6 then
       bnd (ecn_validate_ipv6 p) (\<lambda>_.
       bnd (byte_at p 1) (\<lambda>b1.
       set_byte p 1 ((b1 AND NOT 0x30) OR push_bit 4 (ecn_bits ecn))))
     else Err (EcnUnsupportedVersion version))"

text \<open>The packet is rewritten in place: the model returns it beside the result.\<close>

definition decapsulate_ecn ::
  "bytes \<Rightarrow> ecn_codepoint \<Rightarrow> (ecn_error, bytes \<times> ecn_decapsulation) res" where
  "decapsulate_ecn packet outer =
     bnd (ip_ecn packet) (\<lambda>inner.
     case decapsulation_result inner outer of (out, currently_unused) \<Rightarrow>
     let result = \<lparr>ed_inner = inner, ed_outer = outer, ed_output = out,
           ed_currently_unused = currently_unused\<rparr>
     in case out of
          Some output \<Rightarrow>
            if output \<noteq> inner then bnd (set_ip_ecn packet output) (\<lambda>packet. Ok (packet, result))
            else Ok (packet, result)
        | None \<Rightarrow> Ok (packet, result))"

section \<open>The decapsulation table\<close>

lemma ecn_from_bits_bits [simp]: "ecn_from_bits (ecn_bits c) = c"
  by (cases c) (simp_all add: ecn_from_bits_def)

lemma decapsulation_drop_iff:
  "fst (decapsulation_result inner outer) = None \<longleftrightarrow> inner = NotEct \<and> outer = Ce"
  by (cases inner; cases outer) simp_all

lemma decapsulation_ce:
  "fst (decapsulation_result inner outer) = Some Ce \<longleftrightarrow> inner = Ce \<or> (outer = Ce \<and> inner \<noteq> NotEct)"
  by (cases inner; cases outer) simp_all

section \<open>Panic freedom and the rewritten packet\<close>

lemma no_panic_ecn_validate [simp]:
  "no_panic (ecn_validate_ipv4 p)" "no_panic (ecn_validate_ipv6 p)"
  unfolding ecn_validate_ipv4_def ecn_validate_ipv6_def ip_consts Let_def
  by (auto simp: slice_simps intro!: no_panic_bnd)

lemma ecn_validate_ipv4_Ok:
  "ecn_validate_ipv4 p = Ok n \<longleftrightarrow>
     n = ihl_of (p ! 0) \<and> 20 \<le> n \<and> n \<le> length p \<and> unat (from_be [p ! 2, p ! 3] :: u16) = length p"
  by (auto simp: ecn_validate_ipv4_def ip_consts Let_def slice_simps)

lemma ecn_validate_ipv6_Ok:
  "ecn_validate_ipv6 p = Ok u \<longleftrightarrow>
     40 \<le> length p \<and> 40 + unat (from_be [p ! 4, p ! 5] :: u16) = length p"
proof -
  have "checked_add_usize 40 (unat (w :: u16)) = Some (40 + unat w)" for w
    using unat_u16_less[of w] by (simp add: checked_add_usize_def)
  then show ?thesis
    by (auto simp: ecn_validate_ipv6_def ip_consts Let_def slice_simps)
qed

lemma ihl_of_le: "ihl_of b \<le> 60"
proof -
  have "unat (b AND 0x0f) \<le> unat (0x0f :: u8)"
    by (rule word_and_le1 [THEN word_le_nat_alt [THEN iffD1]])
  then show ?thesis by (simp add: ihl_of_def)
qed

lemma ecn_field_v4: "ecn_from_bits ((b AND NOT 3) OR ecn_bits e) = e"
proof -
  have "((b AND NOT 3) OR ecn_bits e) AND 3 = ecn_bits e AND 3"
    by (simp add: bit.conj_disj_distrib2 and.assoc)
  then show ?thesis
    by (cases e) (simp_all add: ecn_from_bits_def)
qed

lemma ecn_field_v6: "ecn_from_bits (drop_bit 4 ((b AND NOT 0x30) OR push_bit 4 (ecn_bits e))) = e"
proof -
  have "drop_bit 4 ((b AND NOT 0x30) OR push_bit 4 (ecn_bits e)) AND 3 = ecn_bits e AND 3"
    by (cases e) (simp_all add: bit.conj_disj_distrib2 and.assoc)
  then show ?thesis
    by (cases e) (simp_all add: ecn_from_bits_def)
qed

lemma set_ip_ecn_v4:
  assumes v: "ecn_validate_ipv4 p = Ok n" and "drop_bit 4 (p ! 0) = 4"
  obtains p' where "set_ip_ecn p e = Ok p'" "length p' = length p"
    "p' ! 1 = (p ! 1 AND NOT 3) OR ecn_bits e"
    "\<And>i. i \<notin> {1, 10, 11} \<Longrightarrow> p' ! i = p ! i"
    "ones_complement_sum (take n p') = 0xffff"
proof -
  define q where "q = p[1 := (p ! 1 AND NOT 3) OR ecn_bits e]"
  define p' where "p' = take 10 q @ be_bytes 2 (checksum (take n (take 10 q @ [0, 0] @ drop 12 q))) @ drop 12 q"
  have n: "20 \<le> n" "n \<le> length p" using v by (auto simp: ecn_validate_ipv4_Ok)
  then have len: "20 \<le> length p" "length q = length p" by (simp_all add: q_def)
  from len(1) have "p \<noteq> []" by auto
  then have "get_byte p 0 = Some (p ! 0)" by (simp add: get_byte_def)
  then have ok: "set_ip_ecn p e = Ok p'"
    using assms len n by (simp add: set_ip_ecn_def slice_simps p'_def q_def Let_def)
  have len': "length p' = length p" using len by (simp add: p'_def)
  have same: "p' ! i = q ! i" if "i \<notin> {10, 11}" for i
    using that len by (cases "i < 10") (auto simp: p'_def nth_append not_less)
  have "take n p' = take 10 q @ be_bytes 2 (checksum (take 10 q @ [0, 0] @ take (n - 12) (drop 12 q)))
      @ take (n - 12) (drop 12 q)"
    using n len le_Suc_ex[of 12 n] by (auto simp: p'_def min_absorb2)
  then have "ones_complement_sum (take n p') = 0xffff"
    using ones_complement_sum_with_checksum[of "take 10 q" "take (n - 12) (drop 12 q)"] len by simp
  with ok len' same len that[of p'] show thesis
    by (auto simp: q_def)
qed

lemma set_ip_ecn_v6:
  assumes v: "ecn_validate_ipv6 p = Ok ()" and "drop_bit 4 (p ! 0) = 6"
  obtains p' where "set_ip_ecn p e = Ok p'" "length p' = length p"
    "p' ! 1 = (p ! 1 AND NOT 0x30) OR push_bit 4 (ecn_bits e)"
    "\<And>i. i \<noteq> 1 \<Longrightarrow> p' ! i = p ! i"
proof -
  have len: "40 \<le> length p" using v by (simp add: ecn_validate_ipv6_Ok)
  then have "p \<noteq> []" by auto
  then have "get_byte p 0 = Some (p ! 0)" by (simp add: get_byte_def)
  with assms len have "set_ip_ecn p e = Ok (p[1 := (p ! 1 AND NOT 0x30) OR push_bit 4 (ecn_bits e)])"
    by (simp add: set_ip_ecn_def slice_simps Let_def)
  with len that show thesis by simp
qed

lemma ip_ecn_Ok_v4:
  "drop_bit 4 (p ! 0) = 4 \<Longrightarrow> ecn_validate_ipv4 p = Ok n \<Longrightarrow> ip_ecn p = Ok (ecn_from_bits (p ! 1))"
proof -
  assume v: "drop_bit 4 (p ! 0) = 4" "ecn_validate_ipv4 p = Ok n"
  then have len: "20 \<le> length p" by (simp add: ecn_validate_ipv4_Ok)
  then have "get_byte p 0 = Some (p ! 0)" by (simp add: get_byte_def) (use len in auto)
  with v len show ?thesis by (simp add: ip_ecn_def slice_simps)
qed

lemma ip_ecn_Ok_v6:
  "drop_bit 4 (p ! 0) = 6 \<Longrightarrow> ecn_validate_ipv6 p = Ok () \<Longrightarrow>
   ip_ecn p = Ok (ecn_from_bits (drop_bit 4 (p ! 1)))"
proof -
  assume v: "drop_bit 4 (p ! 0) = 6" "ecn_validate_ipv6 p = Ok ()"
  then have len: "40 \<le> length p" by (simp add: ecn_validate_ipv6_Ok)
  then have "get_byte p 0 = Some (p ! 0)" by (simp add: get_byte_def) (use len in auto)
  with v len show ?thesis by (simp add: ip_ecn_def slice_simps)
qed

lemma ip_ecn_cases:
  assumes "ip_ecn p = Ok inner"
  obtains (v4) n where "drop_bit 4 (p ! 0) = 4" "ecn_validate_ipv4 p = Ok n"
  | (v6) "drop_bit 4 (p ! 0) = 6" "ecn_validate_ipv6 p = Ok ()"
  using assms by (cases p) (auto simp: ip_ecn_def Let_def bnd_eq_Ok split: if_splits)

lemma no_panic_ip_ecn [simp]: "no_panic (ip_ecn p)"
  unfolding ip_ecn_def Let_def
  by (auto simp: slice_simps ecn_validate_ipv4_Ok ecn_validate_ipv6_Ok intro!: no_panic_bnd)

text \<open>Writing a codepoint into a packet whose header is well formed.\<close>

lemma set_ip_ecn_written:
  assumes "ip_ecn p = Ok inner"
  obtains p' where "set_ip_ecn p e = Ok p'" "ip_ecn p' = Ok e" "length p' = length p"
    "\<And>i. i \<notin> {1, 10, 11} \<Longrightarrow> p' ! i = p ! i"
    "drop_bit 4 (p ! 0) = 4 \<Longrightarrow> ones_complement_sum (take (ihl_of (p ! 0)) p') = 0xffff"
    "drop_bit 4 (p ! 0) \<noteq> 4 \<Longrightarrow> p' ! 10 = p ! 10 \<and> p' ! 11 = p ! 11"
  using assms
proof (cases rule: ip_ecn_cases)
  case (v4 n)
  obtain p' where p': "set_ip_ecn p e = Ok p'" "length p' = length p"
    "p' ! 1 = (p ! 1 AND NOT 3) OR ecn_bits e" "\<And>i. i \<notin> {1, 10, 11} \<Longrightarrow> p' ! i = p ! i"
    "ones_complement_sum (take n p') = 0xffff"
    using set_ip_ecn_v4[OF v4(2,1), of e] by blast
  from v4(2) p' have "ecn_validate_ipv4 p' = Ok n" by (simp add: ecn_validate_ipv4_Ok)
  then have "ip_ecn p' = Ok (ecn_from_bits (p' ! 1))"
    using v4 p' by (simp add: ip_ecn_Ok_v4)
  then have "ip_ecn p' = Ok e" by (simp only: p'(3) ecn_field_v4)
  with p' v4 show thesis by (intro that[of p']) (auto simp: ecn_validate_ipv4_Ok)
next
  case v6
  obtain p' where p': "set_ip_ecn p e = Ok p'" "length p' = length p"
    "p' ! 1 = (p ! 1 AND NOT 0x30) OR push_bit 4 (ecn_bits e)" "\<And>i. i \<noteq> 1 \<Longrightarrow> p' ! i = p ! i"
    using set_ip_ecn_v6[OF v6(2,1), of e] by blast
  from v6(2) p' have "ecn_validate_ipv6 p' = Ok ()" by (simp add: ecn_validate_ipv6_Ok)
  then have "ip_ecn p' = Ok (ecn_from_bits (drop_bit 4 (p' ! 1)))"
    using v6 p' by (simp add: ip_ecn_Ok_v6)
  then have "ip_ecn p' = Ok e" by (simp only: p'(3) ecn_field_v6)
  with p' v6 show thesis by (intro that[of p']) auto
qed

lemma decapsulate_ecn_cases:
  assumes "ip_ecn p = Ok inner"
  obtains (keep) r where "decapsulate_ecn p outer = Ok (p, r)" "ed_inner r = inner" "ed_outer r = outer"
      "ed_output r = fst (decapsulation_result inner outer)" "ed_output r \<in> {None, Some inner}"
  | (rewrite) p' r out where "decapsulate_ecn p outer = Ok (p', r)" "ed_inner r = inner"
      "ed_outer r = outer" "ed_output r = fst (decapsulation_result inner outer)"
      "ed_output r = Some out" "set_ip_ecn p out = Ok p'"
proof -
  obtain out unused where res: "decapsulation_result inner outer = (out, unused)" by fastforce
  show thesis
  proof (cases "out \<in> {None, Some inner}")
    case True
    then show thesis using assms res keep by (auto simp: decapsulate_ecn_def Let_def)
  next
    case False
    then obtain out' where out: "out = Some out'" "out' \<noteq> inner" by auto
    obtain p' where "set_ip_ecn p out' = Ok p'" using set_ip_ecn_written[OF assms] by blast
    with assms res out rewrite show thesis by (auto simp: decapsulate_ecn_def Let_def)
  qed
qed

lemma no_panic_decapsulate_ecn: "no_panic (decapsulate_ecn p outer)"
proof (cases "ip_ecn p")
  case (Ok inner)
  then show ?thesis by (cases rule: decapsulate_ecn_cases[of p inner outer]) simp_all
next
  case Panic
  then show ?thesis using no_panic_ip_ecn[of p] by simp
qed (simp add: decapsulate_ecn_def)

text \<open>A datagram the gateway accepted stays acceptable, with the same addresses, after
  its ECN field has been rewritten.\<close>

lemma parse_ipv4_ecn: "parse_ipv4 d = Ok m \<Longrightarrow> ecn_validate_ipv4 d = Ok (ihl_of (d ! 0))"
  by (auto simp: parse_ipv4_Ok ecn_validate_ipv4_Ok Let_def)

lemma parse_ipv6_ecn: "parse_ipv6 d = Ok m \<Longrightarrow> ecn_validate_ipv6 d = Ok ()"
  by (auto simp: parse_ipv6_Ok ecn_validate_ipv6_Ok Let_def)

lemma parse_multicast_packet_ecn:
  "parse_multicast_packet d = Ok m \<Longrightarrow> \<exists>inner. ip_ecn d = Ok inner"
  unfolding parse_multicast_packet_Ok
  by (auto dest: parse_ipv4_ecn parse_ipv6_ecn simp: ip_ecn_Ok_v4 ip_ecn_Ok_v6)

lemma take_drop_cong:
  assumes "length p' = length p" and "\<And>i. a \<le> i \<Longrightarrow> i < a + n \<Longrightarrow> p' ! i = p ! i"
  shows "take n (drop a p') = take n (drop a p)"
  using assms by (intro nth_equalityI) auto

lemma parse_after_set_ip_ecn:
  assumes "parse_multicast_packet d = Ok m" and "set_ip_ecn d e = Ok d'"
  shows "parse_multicast_packet d' = Ok m"
proof -
  obtain inner where "ip_ecn d = Ok inner" using parse_multicast_packet_ecn[OF assms(1)] by blast
  then obtain p' where p': "set_ip_ecn d e = Ok p'" "length p' = length d"
    "\<And>i. i \<notin> {1, 10, 11} \<Longrightarrow> p' ! i = d ! i"
    "drop_bit 4 (d ! 0) = 4 \<Longrightarrow> ones_complement_sum (take (ihl_of (d ! 0)) p') = 0xffff"
    "drop_bit 4 (d ! 0) \<noteq> 4 \<Longrightarrow> p' ! 10 = d ! 10 \<and> p' ! 11 = d ! 11"
    using set_ip_ecn_written[of d inner e] by blast
  have [simp]: "d' = p'" using p'(1) assms(2) by simp
  have "take 4 (drop 12 p') = take 4 (drop 12 d)" "take 4 (drop 16 p') = take 4 (drop 16 d)"
    "take 16 (drop 24 p') = take 16 (drop 24 d)"
    by (rule take_drop_cong; use p' in simp)+
  moreover have "take 16 (drop 8 p') = take 16 (drop 8 d)" if "drop_bit 4 (d ! 0) \<noteq> 4"
  proof (rule take_drop_cong[OF p'(2)])
    fix i :: nat assume "8 \<le> i" "i < 8 + 16"
    then show "p' ! i = d ! i" using p'(3)[of i] p'(5)[OF that] by (cases "i \<in> {10, 11}") auto
  qed
  moreover have "p' \<noteq> [] \<longleftrightarrow> d \<noteq> []" using p'(2) by (metis length_0_conv)
  ultimately show ?thesis
    using assms(1) p' by (auto simp: parse_multicast_packet_Ok parse_ipv4_Ok parse_ipv6_Ok Let_def)
qed

lemma decapsulate_ecn_raw:
  assumes "parse_multicast_packet d = Ok m"
  shows "\<exists>inner d' r. ip_ecn d = Ok inner \<and> decapsulate_ecn d outer = Ok (d', r) \<and>
    parse_multicast_packet d' = Ok m \<and> ed_inner r = inner \<and>
    ed_output r = fst (decapsulation_result inner outer) \<and>
    (case ed_output r of Some out \<Rightarrow> ip_ecn d' = Ok out | None \<Rightarrow> d' = d)"
proof -
  obtain inner where i: "ip_ecn d = Ok inner" using parse_multicast_packet_ecn[OF assms] by blast
  then show ?thesis
  proof (cases rule: decapsulate_ecn_cases[of d inner outer])
    case (keep r)
    then show ?thesis using i assms by auto
  next
    case (rewrite p' r out)
    obtain q where "set_ip_ecn d out = Ok q" "ip_ecn q = Ok out"
      using set_ip_ecn_written[OF i, of out] by blast
    with rewrite have "ip_ecn p' = Ok out" by simp
    moreover have "parse_multicast_packet p' = Ok m"
      by (rule parse_after_set_ip_ecn[OF assms rewrite(6)])
    moreover have "fst (decapsulation_result inner outer) = Some out" using rewrite by simp
    ultimately show ?thesis using rewrite(1-4) i
      by (intro exI[of _ inner] exI[of _ p'] exI[of _ r]) simp
  qed
qed

section \<open>Properties of ECN decapsulation\<close>


text \<open>An ECT(0) UDP datagram from 192.0.2.1 to 239.1.2.3, received in a CE-marked outer packet.\<close>

definition sample_ect0 :: bytes where
  "sample_ect0 = [0x45, 2, 0, 22, 0x12, 0x34, 0, 0, 16, 17, 0xe5, 0x9b, 192, 0, 2, 1, 239, 1, 2, 3, 7, 8]"

lemma parse_sample_ect0:
  "parse_multicast_packet sample_ect0 = Ok \<lparr>mp_source = V4 0xC0000201, mp_group = V4 0xEF010203,
     mp_ip_protocol = 17, mp_datagram_len = 22, mp_fragmented = False\<rparr>"
  by (simp add: parse_multicast_packet_Ok parse_ipv4_Ok Let_def sample_ect0_def ihl_of_def eval_simps)


text \<open>ECN decapsulation never panics, drops exactly a Not-ECT inner packet under a CE outer
  one, and hands on CE exactly when the inner packet had it or an ECN-capable inner packet was
  marked by the tunnel.\<close>

lemma decapsulation_table:
  "no_panic (decapsulate_ecn p outer) \<and>
   (fst (decapsulation_result inner outer) = None \<longleftrightarrow> inner = NotEct \<and> outer = Ce) \<and>
   (fst (decapsulation_result inner outer) = Some Ce \<longleftrightarrow> inner = Ce \<or> (outer = Ce \<and> inner \<noteq> NotEct))"
  by (simp add: no_panic_decapsulate_ecn decapsulation_drop_iff decapsulation_ce)

end
