(* ===== verification/Mtu.thy ===== *)
theory Mtu
  imports Ip
begin

text \<open>
  Inner IPv4 fragmentation before encapsulation, \<open>src/mtu.rs\<close>: the guards, the loop over
  payload chunks and the header of each fragment.  The lemmas show that the fragments
  fit the tunnel, reassemble to the original payload, and are valid datagrams.
\<close>

section \<open>The operation\<close>

definition IPV4_DF :: u16 where "IPV4_DF = 0x4000"
definition IPV4_MF :: u16 where "IPV4_MF = 0x2000"
definition IPV4_RESERVED :: u16 where "IPV4_RESERVED = 0x8000"
definition IPV4_OFFSET_MASK :: u16 where "IPV4_OFFSET_MASK = 0x1fff"

lemmas mtu_consts = IPV4_DF_def IPV4_MF_def IPV4_RESERVED_def IPV4_OFFSET_MASK_def

datatype ipv4_fragment_error = FragInvalidPacket | FragDontFragment | FragHeaderOptions
  | FragMtuTooSmall | FragOffsetOverflow

text \<open>\<open>(0..n).step_by(step)\<close>\<close>

definition step_by :: "nat \<Rightarrow> nat \<Rightarrow> nat list" where
  "step_by n step = map (\<lambda>i. i * step) [0..<(n + step - 1) div step]"

definition flags_offset_of :: "u16 \<Rightarrow> bool \<Rightarrow> nat \<Rightarrow> u16" where
  "flags_offset_of reserved more_fragments offset =
     reserved OR (of_bool more_fragments * IPV4_MF) OR of_nat offset"

text \<open>The loop body, for the chunk that starts at \<open>chunk_start\<close>.\<close>

definition fragment_chunk ::
  "bytes \<Rightarrow> nat \<Rightarrow> nat \<Rightarrow> u16 \<Rightarrow> nat \<Rightarrow> (ipv4_fragment_error, bytes) res" where
  "fragment_chunk packet header_len max_payload fragment_field chunk_start =
     bnd (slice_from packet header_len) (\<lambda>payload.
     let base_offset = unat (fragment_field AND IPV4_OFFSET_MASK);
         preserve_more_fragments = (fragment_field AND IPV4_MF \<noteq> 0);
         reserved = fragment_field AND IPV4_RESERVED;
         chunk_end = min (chunk_start + max_payload) (length payload)
     in
     bnd (slice payload chunk_start chunk_end) (\<lambda>chunk.
     bnd (ok_or (case checked_add_usize base_offset (chunk_start div 8) of
                   Some offset \<Rightarrow> if offset \<le> unat IPV4_OFFSET_MASK then Some offset else None
                 | None \<Rightarrow> None) FragOffsetOverflow) (\<lambda>offset.
     let more_fragments = (preserve_more_fragments \<or> chunk_end < length payload);
         fragment_len = header_len + length chunk
     in
     bnd (slice packet 0 header_len) (\<lambda>hdr.
     let fragment = hdr @ chunk in
     bnd (copy_from_slice fragment 2 4 (be_bytes 2 (of_nat fragment_len :: u16))) (\<lambda>fragment.
     bnd (copy_from_slice fragment 6 8
            (be_bytes 2 (flags_offset_of reserved more_fragments offset))) (\<lambda>fragment.
     bnd (copy_from_slice fragment 10 12 [0, 0]) (\<lambda>fragment.
     bnd (slice fragment 0 header_len) (\<lambda>hdr.
     copy_from_slice fragment 10 12 (be_bytes 2 (checksum hdr))))))))))"

definition fragment_ipv4_for_tunnel ::
  "bytes \<Rightarrow> nat \<Rightarrow> (ipv4_fragment_error, bytes list) res" where
  "fragment_ipv4_for_tunnel packet tunnel_mtu =
     (if length packet < IPV4_MIN_HEADER_LEN then Err FragInvalidPacket else
      bnd (byte_at packet 0) (\<lambda>b0.
      if drop_bit 4 b0 \<noteq> 4 then Err FragInvalidPacket else
      let header_len = ihl_of b0 in
      if header_len < IPV4_MIN_HEADER_LEN \<or> length packet < header_len then Err FragInvalidPacket else
      bnd (be16_at packet 2) (\<lambda>l16. let total_len = unat l16 in
      if total_len \<noteq> length packet \<or> total_len < header_len then Err FragInvalidPacket
      else if total_len \<le> tunnel_mtu then Ok [packet]
      else if header_len \<noteq> IPV4_MIN_HEADER_LEN then Err FragHeaderOptions else
      bnd (be16_at packet 6) (\<lambda>fragment_field.
      if fragment_field AND IPV4_DF \<noteq> 0 then Err FragDontFragment else
      bnd (ok_or (case checked_sub_usize tunnel_mtu header_len of
             Some sz \<Rightarrow> if 8 \<le> sz div 8 * 8 then Some (sz div 8 * 8) else None
           | None \<Rightarrow> None) FragMtuTooSmall) (\<lambda>max_payload.
      bnd (slice_from packet header_len) (\<lambda>payload.
      if payload = [] \<or> (fragment_field AND IPV4_MF \<noteq> 0 \<and> \<not> 8 dvd length payload)
      then Err FragInvalidPacket else
      let base_offset = unat (fragment_field AND IPV4_OFFSET_MASK) in
      bnd (ok_or (case checked_mul_usize base_offset 8 of
             Some offset \<Rightarrow> (case checked_add_usize offset (length payload) of
                 Some e \<Rightarrow> if e \<le> 65535 - header_len then Some e else None
               | None \<Rightarrow> None)
           | None \<Rightarrow> None) FragOffsetOverflow) (\<lambda>_.
      for_each (step_by (length payload) max_payload)
        (\<lambda>chunk_start fragments.
           bnd (fragment_chunk packet header_len max_payload fragment_field chunk_start)
             (\<lambda>fragment. Ok (fragments @ [fragment]))) [])))))))"

section \<open>Chunks\<close>

lemma step_by_unfold:
  assumes "0 < step"
  shows "step_by n step = (if n = 0 then [] else 0 # map (\<lambda>i. i + step) (step_by (n - step) step))"
proof (cases "n = 0")
  case True
  then show ?thesis using assms by (simp add: step_by_def)
next
  case False
  have "(n + step - 1) div step = Suc ((n - step + step - 1) div step)"
  proof (cases "step \<le> n")
    case True
    then show ?thesis using assms by (simp add: le_div_geq)
  next
    case F: False
    then have "(n + step - 1) div step = 1" using False assms
      by (intro div_nat_eqI) auto
    moreover have "(n - step + step - 1) div step = 0" using F assms by simp
    ultimately show ?thesis by simp
  qed
  then show ?thesis
    using False by (simp add: step_by_def upt_rec[of 0] map_Suc_upt[symmetric] comp_def ac_simps
        del: upt_Suc map_Suc_upt)
qed

text \<open>The chunks partition the payload.\<close>

lemma concat_chunks:
  assumes "0 < step"
  shows "concat (map (\<lambda>s. take step (drop s xs)) (step_by (length xs) step)) = xs"
proof (induction "length xs" arbitrary: xs rule: less_induct)
  case less
  show ?case
  proof (cases "xs = []")
    case True
    then show ?thesis by (simp add: step_by_unfold[OF assms])
  next
    case False
    then have "length (drop step xs) < length xs" using assms by simp
    from less[OF this] have
      "concat (map (\<lambda>s. take step (drop s (drop step xs))) (step_by (length xs - step) step)) = drop step xs"
      by simp
    then show ?thesis
      using False by (simp add: step_by_unfold[OF assms, of "length xs"] comp_def)
  qed
qed

lemma list_20:
  assumes "20 \<le> length xs"
  obtains b0 b1 b2 b3 b4 b5 b6 b7 b8 b9 b10 b11 b12 b13 b14 b15 b16 b17 b18 b19 ys where
    "xs = b0 # b1 # b2 # b3 # b4 # b5 # b6 # b7 # b8 # b9 # b10 # b11 # b12 # b13 # b14 # b15 # b16 # b17 # b18 # b19 # ys"
  using assms by (auto simp: Suc_le_length_iff numeral_eq_Suc)

section \<open>The fragment header\<close>

text \<open>The first ten bytes of a fragment and the fragment itself, in closed form.\<close>

definition frag_front :: "bytes \<Rightarrow> nat \<Rightarrow> u16 \<Rightarrow> bytes" where
  "frag_front packet len flags = take 2 packet @ be_bytes 2 (of_nat len :: u16) @
     take 2 (drop 4 packet) @ be_bytes 2 flags @ take 2 (drop 8 packet)"

definition frag_bytes :: "bytes \<Rightarrow> bytes \<Rightarrow> u16 \<Rightarrow> bytes" where
  "frag_bytes packet chunk flags =
     (let front = frag_front packet (20 + length chunk) flags; back = take 8 (drop 12 packet)
      in front @ be_bytes 2 (checksum (front @ [0, 0] @ back)) @ back @ chunk)"

lemma fragment_chunk_closed:
  assumes len: "20 \<le> length packet" and s: "chunk_start < length packet - 20"
    and field: "unat (field AND 0x1fff) * 8 + (length packet - 20) \<le> 65515" and "0 < mp"
  shows "fragment_chunk packet 20 mp field chunk_start =
    Ok (frag_bytes packet (take mp (drop chunk_start (drop 20 packet)))
      (flags_offset_of (field AND 0x8000)
         (field AND 0x2000 \<noteq> 0 \<or> chunk_start + mp < length packet - 20)
         (unat (field AND 0x1fff) + chunk_start div 8)))"
proof -
  obtain b0 b1 b2 b3 b4 b5 b6 b7 b8 b9 b10 b11 b12 b13 b14 b15 b16 b17 b18 b19 ys where
    p: "packet = b0 # b1 # b2 # b3 # b4 # b5 # b6 # b7 # b8 # b9 # b10 # b11 # b12 # b13 # b14 # b15 # b16 # b17 # b18 # b19 # ys"
    using list_20[OF len] by metis
  have off: "unat (field AND 0x1fff) + chunk_start div 8 \<le> 8191" using field s by auto
  have e: "min (chunk_start + mp) (length ys) - chunk_start = min mp (length ys - chunk_start)" by auto
  have t: "take (min mp (length ys - chunk_start)) (drop chunk_start ys) = take mp (drop chunk_start ys)"
    by (simp add: min_def)
  have lt: "min a n < n \<longleftrightarrow> a < n" for a n :: nat by auto
  show ?thesis
    using s off assms(4)
    by (simp add: p fragment_chunk_def slice_simps Let_def checked_add_usize_def mtu_consts
        frag_bytes_def frag_front_def e t lt)
qed

lemma frag_bytes_fields:
  assumes "20 \<le> length packet" and "20 + length chunk < 65536"
  shows "length (frag_bytes packet chunk flags) = 20 + length chunk"
    and "drop 20 (frag_bytes packet chunk flags) = chunk"
    and "frag_bytes packet chunk flags ! 0 = packet ! 0"
    and "frag_bytes packet chunk flags ! 9 = packet ! 9"
    and "unat (from_be [frag_bytes packet chunk flags ! 2, frag_bytes packet chunk flags ! 3] :: u16)
      = 20 + length chunk"
    and "(from_be [frag_bytes packet chunk flags ! 6, frag_bytes packet chunk flags ! 7] :: u16) = flags"
    and "take 4 (drop 12 (frag_bytes packet chunk flags)) = take 4 (drop 12 packet)"
    and "take 4 (drop 16 (frag_bytes packet chunk flags)) = take 4 (drop 16 packet)"
    and "ones_complement_sum (take 20 (frag_bytes packet chunk flags)) = 0xffff"
proof -
  obtain b0 b1 b2 b3 b4 b5 b6 b7 b8 b9 b10 b11 b12 b13 b14 b15 b16 b17 b18 b19 ys where
    p: "packet = b0 # b1 # b2 # b3 # b4 # b5 # b6 # b7 # b8 # b9 # b10 # b11 # b12 # b13 # b14 #
      b15 # b16 # b17 # b18 # b19 # ys"
    using list_20[OF assms(1)] by metis
  let ?len = "of_nat (20 + length chunk) :: u16"
  have split2: "from_be [be_bytes 2 w ! 0, be_bytes 2 w ! Suc 0] = w" for w :: u16
    using from_be_be_bytes[where n = 2 and w = w] by (simp add: be_bytes_2)
  have len: "unat ?len = 20 + length chunk"
    using assms(2) by (simp add: unat_of_nat_u16 del: of_nat_add)
  let ?f = "frag_bytes packet chunk flags"
  show "length ?f = 20 + length chunk" "drop 20 ?f = chunk" "?f ! 0 = packet ! 0" "?f ! 9 = packet ! 9"
    "take 4 (drop 12 ?f) = take 4 (drop 12 packet)" "take 4 (drop 16 ?f) = take 4 (drop 16 packet)"
    "(from_be [?f ! 6, ?f ! 7] :: u16) = flags"
    by (simp_all add: frag_bytes_def frag_front_def p nth_append split2)
  have "from_be [?f ! 2, ?f ! 3] = ?len"
    by (simp add: frag_bytes_def frag_front_def p nth_append split2 del: of_nat_add of_nat_numeral)
  then show "unat (from_be [?f ! 2, ?f ! 3] :: u16) = 20 + length chunk" by (simp only: len)
  let ?front = "frag_front packet (20 + length chunk) flags"
  have "take 20 ?f = ?front @ be_bytes 2 (checksum (?front @ [0, 0] @ take 8 (drop 12 packet)))
      @ take 8 (drop 12 packet)"
    by (simp add: frag_bytes_def frag_front_def p Let_def)
  moreover have "even (length ?front)" by (simp add: frag_front_def p)
  ultimately show "ones_complement_sum (take 20 ?f) = 0xffff"
    by (simp only: ones_complement_sum_with_checksum)
qed

lemma flags_offset_fields:
  assumes "offset \<le> 8191"
  shows "unat (flags_offset_of (field AND 0x8000) mf offset AND 0x1fff) = offset"
    and "flags_offset_of (field AND 0x8000) mf offset AND 0x2000 \<noteq> 0 \<longleftrightarrow> mf"
    and "flags_offset_of (field AND 0x8000) mf offset AND 0x4000 = 0"
proof -
  let ?o = "of_nat offset :: u16"
  have un: "unat ?o = offset" using assms by (simp add: unat_of_nat_u16)
  then have tb: "take_bit 13 ?o = ?o"
    using assms by (simp add: take_bit_of_nat take_bit_nat_eq_self)
  then have nb: "\<not> bit ?o n" if "13 \<le> n" for n
    using that by (metis bit_take_bit_iff not_less)
  have "?o AND 0x1fff = ?o" using tb by (simp add: take_bit_eq_mask mask_eq_exp_minus_1)
  moreover have "?o AND 0x2000 = 0" "?o AND 0x4000 = 0"
    using nb[of 13] nb[of 14] and_exp_eq_0_iff_not_bit[of ?o 13] and_exp_eq_0_iff_not_bit[of ?o 14]
    by simp_all
  ultimately show "unat (flags_offset_of (field AND 0x8000) mf offset AND 0x1fff) = offset"
    "flags_offset_of (field AND 0x8000) mf offset AND 0x2000 \<noteq> 0 \<longleftrightarrow> mf"
    "flags_offset_of (field AND 0x8000) mf offset AND 0x4000 = 0"
    using un by (simp_all add: flags_offset_of_def bit.conj_disj_distrib2 and.assoc mtu_consts)
qed

section \<open>The fragments of a packet\<close>

text \<open>The payload size of a fragment and the conditions under which an oversized packet
  is fragmented.\<close>

definition max_payload_of :: "nat \<Rightarrow> nat" where
  "max_payload_of tunnel_mtu = (tunnel_mtu - 20) div 8 * 8"

definition fragment_field_of :: "bytes \<Rightarrow> u16" where
  "fragment_field_of packet = from_be [packet ! 6, packet ! 7]"

definition fragmentable :: "bytes \<Rightarrow> nat \<Rightarrow> bool" where
  "fragmentable packet tunnel_mtu =
     (packet \<noteq> [] \<and> drop_bit 4 (packet ! 0) = 4 \<and> ihl_of (packet ! 0) = 20 \<and> 20 < length packet \<and>
      unat (from_be [packet ! 2, packet ! 3] :: u16) = length packet \<and> tunnel_mtu < length packet \<and>
      fragment_field_of packet AND 0x4000 = 0 \<and> 28 \<le> tunnel_mtu \<and>
      (fragment_field_of packet AND 0x2000 \<noteq> 0 \<longrightarrow> 8 dvd (length packet - 20)) \<and>
      unat (fragment_field_of packet AND 0x1fff) * 8 + (length packet - 20) \<le> 65515)"

lemma step_by_less: "s \<in> set (step_by n step) \<Longrightarrow> 0 < step \<Longrightarrow> s < n"
proof -
  assume "s \<in> set (step_by n step)" and pos: "0 < step"
  then obtain i where i: "i < (n + step - 1) div step" "s = i * step" by (auto simp: step_by_def)
  then have "Suc i * step \<le> n + step - 1"
    by (metis Suc_le_eq div_times_less_eq_dividend le_trans mult_le_mono1)
  with i pos show "s < n" by simp
qed

definition frag_of :: "bytes \<Rightarrow> nat \<Rightarrow> nat \<Rightarrow> bytes" where
  "frag_of packet mp s =
     (let field = fragment_field_of packet in
      frag_bytes packet (take mp (drop s (drop 20 packet)))
        (flags_offset_of (field AND 0x8000) (field AND 0x2000 \<noteq> 0 \<or> s + mp < length packet - 20)
          (unat (field AND 0x1fff) + s div 8)))"

lemma fragment_ipv4_fragmentable:
  assumes "fragmentable packet tunnel_mtu"
  shows "fragment_ipv4_for_tunnel packet tunnel_mtu =
    Ok (map (frag_of packet (max_payload_of tunnel_mtu))
          (step_by (length packet - 20) (max_payload_of tunnel_mtu)))"
proof -
  let ?mp = "max_payload_of tunnel_mtu" and ?field = "fragment_field_of packet"
  have mp: "8 \<le> ?mp" using assms by (auto simp: fragmentable_def max_payload_of_def)
  have small: "unat (?field AND 0x1fff) * 8 < 65536" "length packet < 65536"
    using assms by (auto simp: fragmentable_def)
  have "for_each (step_by (length packet - 20) ?mp) (\<lambda>chunk_start fragments.
        bnd (fragment_chunk packet 20 ?mp ?field chunk_start) (\<lambda>fragment. Ok (fragments @ [fragment]))) []
      = Ok ([] @ map (frag_of packet ?mp) (step_by (length packet - 20) ?mp))"
    using assms mp
    by (intro for_each_collect)
       (auto simp: fragment_chunk_closed frag_of_def Let_def fragmentable_def dest: step_by_less)
  then show ?thesis
    using assms mp small
    by (auto simp: fragment_ipv4_for_tunnel_def fragmentable_def ip_consts mtu_consts slice_simps Let_def
        checked_sub_usize_def checked_add_usize_def checked_mul_usize_def fragment_field_of_def
        max_payload_of_def)
qed

lemma max_payload_bounds:
  assumes "28 \<le> tunnel_mtu"
  shows "8 \<le> max_payload_of tunnel_mtu" and "8 dvd max_payload_of tunnel_mtu"
    and "20 + max_payload_of tunnel_mtu \<le> tunnel_mtu"
  using assms by (auto simp: max_payload_of_def)

lemma fragment_ipv4_Ok_iff:
  "fragment_ipv4_for_tunnel packet tunnel_mtu = Ok frags \<longleftrightarrow>
     (20 \<le> length packet \<and> drop_bit 4 (packet ! 0) = 4 \<and> 20 \<le> ihl_of (packet ! 0) \<and>
      ihl_of (packet ! 0) \<le> length packet \<and>
      unat (from_be [packet ! 2, packet ! 3] :: u16) = length packet \<and>
      length packet \<le> tunnel_mtu \<and> frags = [packet]) \<or>
     (fragmentable packet tunnel_mtu \<and>
      frags = map (frag_of packet (max_payload_of tunnel_mtu))
          (step_by (length packet - 20) (max_payload_of tunnel_mtu)))"
proof (cases "fragmentable packet tunnel_mtu")
  case True
  then show ?thesis by (auto simp: fragment_ipv4_fragmentable) (auto simp: fragmentable_def)
next
  case False
  have "20 \<le> length packet \<Longrightarrow> ihl_of (packet ! 0) = 20 \<Longrightarrow> length packet - 20 = 0 \<Longrightarrow> length packet = 20"
    by simp
  with False show ?thesis
    by (auto simp: fragment_ipv4_for_tunnel_def fragmentable_def ip_consts mtu_consts slice_simps Let_def
        checked_sub_usize_def checked_add_usize_def checked_mul_usize_def fragment_field_of_def
        not_le not_less split: if_splits)
qed

lemma no_panic_fragment_ipv4: "no_panic (fragment_ipv4_for_tunnel packet tunnel_mtu)"
proof (cases "fragmentable packet tunnel_mtu")
  case True
  then show ?thesis by (simp add: fragment_ipv4_fragmentable)
next
  case False
  then show ?thesis
    by (auto simp: fragment_ipv4_for_tunnel_def fragmentable_def ip_consts mtu_consts slice_simps Let_def
        checked_sub_usize_def checked_add_usize_def checked_mul_usize_def fragment_field_of_def
        not_le not_less split: if_splits)
qed

text \<open>Everything a fragment carries over from the packet.\<close>

lemma frag_of_fields:
  assumes "fragmentable packet tunnel_mtu" and "s \<in> set (step_by (length packet - 20) (max_payload_of tunnel_mtu))"
    and "f = frag_of packet (max_payload_of tunnel_mtu) s"
  shows "length f \<le> tunnel_mtu" and "20 < length f"
    and "drop 20 f = take (max_payload_of tunnel_mtu) (drop s (drop 20 packet))"
    and "f ! 0 = packet ! 0" and "f ! 9 = packet ! 9"
    and "unat (from_be [f ! 2, f ! 3] :: u16) = length f"
    and "unat (fragment_field_of f AND 0x1fff) = unat (fragment_field_of packet AND 0x1fff) + s div 8"
    and "fragment_field_of f AND 0x2000 \<noteq> 0 \<longleftrightarrow>
      fragment_field_of packet AND 0x2000 \<noteq> 0 \<or> s + max_payload_of tunnel_mtu < length packet - 20"
    and "fragment_field_of f AND 0x4000 = 0"
    and "take 4 (drop 12 f) = take 4 (drop 12 packet)"
    and "take 4 (drop 16 f) = take 4 (drop 16 packet)"
    and "ones_complement_sum (take 20 f) = 0xffff"
    and "8 dvd s"
proof -
  let ?mp = "max_payload_of tunnel_mtu"
  let ?chunk = "take ?mp (drop s (drop 20 packet))"
  have fr: "28 \<le> tunnel_mtu" "20 < length packet" "length packet < 65536"
     "unat (fragment_field_of packet AND 0x1fff) * 8 + (length packet - 20) \<le> 65515"
    using assms(1) by (auto simp: fragmentable_def)
  note mp = max_payload_bounds[OF fr(1)]
  have s: "s < length packet - 20" using step_by_less[OF assms(2)] mp by simp
  show "8 dvd s" using assms(2) mp(2) by (auto simp: step_by_def)
  have off: "unat (fragment_field_of packet AND 0x1fff) + s div 8 \<le> 8191" using fr s by auto
  have len: "20 \<le> length packet" "20 + length ?chunk < 65536" using fr by auto
  note fb = frag_bytes_fields[OF len] and fo = flags_offset_fields[OF off]
  show "length f \<le> tunnel_mtu" "20 < length f" using fb(1) mp s by (auto simp: assms(3) frag_of_def Let_def)
  show "drop 20 f = ?chunk" "f ! 0 = packet ! 0" "f ! 9 = packet ! 9"
    "unat (from_be [f ! 2, f ! 3] :: u16) = length f"
    "take 4 (drop 12 f) = take 4 (drop 12 packet)" "take 4 (drop 16 f) = take 4 (drop 16 packet)"
    "ones_complement_sum (take 20 f) = 0xffff"
    by (simp_all only: assms(3) frag_of_def Let_def fb)
  have "fragment_field_of f = flags_offset_of (fragment_field_of packet AND 0x8000)
     (fragment_field_of packet AND 0x2000 \<noteq> 0 \<or> s + ?mp < length packet - 20)
     (unat (fragment_field_of packet AND 0x1fff) + s div 8)"
    by (simp only: assms(3) frag_of_def Let_def fragment_field_of_def[of "frag_bytes _ _ _"] fb)
  then show "unat (fragment_field_of f AND 0x1fff) = unat (fragment_field_of packet AND 0x1fff) + s div 8"
    "fragment_field_of f AND 0x2000 \<noteq> 0 \<longleftrightarrow>
      fragment_field_of packet AND 0x2000 \<noteq> 0 \<or> s + max_payload_of tunnel_mtu < length packet - 20"
    "fragment_field_of f AND 0x4000 = 0"
    by (simp_all only: fo)
qed

lemma length_step_by: "length (step_by n step) = (n + step - 1) div step"
  by (simp add: step_by_def)

lemma step_by_nth: "i < length (step_by n step) \<Longrightarrow> step_by n step ! i = i * step"
  by (simp add: step_by_def)

lemma step_by_nth_less:
  assumes "i < length (step_by n step)" and "0 < step"
  shows "i * step < n"
  using step_by_less[OF nth_mem[OF assms(1)] assms(2)] by (simp add: step_by_nth[OF assms(1)])

lemma step_by_more:
  assumes "i < length (step_by n step)" and "0 < step"
  shows "Suc i < length (step_by n step) \<longleftrightarrow> i * step + step < n"
proof
  assume "Suc i < length (step_by n step)"
  from step_by_nth_less[OF this assms(2)] show "i * step + step < n" by simp
next
  assume "i * step + step < n"
  then have "(i + 2) * step \<le> n + step - 1" by (simp add: algebra_simps)
  then have "i + 2 \<le> (n + step - 1) div step" using assms(2) by (simp add: less_eq_div_iff_mult_less_eq)
  then show "Suc i < length (step_by n step)" by (simp add: length_step_by)
qed

text \<open>All chunks before the \<open>i\<close>-th are full.\<close>

lemma length_chunks_before:
  assumes "i < length (step_by (length xs) step)" and "0 < step"
  shows "length (concat (map (\<lambda>s. take step (drop s xs)) (take i (step_by (length xs) step)))) = i * step"
  using assms(1)
proof (induction i)
  case (Suc i)
  have "i * step + step < length xs" using step_by_more[of i "length xs" step] Suc.prems assms(2) by simp
  then show ?case using Suc by (simp add: take_Suc_conv_app_nth step_by_nth)
qed simp

lemma fragments_payload:
  assumes "fragmentable packet tunnel_mtu"
  shows "map (drop 20 \<circ> frag_of packet (max_payload_of tunnel_mtu))
        (step_by (length packet - 20) (max_payload_of tunnel_mtu))
      = map (\<lambda>s. take (max_payload_of tunnel_mtu) (drop s (drop 20 packet)))
        (step_by (length (drop 20 packet)) (max_payload_of tunnel_mtu))"
  using frag_of_fields(3)[OF assms _ refl] by auto

section \<open>Properties of inner fragmentation\<close>

text \<open>C4: an oversized datagram that may be fragmented is split into fragments that each
  fit the tunnel MTU, whose payloads concatenate to the original payload, where the offset field
  of the \<open>i\<close>-th fragment is the original offset advanced by exactly the payload bytes of the
  fragments before it, where More Fragments is set on all but the last one (and on the last one
  when the original carried it), where Don't Fragment is clear, and where every header has a
  valid checksum.\<close>

theorem fragment_ipv4_for_tunnel_reassembles:
  assumes "fragmentable packet tunnel_mtu"
  shows "\<exists>frags. fragment_ipv4_for_tunnel packet tunnel_mtu = Ok frags \<and>
    concat (map (drop 20) frags) = drop 20 packet \<and>
    (\<forall>i < length frags. let f = frags ! i in
       length f \<le> tunnel_mtu \<and> unat (from_be [f ! 2, f ! 3] :: u16) = length f \<and>
       ones_complement_sum (take 20 f) = 0xffff \<and>
       unat (fragment_field_of f AND IPV4_OFFSET_MASK) * 8 =
         unat (fragment_field_of packet AND IPV4_OFFSET_MASK) * 8 +
         length (concat (map (drop 20) (take i frags))) \<and>
       (fragment_field_of f AND IPV4_MF \<noteq> 0 \<longleftrightarrow>
         fragment_field_of packet AND IPV4_MF \<noteq> 0 \<or> Suc i < length frags) \<and>
       fragment_field_of f AND IPV4_DF = 0)"
proof (intro exI conjI allI impI)
  let ?mp = "max_payload_of tunnel_mtu"
  let ?ss = "step_by (length packet - 20) ?mp"
  let ?fs = "map (frag_of packet ?mp) ?ss"
  note pl = fragments_payload[OF assms]
  have pos: "0 < ?mp" "8 dvd ?mp" using assms max_payload_bounds[of tunnel_mtu]
    by (auto simp: fragmentable_def)
  show "fragment_ipv4_for_tunnel packet tunnel_mtu = Ok ?fs" by (rule fragment_ipv4_fragmentable[OF assms])
  show "concat (map (drop 20) ?fs) = drop 20 packet"
    using concat_chunks[OF pos(1), of "drop 20 packet"] by (simp add: pl)
  fix i assume "i < length ?fs"
  then have i: "i < length ?ss" by simp
  let ?f = "?fs ! i"
  have s: "?ss ! i \<in> set ?ss" and f: "?f = frag_of packet ?mp (?ss ! i)" and si: "?ss ! i = i * ?mp"
    using i nth_mem[OF i] by (simp_all add: step_by_nth)
  note ff = frag_of_fields[OF assms s f]
  have "map (drop 20) (take i ?fs) = take i (map (drop 20 \<circ> frag_of packet ?mp) ?ss)" by (simp add: take_map)
  then have before: "length (concat (map (drop 20) (take i ?fs))) = i * ?mp"
    using length_chunks_before[of i "drop 20 packet" ?mp] i pos by (simp only: pl) (simp add: take_map)
  show "let f = ?f in
       length f \<le> tunnel_mtu \<and> unat (from_be [f ! 2, f ! 3] :: u16) = length f \<and>
       ones_complement_sum (take 20 f) = 0xffff \<and>
       unat (fragment_field_of f AND IPV4_OFFSET_MASK) * 8 =
         unat (fragment_field_of packet AND IPV4_OFFSET_MASK) * 8 +
         length (concat (map (drop 20) (take i ?fs))) \<and>
       (fragment_field_of f AND IPV4_MF \<noteq> 0 \<longleftrightarrow>
         fragment_field_of packet AND IPV4_MF \<noteq> 0 \<or> Suc i < length ?fs) \<and>
       fragment_field_of f AND IPV4_DF = 0"
    using ff(13) unfolding Let_def mtu_consts before ff(7) ff(8)
    by (intro conjI ff) (auto simp: si step_by_more[OF i pos(1)] algebra_simps)
qed

text \<open>A 44-byte UDP datagram to 239.1.2.3 through a tunnel MTU of 28: three fragments.\<close>

definition sample_ipv4 :: bytes where
  "sample_ipv4 = [0x45, 0, 0, 44, 0x12, 0x34, 0, 0, 16, 17, 0xe5, 0x87, 192, 0, 2, 1, 239, 1, 2, 3,
     0, 1, 2, 3, 4, 5, 6, 7, 8, 9, 10, 11, 12, 13, 14, 15, 16, 17, 18, 19, 20, 21, 22, 23]"

lemma sample_ipv4_fragmentable: "fragmentable sample_ipv4 28"
  by (simp add: fragmentable_def sample_ipv4_def ihl_of_def fragment_field_of_def from_be_def)

theorem fragment_ipv4_for_tunnel_reassembles_witness:
  "\<exists>frags. fragment_ipv4_for_tunnel sample_ipv4 28 = Ok frags \<and>
    concat (map (drop 20) frags) = drop 20 sample_ipv4"
  using fragment_ipv4_for_tunnel_reassembles[OF sample_ipv4_fragmentable] by blast

text \<open>Every fragment of a datagram that the multicast parser accepts is accepted by it again,
  with the same source, group and protocol, and fits the tunnel.\<close>

lemma fragment_ipv4_for_tunnel_parses:
  assumes "parse_multicast_packet packet = Ok p"
    and "fragment_ipv4_for_tunnel packet tunnel_mtu = Ok frags" and "f \<in> set frags"
  shows "\<exists>q. parse_multicast_packet f = Ok q \<and> mp_source q = mp_source p \<and> mp_group q = mp_group p \<and>
    mp_ip_protocol q = mp_ip_protocol p \<and> length f \<le> tunnel_mtu"
proof (cases "fragmentable packet tunnel_mtu")
  case False
  then show ?thesis using assms by (auto simp: fragment_ipv4_Ok_iff)
next
  case True
  then obtain s where s: "s \<in> set (step_by (length packet - 20) (max_payload_of tunnel_mtu))"
    and f: "f = frag_of packet (max_payload_of tunnel_mtu) s"
    using assms(2,3) by (auto simp: fragment_ipv4_fragmentable)
  note ff = frag_of_fields[OF True s f]
  have "parse_ipv4 packet = Ok p" "ihl_of (packet ! 0) = 20" "drop_bit 4 (packet ! 0) = 4"
    using assms(1) True by (auto simp: parse_multicast_packet_Ok fragmentable_def)
  then show ?thesis
    using ff by (cases f) (auto simp: parse_multicast_packet_Ok parse_ipv4_Ok Let_def)
qed

lemma parse_sample_ipv4:
  "parse_multicast_packet sample_ipv4 = Ok \<lparr>mp_source = V4 0xC0000201, mp_group = V4 0xEF010203,
     mp_ip_protocol = 17, mp_datagram_len = 44, mp_fragmented = False\<rparr>"
  by (simp add: parse_multicast_packet_Ok parse_ipv4_Ok Let_def sample_ipv4_def ihl_of_def eval_simps)

text \<open>Fragmentation never panics on any bytes, and succeeds exactly when the bytes are a
  well-formed IPv4 datagram that fits the tunnel or an oversized one that may be fragmented.\<close>

lemma fragment_ipv4_for_tunnel_accepts:
  "no_panic (fragment_ipv4_for_tunnel packet tunnel_mtu) \<and>
   (is_ok (fragment_ipv4_for_tunnel packet tunnel_mtu) \<longleftrightarrow>
     (20 \<le> length packet \<and> drop_bit 4 (packet ! 0) = 4 \<and> 20 \<le> ihl_of (packet ! 0) \<and>
      ihl_of (packet ! 0) \<le> length packet \<and>
      unat (from_be [packet ! 2, packet ! 3] :: u16) = length packet \<and> length packet \<le> tunnel_mtu) \<or>
     fragmentable packet tunnel_mtu)"
  unfolding is_ok_iff fragment_ipv4_Ok_iff using no_panic_fragment_ipv4 by blast

end
