(* ===== verification/Query.thy ===== *)
theory Query
  imports Protocol Ip Checksum
begin

text \<open>
  IGMPv3 and MLDv2 General Queries, \<open>src/query.rs\<close>: the builders, the validators, and the
  floating-point interval code.  The lemmas show that every built query is accepted by
  the validator of its family, whatever padding follows it, that the validators never
  panic, and that the interval code is monotone and rounds up.
\<close>

section \<open>Constants and configuration\<close>

definition QUERY_IPV4_HEADER_LEN :: nat where "QUERY_IPV4_HEADER_LEN = 24"
definition IGMPV3_QUERY_LEN :: nat where "IGMPV3_QUERY_LEN = 12"
definition IPV6_HOP_BY_HOP_LEN :: nat where "IPV6_HOP_BY_HOP_LEN = 8"
definition MLDV2_QUERY_LEN :: nat where "MLDV2_QUERY_LEN = 28"
definition IGMP_PROTOCOL :: u8 where "IGMP_PROTOCOL = 2"
definition ICMPV6_NEXT_HEADER :: u8 where "ICMPV6_NEXT_HEADER = 58"
definition HOP_BY_HOP_NEXT_HEADER :: u8 where "HOP_BY_HOP_NEXT_HEADER = 0"
definition IGMP_MEMBERSHIP_QUERY :: u8 where "IGMP_MEMBERSHIP_QUERY = 0x11"
definition MLD_LISTENER_QUERY :: u8 where "MLD_LISTENER_QUERY = 130"
definition ALL_SYSTEMS_V4 :: ipv4 where "ALL_SYSTEMS_V4 = 0xE0000001"
definition ALL_NODES_V6 :: ipv6 where "ALL_NODES_V6 = 0xFF020000000000000000000000000001"
definition IPV4_FRAGMENT_MASK :: u16 where "IPV4_FRAGMENT_MASK = 0x3fff"

lemmas query_consts = QUERY_IPV4_HEADER_LEN_def IGMPV3_QUERY_LEN_def IPV6_HOP_BY_HOP_LEN_def
  MLDV2_QUERY_LEN_def IGMP_PROTOCOL_def ICMPV6_NEXT_HEADER_def HOP_BY_HOP_NEXT_HEADER_def
  IGMP_MEMBERSHIP_QUERY_def MLD_LISTENER_QUERY_def IPV4_FRAGMENT_MASK_def

record general_query_config =
  igmp_source :: ipv4
  mld_source :: ipv6
  igmp_max_response_code :: u8
  mld_max_response_code :: u16
  robustness_variable :: u8
  query_interval_code :: u8

datatype query_validation_error = QvTruncated | QvWrongAddressFamily | QvInvalidLength
  | QvInvalidHeader | QvInvalidChecksum | QvInvalidSource | QvNotGeneralQuery

definition for_amt :: general_query_config where
  "for_amt = \<lparr>igmp_source = 0, mld_source = 0, igmp_max_response_code = 1,
     mld_max_response_code = 1, robustness_variable = 2, query_interval_code = 125\<rparr>"

definition for_local_network :: general_query_config where
  "for_local_network = \<lparr>igmp_source = 0, mld_source = 0, igmp_max_response_code = 100,
     mld_max_response_code = 10000, robustness_variable = 2, query_interval_code = 125\<rparr>"

section \<open>The interval code\<close>

definition query_interval :: "u8 \<Rightarrow> duration" where
  "query_interval code =
     from_secs (if code < 128 then unat code
       else let mantissa = unat ((code AND 0x0f) OR 0x10);
                exponent = unat (drop_bit 4 code AND 0x07) + 3
            in push_bit exponent mantissa)"

definition interval_codes :: "u8 list" where
  "interval_codes = concat (map (\<lambda>exponent. map (\<lambda>mantissa.
     0x80 OR push_bit 4 (of_nat exponent) OR of_nat mantissa) [0..<16]) [0..<8])"

definition encode_query_interval :: "duration \<Rightarrow> u8" where
  "encode_query_interval interval =
     (let seconds = as_secs interval in
      if seconds < 128 then of_nat seconds
      else case find (\<lambda>code. seconds \<le> as_secs (query_interval code)) interval_codes of
             Some code \<Rightarrow> code
           | None \<Rightarrow> 255)"

section \<open>Builders\<close>

definition build_igmpv3_general_query :: "general_query_config \<Rightarrow> bytes" where
  "build_igmpv3_general_query config =
     (let total_len = QUERY_IPV4_HEADER_LEN + IGMPV3_QUERY_LEN;
          packet = replicate total_len 0;
          packet = write_at 0 [0x46] packet;
          packet = write_at 1 [0xc0] packet;
          packet = write_at 2 (be_bytes 2 (of_nat total_len :: u16)) packet;
          packet = write_at 8 [1] packet;
          packet = write_at 9 [IGMP_PROTOCOL] packet;
          packet = write_at 12 (octets4 (igmp_source config)) packet;
          packet = write_at 16 (octets4 ALL_SYSTEMS_V4) packet;
          packet = write_at 20 [0x94, 0x04, 0, 0] packet;
          igmp = drop QUERY_IPV4_HEADER_LEN packet;
          igmp = write_at 0 [IGMP_MEMBERSHIP_QUERY] igmp;
          igmp = write_at 1 [igmp_max_response_code config] igmp;
          igmp = write_at 8 [robustness_variable config AND 0x07] igmp;
          igmp = write_at 9 [query_interval_code config] igmp;
          igmp = write_at 2 (be_bytes 2 (checksum igmp)) igmp;
          packet = write_at QUERY_IPV4_HEADER_LEN igmp packet
      in write_at 10 (be_bytes 2 (checksum (take QUERY_IPV4_HEADER_LEN packet))) packet)"

definition build_mldv2_general_query :: "general_query_config \<Rightarrow> bytes" where
  "build_mldv2_general_query config =
     (let payload_len = IPV6_HOP_BY_HOP_LEN + MLDV2_QUERY_LEN;
          total_len = IPV6_HEADER_LEN + payload_len;
          packet = replicate total_len 0;
          packet = write_at 0 [0x60] packet;
          packet = write_at 4 (be_bytes 2 (of_nat payload_len :: u16)) packet;
          packet = write_at 6 [HOP_BY_HOP_NEXT_HEADER] packet;
          packet = write_at 7 [1] packet;
          packet = write_at 8 (octets6 (mld_source config)) packet;
          packet = write_at 24 (octets6 ALL_NODES_V6) packet;
          packet = write_at IPV6_HEADER_LEN [ICMPV6_NEXT_HEADER, 0, 5, 2, 0, 0, 1, 0] packet;
          mld_offset = IPV6_HEADER_LEN + IPV6_HOP_BY_HOP_LEN;
          mld = drop mld_offset packet;
          mld = write_at 0 [MLD_LISTENER_QUERY] mld;
          mld = write_at 4 (be_bytes 2 (mld_max_response_code config)) mld;
          mld = write_at 24 [robustness_variable config AND 0x07] mld;
          mld = write_at 25 [query_interval_code config] mld;
          packet = write_at mld_offset mld packet
      in write_at (mld_offset + 2) (be_bytes 2 (icmpv6_checksum (octets6 (mld_source config))
           (octets6 ALL_NODES_V6) ICMPV6_NEXT_HEADER mld)) packet)"

fun build_general_query :: "membership_protocol \<Rightarrow> general_query_config \<Rightarrow> bytes" where
  "build_general_query Igmpv3 config = build_igmpv3_general_query config"
| "build_general_query Mldv2 config = build_mldv2_general_query config"

section \<open>Validators\<close>

definition validate_igmpv3_general_query :: "bytes \<Rightarrow> (query_validation_error, u8 \<times> nat) res" where
  "validate_igmpv3_general_query packet =
     bnd (ok_or (get_byte packet 0) QvTruncated) (\<lambda>b0.
     if drop_bit 4 b0 \<noteq> 4 then Err QvWrongAddressFamily
     else if length packet < QUERY_IPV4_HEADER_LEN + IGMPV3_QUERY_LEN then Err QvTruncated else
     let ihl = ihl_of b0 in
     if ihl < QUERY_IPV4_HEADER_LEN \<or> length packet < ihl then Err QvInvalidHeader else
     bnd (be16_at packet 2) (\<lambda>l16. let total_len = unat l16 in
     if length packet < total_len \<or> total_len \<noteq> ihl + IGMPV3_QUERY_LEN then Err QvInvalidLength else
     bnd (byte_at packet 8) (\<lambda>ttl.
     bnd (byte_at packet 9) (\<lambda>proto.
     bnd (be16_at packet 6) (\<lambda>frag.
     bnd (slice packet 16 20) (\<lambda>dst.
     bnd (slice packet 20 ihl) (\<lambda>options.
     bnd (has_ipv4_router_alert options) (\<lambda>alert.
     if ttl \<noteq> 1 \<or> proto \<noteq> IGMP_PROTOCOL \<or> frag AND IPV4_FRAGMENT_MASK \<noteq> 0
        \<or> dst \<noteq> octets4 ALL_SYSTEMS_V4 \<or> \<not> alert
     then Err QvInvalidHeader else
     bnd (slice packet 12 16) (\<lambda>s. let source = from_be s in
     if ipv4_is_multicast source \<or> ipv4_is_broadcast source then Err QvInvalidSource else
     bnd (slice packet 0 ihl) (\<lambda>hdr.
     if ones_complement_sum hdr \<noteq> 0xffff then Err QvInvalidChecksum else
     bnd (slice packet ihl total_len) (\<lambda>igmp.
     bnd (byte_at igmp 0) (\<lambda>kind.
     bnd (slice igmp 4 8) (\<lambda>grp.
     bnd (be16_at igmp 10) (\<lambda>sources.
     if kind \<noteq> IGMP_MEMBERSHIP_QUERY \<or> grp \<noteq> replicate 4 0 \<or> sources \<noteq> 0
     then Err QvNotGeneralQuery
     else if ones_complement_sum igmp \<noteq> 0xffff then Err QvInvalidChecksum else
     bnd (byte_at igmp 9) (\<lambda>code. Ok (code, total_len))))))))))))))))"

definition validate_mldv2_general_query :: "bytes \<Rightarrow> (query_validation_error, u8 \<times> nat) res" where
  "validate_mldv2_general_query packet =
     bnd (ok_or (get_byte packet 0) QvTruncated) (\<lambda>b0.
     if drop_bit 4 b0 \<noteq> 6 then Err QvWrongAddressFamily
     else if length packet < IPV6_HEADER_LEN + IPV6_HOP_BY_HOP_LEN + MLDV2_QUERY_LEN
     then Err QvTruncated else
     bnd (be16_at packet 4) (\<lambda>l16.
     let payload_len = unat l16; total_len = IPV6_HEADER_LEN + payload_len in
     if length packet < total_len \<or> payload_len \<noteq> IPV6_HOP_BY_HOP_LEN + MLDV2_QUERY_LEN
     then Err QvInvalidLength else
     bnd (byte_at packet 6) (\<lambda>nh.
     bnd (byte_at packet 7) (\<lambda>hops.
     bnd (slice packet 24 40) (\<lambda>dst.
     bnd (byte_at packet 40) (\<lambda>inner_nh.
     bnd (slice packet 42 48) (\<lambda>options.
     bnd (has_ipv6_router_alert options) (\<lambda>alert.
     if nh \<noteq> HOP_BY_HOP_NEXT_HEADER \<or> hops \<noteq> 1 \<or> dst \<noteq> octets6 ALL_NODES_V6
        \<or> inner_nh \<noteq> ICMPV6_NEXT_HEADER \<or> \<not> alert
     then Err QvInvalidHeader else
     bnd (slice packet 8 24) (\<lambda>s. let source = from_be s in
     if ipv6_is_multicast source then Err QvInvalidSource else
     bnd (slice packet (IPV6_HEADER_LEN + IPV6_HOP_BY_HOP_LEN) total_len) (\<lambda>mld.
     bnd (byte_at mld 0) (\<lambda>kind.
     bnd (byte_at mld 1) (\<lambda>code0.
     bnd (slice mld 8 24) (\<lambda>grp.
     bnd (be16_at mld 26) (\<lambda>sources.
     if kind \<noteq> MLD_LISTENER_QUERY \<or> code0 \<noteq> 0 \<or> grp \<noteq> replicate 16 0 \<or> sources \<noteq> 0
     then Err QvNotGeneralQuery
     else if icmpv6_checksum (octets6 source) (octets6 ALL_NODES_V6) ICMPV6_NEXT_HEADER mld \<noteq> 0
     then Err QvInvalidChecksum else
     bnd (byte_at mld 25) (\<lambda>code. Ok (code, total_len))))))))))))))))"

definition validated_general_query ::
  "membership_protocol \<Rightarrow> bytes \<Rightarrow> (query_validation_error, duration \<times> bytes) res" where
  "validated_general_query protocol packet =
     bnd (case protocol of Igmpv3 \<Rightarrow> validate_igmpv3_general_query packet
          | Mldv2 \<Rightarrow> validate_mldv2_general_query packet) (\<lambda>(interval_code, datagram_len).
     bnd (slice packet 0 datagram_len) (\<lambda>q. Ok (query_interval interval_code, q)))"

definition general_query_interval ::
  "membership_protocol \<Rightarrow> bytes \<Rightarrow> (query_validation_error, duration) res" where
  "general_query_interval protocol packet =
     bnd (validated_general_query protocol packet) (\<lambda>(interval, _). Ok interval)"

definition validate_general_query ::
  "membership_protocol \<Rightarrow> bytes \<Rightarrow> (query_validation_error, unit) res" where
  "validate_general_query protocol packet =
     bnd (general_query_interval protocol packet) (\<lambda>_. Ok ())"

section \<open>Panic freedom\<close>

lemma no_panic_router_alert [simp]:
  "no_panic (has_ipv4_router_alert bs)" "no_panic (has_ipv6_router_alert bs)"
  by (simp_all add: has_ipv4_router_alert_correct has_ipv6_router_alert_correct)

lemma no_panic_validate_igmpv3 [simp]: "no_panic (validate_igmpv3_general_query packet)"
  unfolding validate_igmpv3_general_query_def query_consts Let_def
  by (auto simp: slice_simps intro!: no_panic_bnd)

lemma no_panic_validate_mldv2 [simp]: "no_panic (validate_mldv2_general_query packet)"
  unfolding validate_mldv2_general_query_def query_consts ip_consts Let_def
  by (auto simp: slice_simps intro!: no_panic_bnd)

lemma validate_igmpv3_len: "validate_igmpv3_general_query p = Ok (c, n) \<Longrightarrow> n \<le> length p"
  unfolding validate_igmpv3_general_query_def Let_def by (auto simp: bnd_eq_Ok split: if_splits)

lemma validate_mldv2_len: "validate_mldv2_general_query p = Ok (c, n) \<Longrightarrow> n \<le> length p"
  unfolding validate_mldv2_general_query_def Let_def by (auto simp: bnd_eq_Ok split: if_splits)

lemma no_panic_validated_general_query: "no_panic (validated_general_query protocol packet)"
  unfolding validated_general_query_def
  by (auto simp: slice_simps split: membership_protocol.splits
      dest: validate_igmpv3_len validate_mldv2_len intro!: no_panic_bnd)

section \<open>Built queries are accepted\<close>

definition igmp_query_body :: "general_query_config \<Rightarrow> bytes" where
  "igmp_query_body c =
     [0x11, igmp_max_response_code c]
     @ be_bytes 2 (checksum ([0x11, igmp_max_response_code c] @ [0, 0] @
         [0, 0, 0, 0, robustness_variable c AND 7, query_interval_code c, 0, 0]))
     @ [0, 0, 0, 0, robustness_variable c AND 7, query_interval_code c, 0, 0]"

definition igmp_query_header :: "general_query_config \<Rightarrow> bytes" where
  "igmp_query_header c =
     (let front = [0x46, 0xc0, 0, 36, 0, 0, 0, 0, 1, 2];
          back = octets4 (igmp_source c) @ [224, 0, 0, 1, 0x94, 4, 0, 0]
      in front @ be_bytes 2 (checksum (front @ [0, 0] @ back)) @ back)"



lemma octets_constants:
  "octets4 ALL_SYSTEMS_V4 = [224, 0, 0, 1]"
  "octets6 ALL_NODES_V6 = [0xff, 2, 0, 0, 0, 0, 0, 0, 0, 0, 0, 0, 0, 0, 0, 1]"
  by (simp_all add: ALL_SYSTEMS_V4_def ALL_NODES_V6_def be_bytes_unroll)

lemma build_igmpv3_closed:
  "build_igmpv3_general_query c = igmp_query_header c @ igmp_query_body c"
  by (simp add: build_igmpv3_general_query_def igmp_query_header_def igmp_query_body_def
      query_consts Let_def octets_constants be_bytes_2 replicate_unroll
      write_at_prefix[of "octets4 _"] write_at_prefix[of "be_bytes 4 _"])

lemma octets4_cases:
  obtains a b c d where "octets4 s = [a, b, c, d]"
  by (rule that) (simp add: be_bytes_unroll)

lemma be_bytes_2_cases:
  obtains a b where "be_bytes 2 w = [a, b]"
  by (simp add: be_bytes_2)

lemma igmp_query_sums:
  "ones_complement_sum (igmp_query_header c) = 0xffff" "ones_complement_sum (igmp_query_body c) = 0xffff"
  unfolding igmp_query_header_def igmp_query_body_def Let_def
  by (rule ones_complement_sum_with_checksum; simp)+

lemma from_be_00 [simp]: "from_be [0, 0] = 0"
  by (simp add: from_be_def)

lemma router_alert_built:
  "router_alert4 [0x94, 4, 0, 0]" "router_alert6 [5, 2, 0, 0, 1, 0]"
  by (rule alert4 alert6)+

lemma validate_built_igmpv3:
  assumes "\<not> ipv4_is_multicast (igmp_source c)" and "\<not> ipv4_is_broadcast (igmp_source c)"
  shows "validate_igmpv3_general_query (build_igmpv3_general_query c @ pad)
    = Ok (query_interval_code c, 36)"
proof -
  obtain s0 s1 s2 s3 where s: "octets4 (igmp_source c) = [s0, s1, s2, s3]" by (rule octets4_cases)
  then have src: "from_be [s0, s1, s2, s3] = igmp_source c"
    using from_be_be_bytes[where n = 4 and w = "igmp_source c"] by simp
  obtain h0 h1 where
    h: "igmp_query_header c = [0x46, 0xc0, 0, 36, 0, 0, 0, 0, 1, 2, h0, h1, s0, s1, s2, s3,
          224, 0, 0, 1, 0x94, 4, 0, 0]"
    by (simp add: igmp_query_header_def Let_def s be_bytes_2)
  obtain i0 i1 where
    b: "igmp_query_body c = [0x11, igmp_max_response_code c, i0, i1, 0, 0, 0, 0,
          robustness_variable c AND 7, query_interval_code c, 0, 0]"
    by (simp add: igmp_query_body_def be_bytes_2)
  show ?thesis
    unfolding build_igmpv3_closed
    using igmp_query_sums[of c] assms
    by (simp add: h b validate_igmpv3_general_query_def query_consts ihl_of_def slice_simps
        has_ipv4_router_alert_correct router_alert_built octets_constants src replicate_unroll unat_from_be_2)
qed

lemma octets6_cases:
  obtains a b c d e f g h i j k l m n o' p where
    "octets6 s = [a, b, c, d, e, f, g, h, i, j, k, l, m, n, o', p]"
  by (rule that) (simp add: be_bytes_unroll)

definition mld_query_back :: "general_query_config \<Rightarrow> bytes" where
  "mld_query_back c = be_bytes 2 (mld_max_response_code c) @
     [0, 0, 0, 0, 0, 0, 0, 0, 0, 0, 0, 0, 0, 0, 0, 0, 0, 0, robustness_variable c AND 7,
      query_interval_code c, 0, 0]"

definition mld_query_body :: "general_query_config \<Rightarrow> bytes" where
  "mld_query_body c = [130, 0]
     @ be_bytes 2 (icmpv6_checksum (octets6 (mld_source c)) (octets6 ALL_NODES_V6) 58
         ([130, 0] @ [0, 0] @ mld_query_back c))
     @ mld_query_back c"

definition mld_query_header :: "general_query_config \<Rightarrow> bytes" where
  "mld_query_header c = [0x60, 0, 0, 0, 0, 36, 0, 1] @ octets6 (mld_source c) @ octets6 ALL_NODES_V6
     @ [58, 0, 5, 2, 0, 0, 1, 0]"

lemma build_mldv2_closed:
  "build_mldv2_general_query c = mld_query_header c @ mld_query_body c"
  by (simp add: build_mldv2_general_query_def mld_query_header_def mld_query_body_def mld_query_back_def
      query_consts ip_consts Let_def octets_constants be_bytes_2 replicate_unroll
      write_at_prefix[of "octets6 _"])

lemma mld_query_sum:
  "icmpv6_checksum (octets6 (mld_source c)) (octets6 ALL_NODES_V6) 58 (mld_query_body c) = 0"
  unfolding mld_query_body_def by (rule icmpv6_checksum_with_checksum) simp_all

lemma validate_built_mldv2:
  assumes "\<not> ipv6_is_multicast (mld_source c)"
  shows "validate_mldv2_general_query (build_mldv2_general_query c @ pad)
    = Ok (query_interval_code c, 76)"
proof -
  obtain s0 s1 s2 s3 s4 s5 s6 s7 s8 s9 sa sb sc sd se sf where
    s: "octets6 (mld_source c) = [s0, s1, s2, s3, s4, s5, s6, s7, s8, s9, sa, sb, sc, sd, se, sf]"
    by (rule octets6_cases)
  then have src: "from_be [s0, s1, s2, s3, s4, s5, s6, s7, s8, s9, sa, sb, sc, sd, se, sf] = mld_source c"
    using from_be_be_bytes[where n = 16 and w = "mld_source c"] by simp
  obtain i0 i1 m0 m1 where
    b: "mld_query_body c = [130, 0, i0, i1, m0, m1, 0, 0, 0, 0, 0, 0, 0, 0, 0, 0, 0, 0, 0, 0, 0, 0, 0, 0,
          robustness_variable c AND 7, query_interval_code c, 0, 0]"
    by (simp add: mld_query_body_def mld_query_back_def be_bytes_2)
  show ?thesis
    unfolding build_mldv2_closed
    using mld_query_sum[of c] assms
    by (simp add: mld_query_header_def s b validate_mldv2_general_query_def query_consts ip_consts slice_simps
        has_ipv6_router_alert_correct router_alert_built octets_constants src replicate_unroll unat_from_be_2)
qed

section \<open>The interval code is monotone and rounds up\<close>

definition code_secs :: "nat \<Rightarrow> nat" where
  "code_secs n = (if n < 128 then n else (16 + n mod 16) * 2 ^ (n div 16 - 5))"

lemma query_interval_secs: "as_secs (query_interval c) = code_secs (unat c)"
proof (cases "c < 128")
  case True
  then show ?thesis by (simp add: query_interval_def code_secs_def word_less_nat_alt)
next
  case False
  then have c: "128 \<le> unat c" "unat c < 256" using unat_u8_less[of c] by (simp_all add: word_less_nat_alt)
  have "c AND 0x0f = take_bit 4 c" by (simp add: take_bit_eq_mask mask_eq_exp_minus_1)
  then have lo: "unat (c AND 0x0f) = unat c mod 16"
    by (simp only: unsigned_take_bit_eq) (simp add: take_bit_eq_mod)
  have "(c AND 0x0f) OR 0x10 = (c AND 0x0f) + 0x10"
    by (rule sym, rule disjunctive_add_eq_or) (simp add: and.assoc)
  then have m: "unat ((c AND 0x0f) OR 0x10) = 16 + unat c mod 16"
    using lo by (simp add: unat_plus_simple[THEN iffD1] word_le_nat_alt unat_word_ariths)
  have "drop_bit 4 c AND 0x07 = take_bit 3 (drop_bit 4 c)" by (simp add: take_bit_eq_mask mask_eq_exp_minus_1)
  then have "unat (drop_bit 4 c AND 0x07) = unat c div 16 mod 8"
    using c by (simp only: unsigned_take_bit_eq unsigned_drop_bit_eq) (simp add: take_bit_eq_mod drop_bit_eq_div)
  moreover have "8 \<le> unat c div 16" "unat c div 16 < 16"
    using c by (simp_all add: less_eq_div_iff_mult_less_eq div_less_iff_less_mult)
  then have "unat c div 16 mod 8 + 3 = unat c div 16 - 5" by (simp add: le_mod_geq)
  ultimately show ?thesis
    using False c m by (simp add: query_interval_def code_secs_def push_bit_eq_mult)
qed

lemma code_secs_Suc: "code_secs n < code_secs (Suc n)"
proof (cases "n < 127")
  case False
  show ?thesis
  proof (cases "n mod 16 = 15")
    case True
    then have d: "Suc n div 16 = Suc (n div 16)" "Suc n mod 16 = 0" by (simp_all add: div_Suc mod_Suc)
    show ?thesis
    proof (cases "n = 127")
      case False
      then have "8 \<le> n div 16" using \<open>\<not> n < 127\<close> by (simp add: less_eq_div_iff_mult_less_eq)
      then have "Suc (n div 16) - 5 = Suc (n div 16 - 5)" by simp
      then show ?thesis using True d False \<open>\<not> n < 127\<close> by (simp add: code_secs_def)
    qed (simp add: code_secs_def)
  next
    case ne: False
    then have "n \<noteq> 127" "Suc n div 16 = n div 16" "Suc n mod 16 = Suc (n mod 16)"
      by (auto simp: div_Suc mod_Suc)
    then show ?thesis using False by (simp add: code_secs_def)
  qed
qed (simp add: code_secs_def)

lemma code_secs_strict_mono: "strict_mono code_secs"
  by (rule strict_mono_Suc_iff[THEN iffD2]) (simp add: code_secs_Suc)

lemma code_secs_less [simp]: "code_secs a < code_secs b \<longleftrightarrow> a < b" "code_secs a \<le> code_secs b \<longleftrightarrow> a \<le> b"
  by (simp_all add: strict_mono_less[OF code_secs_strict_mono] strict_mono_less_eq[OF code_secs_strict_mono])

lemma interval_codes_eq: "interval_codes = map of_nat [128..<256]"
  by (simp add: interval_codes_def upt_rec_numeral upt_rec[of 0] upt_conv_Cons)

lemma find_map_of_nat_upt:
  assumes "find (\<lambda>c. P (unat c)) (map (of_nat :: nat \<Rightarrow> u8) [m..<256]) = Some c"
  shows "m \<le> unat c \<and> P (unat c) \<and> (\<forall>n. m \<le> n \<and> n < unat c \<longrightarrow> \<not> P n)"
proof -
  have un: "unat (map (of_nat :: nat \<Rightarrow> u8) [m..<256] ! j) = m + j" if "j < 256 - m" for j
    using that by (simp add: unat_of_nat take_bit_nat_eq_self del: of_nat_add)
  from assms obtain i where i: "i < length [m..<256]" "P (unat (map (of_nat :: nat \<Rightarrow> u8) [m..<256] ! i))"
    "c = map of_nat [m..<256] ! i" "\<forall>j < i. \<not> P (unat (map (of_nat :: nat \<Rightarrow> u8) [m..<256] ! j))"
    by (auto simp: find_Some_iff)
  then have c: "unat c = m + i" using un[of i] by simp
  show ?thesis
  proof (intro conjI allI impI)
    fix n assume "m \<le> n \<and> n < unat c"
    then have "n - m < i" "m + (n - m) = n" using c by auto
    with i(1,4) un[of "n - m"] show "\<not> P n" by fastforce
  qed (use i c in \<open>simp_all add: un\<close>)
qed

lemma encode_query_interval_raw:
  assumes "as_secs d \<le> 31744"
  shows "as_secs d \<le> as_secs (query_interval (encode_query_interval d))"
    and "as_secs d \<le> as_secs (query_interval c) \<Longrightarrow> encode_query_interval d \<le> c"
proof -
  let ?s = "as_secs d"
  have "?s \<le> code_secs (unat (encode_query_interval d)) \<and>
    (\<forall>n < unat (encode_query_interval d). code_secs n < ?s)"
  proof (cases "?s < 128")
    case True
    then have "unat (of_nat ?s :: u8) = ?s" by (simp add: unat_of_nat take_bit_nat_eq_self)
    with True show ?thesis by (simp add: encode_query_interval_def code_secs_def)
  next
    case False
    let ?f = "find (\<lambda>c. ?s \<le> code_secs (unat c)) (map (of_nat :: nat \<Rightarrow> u8) [128..<256])"
    have "(of_nat 255 :: u8) \<in> of_nat ` {128..<256}" by (rule imageI) simp
    then have "(255 :: u8) \<in> set (map of_nat [128..<256])" by simp
    moreover have "?s \<le> code_secs (unat (255 :: u8))" using assms by (simp add: code_secs_def)
    ultimately have "?f \<noteq> None" unfolding find_None_iff by blast
    then obtain k where k: "?f = Some k" by blast
    then have e: "encode_query_interval d = k"
      using False by (simp add: encode_query_interval_def query_interval_secs interval_codes_eq)
    note m = find_map_of_nat_upt[OF k]
    have "code_secs n < ?s" if "n < unat k" for n
      using m that False by (cases "n < 128") (auto simp: code_secs_def not_le)
    with m e show ?thesis by simp
  qed
  then show "?s \<le> as_secs (query_interval (encode_query_interval d))"
    and "?s \<le> as_secs (query_interval c) \<Longrightarrow> encode_query_interval d \<le> c"
    by (auto simp: query_interval_secs word_le_nat_alt not_less[symmetric])
qed

section \<open>Properties of General Queries\<close>

definition query_source_ok :: "membership_protocol \<Rightarrow> general_query_config \<Rightarrow> bool" where
  "query_source_ok protocol c = (case protocol of
      Igmpv3 \<Rightarrow> \<not> ipv4_is_multicast (igmp_source c) \<and> \<not> ipv4_is_broadcast (igmp_source c)
    | Mldv2 \<Rightarrow> \<not> ipv6_is_multicast (mld_source c))"

lemma validated_built_query:
  assumes "query_source_ok protocol c"
  shows "validated_general_query protocol (build_general_query protocol c @ pad)
    = Ok (query_interval (query_interval_code c), build_general_query protocol c)"
proof (cases protocol)
  case Igmpv3
  have "length (build_igmpv3_general_query c) = 36"
    by (simp add: build_igmpv3_closed igmp_query_header_def igmp_query_body_def Let_def)
  with Igmpv3 assms show ?thesis
    by (simp add: validated_general_query_def validate_built_igmpv3 query_source_ok_def slice_simps)
next
  case Mldv2
  have "length (build_mldv2_general_query c) = 76"
    by (simp add: build_mldv2_closed mld_query_header_def mld_query_body_def mld_query_back_def)
  with Mldv2 assms show ?thesis
    by (simp add: validated_general_query_def validate_built_mldv2 query_source_ok_def slice_simps)
qed

text \<open>The General Query that a relay or local querier builds is accepted by the validator of
  its family, whatever padding follows it; the validator trims the padding and returns exactly
  the configured interval.  The only condition is that the configured source is not a multicast
  (or IPv4 broadcast) address.\<close>

lemma built_query_validates:
  assumes "query_source_ok protocol c"
  shows "validated_general_query protocol (build_general_query protocol c @ pad)
    = Ok (query_interval (query_interval_code c), build_general_query protocol c)"
  by (rule validated_built_query[OF assms])

text \<open>Query validation never panics on any bytes of the network.\<close>

lemma validate_query_no_panic:
  "no_panic (validated_general_query protocol packet) \<and> no_panic (validate_general_query protocol packet)"
proof -
  have "no_panic (general_query_interval protocol packet)"
    unfolding general_query_interval_def
    by (rule no_panic_bnd[OF no_panic_validated_general_query]) auto
  then show ?thesis
    unfolding validate_general_query_def
    using no_panic_validated_general_query by (auto intro: no_panic_bnd)
qed

text \<open>The interval code is strictly increasing, so that every code is the encoding of its
  own interval; and an interval the code can express is encoded as the least code that is not
  shorter (rounding up, never down).\<close>

lemma query_interval_codes:
  assumes "as_secs d \<le> 31744"
  shows "(query_interval a < query_interval b \<longleftrightarrow> a < b) \<and>
    encode_query_interval (query_interval a) = a \<and>
    as_secs d \<le> as_secs (query_interval (encode_query_interval d)) \<and>
    (as_secs d \<le> as_secs (query_interval c) \<longrightarrow> encode_query_interval d \<le> c)"
proof -
  have q: "query_interval x = from_secs (code_secs (unat x))" for x
    by (simp add: query_interval_secs[symmetric]) (simp add: query_interval_def)
  have top: "as_secs (query_interval a) \<le> 31744"
  proof -
    have "code_secs (unat a) \<le> code_secs 255" using unat_u8_less[of a] by (simp only: code_secs_less)
    also have "code_secs 255 = 31744" by (simp add: code_secs_def)
    finally show ?thesis by (simp add: query_interval_secs)
  qed
  note e = encode_query_interval_raw[OF top]
  have "encode_query_interval (query_interval a) = a"
    using e(1) e(2)[of a] by (simp add: query_interval_secs word_le_nat_alt word_eq_iff_unsigned[where 'a = nat])
  moreover have "query_interval a < query_interval b \<longleftrightarrow> a < b"
    by (simp add: q from_secs_def word_less_nat_alt)
  ultimately show ?thesis using encode_query_interval_raw[OF assms] by simp
qed

end
