(* ===== verification/Membership.thy ===== *)
theory Membership
  imports Query
begin

text \<open>
  IGMP and MLD membership reports, \<open>src/membership.rs\<close>: the parser for IGMPv2, IGMPv3,
  MLDv1 and MLDv2 reports inside their IP datagrams, and the builder of IGMPv3 and MLDv2
  reports.  The two record formats differ in the width of an address only; the loop bodies
  are written once over that width, and the locale \<open>record_codec\<close> holds what both need of
  their address codec.  The lemmas show that parsing and building never panic, that what is
  parsed is well formed and within the limits, and that a built report parses to itself.
\<close>

section \<open>Data\<close>

definition IPV6_HOP_BY_HOP :: u8 where "IPV6_HOP_BY_HOP = 0"
definition ICMPV6_PROTOCOL :: u8 where "ICMPV6_PROTOCOL = 58"
definition IGMPV2_MEMBERSHIP_REPORT :: u8 where "IGMPV2_MEMBERSHIP_REPORT = 0x16"
definition IGMPV2_LEAVE_GROUP :: u8 where "IGMPV2_LEAVE_GROUP = 0x17"
definition IGMPV3_MEMBERSHIP_REPORT :: u8 where "IGMPV3_MEMBERSHIP_REPORT = 0x22"
definition MLDV1_LISTENER_REPORT :: u8 where "MLDV1_LISTENER_REPORT = 131"
definition MLDV1_LISTENER_DONE :: u8 where "MLDV1_LISTENER_DONE = 132"
definition MLDV2_LISTENER_REPORT :: u8 where "MLDV2_LISTENER_REPORT = 143"
definition IGMPV3_REPORT_DESTINATION :: ipv4 where "IGMPV3_REPORT_DESTINATION = 0xE0000016"
definition IGMPV2_ALL_ROUTERS :: ipv4 where "IGMPV2_ALL_ROUTERS = 0xE0000002"
definition MLDV2_REPORT_DESTINATION :: ipv6 where
  "MLDV2_REPORT_DESTINATION = 0xFF020000000000000000000000000016"
definition MLDV1_ALL_ROUTERS :: ipv6 where
  "MLDV1_ALL_ROUTERS = 0xFF020000000000000000000000000002"
definition IPV4_ROUTER_ALERT_HEADER_LEN :: nat where "IPV4_ROUTER_ALERT_HEADER_LEN = 24"

lemmas membership_consts = IPV6_HOP_BY_HOP_def ICMPV6_PROTOCOL_def IGMPV2_MEMBERSHIP_REPORT_def
  IGMPV2_LEAVE_GROUP_def IGMPV3_MEMBERSHIP_REPORT_def MLDV1_LISTENER_REPORT_def
  MLDV1_LISTENER_DONE_def MLDV2_LISTENER_REPORT_def IPV4_ROUTER_ALERT_HEADER_LEN_def

datatype membership_record_kind = ModeIsInclude | ModeIsExclude | ChangeToInclude | ChangeToExclude
  | AllowNewSources | BlockOldSources | LegacyReport | LegacyLeave

record membership_record =
  mr_kind :: membership_record_kind
  mr_group :: ip_addr
  mr_sources :: "ip_addr list"

record membership_report =
  rp_protocol :: membership_protocol
  rp_records :: "membership_record list"

record membership_parse_limits =
  max_records :: nat
  max_sources_per_record :: nat

definition default_parse_limits :: membership_parse_limits where
  "default_parse_limits = \<lparr>max_records = 512, max_sources_per_record = 128\<rparr>"

datatype membership_parse_error =
    MpTruncated string nat nat
  | MpInvalidIpVersion u8
  | MpInvalidIpv4HeaderLength nat
  | MpInvalidTotalLength nat nat
  | MpInvalidMessageLength string nat nat
  | MpInvalidProtocol u8 u8
  | MpInvalidChecksum string
  | MpInvalidHopLimit u8
  | MpFragmentedPacket
  | MpMissingIpv4RouterAlert
  | MpMissingIpv6RouterAlert
  | MpInvalidDestination ip_addr
  | MpInvalidSourceAddress ip_addr
  | MpResourceLimit string nat nat
  | MpUnsupportedMembershipMessage u8
  | MpUnknownRecordType u8
  | MpInvalidMulticastGroup ip_addr
  | MpMixedAddressFamilies

datatype membership_build_error =
    MbEmptyReport
  | MbTooManyRecords nat
  | MbTooManySources nat
  | MbPacketTooLong nat
  | MbUnsupportedRecordKind membership_record_kind
  | MbInvalidMulticastGroup ip_addr
  | MbMixedAddressFamilies
  | MbProtocolAddressFamilyMismatch membership_protocol ip_addr

section \<open>Checks and reads\<close>

definition check_parse_limit :: "string \<Rightarrow> nat \<Rightarrow> nat \<Rightarrow> (membership_parse_error, unit) res" where
  "check_parse_limit resource requested limit =
     (if requested \<le> limit then Ok () else Err (MpResourceLimit resource requested limit))"

definition require_len :: "string \<Rightarrow> bytes \<Rightarrow> nat \<Rightarrow> (membership_parse_error, unit) res" where
  "require_len context bs expected_at_least =
     (if length bs < expected_at_least then Err (MpTruncated context expected_at_least (length bs))
      else Ok ())"

definition require_exact_len :: "string \<Rightarrow> bytes \<Rightarrow> nat \<Rightarrow> (membership_parse_error, unit) res" where
  "require_exact_len context bs expected =
     (if length bs = expected then Ok ()
      else Err (MpInvalidMessageLength context expected (length bs)))"

definition read_ipv4 :: "bytes \<Rightarrow> nat \<Rightarrow> ('e, ipv4) res" where
  "read_ipv4 bs offset =
     bnd (byte_at bs offset) (\<lambda>a. bnd (byte_at bs (offset + 1)) (\<lambda>b.
     bnd (byte_at bs (offset + 2)) (\<lambda>c. bnd (byte_at bs (offset + 3)) (\<lambda>d.
     Ok (from_be [a, b, c, d])))))"

definition read_ipv6 :: "bytes \<Rightarrow> nat \<Rightarrow> ('e, ipv6) res" where
  "read_ipv6 bs offset = bnd (slice bs offset (offset + 16)) (\<lambda>s. Ok (from_be s))"

definition record_kind :: "u8 \<Rightarrow> (membership_parse_error, membership_record_kind) res" where
  "record_kind v =
     (if v = 1 then Ok ModeIsInclude else if v = 2 then Ok ModeIsExclude
      else if v = 3 then Ok ChangeToInclude else if v = 4 then Ok ChangeToExclude
      else if v = 5 then Ok AllowNewSources else if v = 6 then Ok BlockOldSources
      else Err (MpUnknownRecordType v))"

fun encode_record_kind :: "membership_record_kind \<Rightarrow> (membership_build_error, u8) res" where
  "encode_record_kind ModeIsInclude = Ok 1"
| "encode_record_kind ModeIsExclude = Ok 2"
| "encode_record_kind ChangeToInclude = Ok 3"
| "encode_record_kind ChangeToExclude = Ok 4"
| "encode_record_kind AllowNewSources = Ok 5"
| "encode_record_kind BlockOldSources = Ok 6"
| "encode_record_kind LegacyReport = Err (MbUnsupportedRecordKind LegacyReport)"
| "encode_record_kind LegacyLeave = Err (MbUnsupportedRecordKind LegacyLeave)"

definition legacy_record :: "membership_record_kind \<Rightarrow> ip_addr \<Rightarrow> membership_record" where
  "legacy_record kind grp = \<lparr>mr_kind = kind, mr_group = grp, mr_sources = []\<rparr>"

definition validate_record :: "ip_addr \<Rightarrow> ip_addr list \<Rightarrow> (membership_parse_error, unit) res" where
  "validate_record grp sources =
     (if \<not> is_multicast grp then Err (MpInvalidMulticastGroup grp)
      else if \<exists>source \<in> set sources. \<not> same_family grp source \<or> \<not> is_usable_unicast source
      then (case find (\<lambda>source. \<not> is_usable_unicast source) sources of
              Some source \<Rightarrow> Err (MpInvalidSourceAddress source)
            | None \<Rightarrow> Err MpMixedAddressFamilies)
      else Ok ())"

definition validate_records :: "membership_record list \<Rightarrow> (membership_parse_error, unit) res" where
  "validate_records records =
     for_each records (\<lambda>record _. validate_record (mr_group record) (mr_sources record)) ()"

section \<open>Parsing\<close>

text \<open>The body of the two record loops, over the length \<open>hdr\<close> of a record's fixed part, the
  length \<open>alen\<close> of an address and the way one is read: 8, 4 and \<open>read_ipv4\<close> for IGMPv3;
  20, 16 and \<open>read_ipv6\<close> for MLDv2.\<close>

definition parse_group_record ::
  "string \<Rightarrow> nat \<Rightarrow> nat \<Rightarrow> (bytes \<Rightarrow> nat \<Rightarrow> (membership_parse_error, ip_addr) res) \<Rightarrow>
   membership_parse_limits \<Rightarrow> bytes \<Rightarrow> membership_record list \<times> nat \<Rightarrow>
   (membership_parse_error, membership_record list \<times> nat) res" where
  "parse_group_record context hdr alen read_addr limits msg = (\<lambda>(records, offset).
     bnd (slice_from msg offset) (\<lambda>rest.
     bnd (require_len context rest hdr) (\<lambda>_.
     bnd (byte_at msg offset) (\<lambda>k.
     bnd (record_kind k) (\<lambda>kind.
     bnd (byte_at msg (offset + 1)) (\<lambda>aux. let aux_len = unat aux * 4 in
     bnd (be16_at msg (offset + 2)) (\<lambda>n16. let source_count = unat n16 in
     bnd (check_parse_limit ''sources per record'' source_count (max_sources_per_record limits)) (\<lambda>_.
     bnd (read_addr msg (offset + 4)) (\<lambda>grp.
     let sources_offset = offset + hdr;
         record_len = hdr + (source_count * alen) + aux_len
     in
     bnd (require_len context rest record_len) (\<lambda>_.
     bnd (for_each [0..<source_count] (\<lambda>i sources.
            bnd (read_addr msg (sources_offset + (i * alen))) (\<lambda>s. Ok (sources @ [s]))) []) (\<lambda>sources.
     bnd (validate_record grp sources) (\<lambda>_.
     Ok (records @ [\<lparr>mr_kind = kind, mr_group = grp, mr_sources = sources\<rparr>],
         offset + record_len)))))))))))))"

definition read_v4_addr :: "bytes \<Rightarrow> nat \<Rightarrow> ('e, ip_addr) res" where
  "read_v4_addr bs offset = bnd (read_ipv4 bs offset) (\<lambda>a. Ok (V4 a))"

definition read_v6_addr :: "bytes \<Rightarrow> nat \<Rightarrow> ('e, ip_addr) res" where
  "read_v6_addr bs offset = bnd (read_ipv6 bs offset) (\<lambda>a. Ok (V6 a))"

definition parse_igmpv3_records ::
  "bytes \<Rightarrow> membership_parse_limits \<Rightarrow> (membership_parse_error, membership_record list) res" where
  "parse_igmpv3_records igmp limits =
     bnd (require_len ''IGMPv3 Membership Report'' igmp 8) (\<lambda>_.
     bnd (be16_at igmp 6) (\<lambda>n16. let count = unat n16 in
     bnd (check_parse_limit ''records'' count (max_records limits)) (\<lambda>_.
     if (length igmp - 8) div 8 < count
     then Err (MpTruncated ''IGMPv3 group records'' (8 + count * 8) (length igmp)) else
     bnd (for_each [0..<count]
            (\<lambda>_. parse_group_record ''IGMPv3 group record'' 8 4 read_v4_addr limits igmp) ([], 8))
       (\<lambda>(records, offset).
     bnd (require_exact_len ''IGMPv3 Membership Report'' igmp offset) (\<lambda>_. Ok records)))))"

definition parse_mldv2_records ::
  "bytes \<Rightarrow> membership_parse_limits \<Rightarrow> (membership_parse_error, membership_record list) res" where
  "parse_mldv2_records icmp limits =
     bnd (require_len ''MLDv2 Listener Report'' icmp 8) (\<lambda>_.
     bnd (be16_at icmp 6) (\<lambda>n16. let count = unat n16 in
     bnd (check_parse_limit ''records'' count (max_records limits)) (\<lambda>_.
     if (length icmp - 8) div 20 < count
     then Err (MpTruncated ''MLDv2 multicast address records'' (8 + count * 20) (length icmp)) else
     bnd (for_each [0..<count]
            (\<lambda>_. parse_group_record ''MLDv2 multicast address record'' 20 16 read_v6_addr limits icmp)
            ([], 8))
       (\<lambda>(records, offset).
     bnd (require_exact_len ''MLDv2 Listener Report'' icmp offset) (\<lambda>_. Ok records)))))"

text \<open>The dispatch on the message type inside the IGMP and MLD message, and the optional
  hop-by-hop header of IPv6.\<close>

definition igmp_message_records :: "u8 \<Rightarrow> ipv4 \<Rightarrow> bytes \<Rightarrow> membership_parse_limits \<Rightarrow>
   (membership_parse_error, membership_record list) res" where
  "igmp_message_records kind destination igmp limits =
     (if kind = IGMPV2_MEMBERSHIP_REPORT then
        bnd (require_exact_len ''IGMPv2 Membership Report'' igmp 8) (\<lambda>_.
        bnd (read_ipv4 igmp 4) (\<lambda>grp.
        if destination \<noteq> grp then Err (MpInvalidDestination (V4 destination))
        else Ok [legacy_record LegacyReport (V4 grp)]))
      else if kind = IGMPV2_LEAVE_GROUP then
        bnd (require_exact_len ''IGMPv2 Leave Group'' igmp 8) (\<lambda>_.
        if destination \<noteq> IGMPV2_ALL_ROUTERS then Err (MpInvalidDestination (V4 destination))
        else bnd (read_ipv4 igmp 4) (\<lambda>grp. Ok [legacy_record LegacyLeave (V4 grp)]))
      else if kind = IGMPV3_MEMBERSHIP_REPORT then
        (if destination \<noteq> IGMPV3_REPORT_DESTINATION then Err (MpInvalidDestination (V4 destination))
         else parse_igmpv3_records igmp limits)
      else Err (MpUnsupportedMembershipMessage kind))"

definition mld_message_records :: "u8 \<Rightarrow> ipv6 \<Rightarrow> bytes \<Rightarrow> membership_parse_limits \<Rightarrow>
   (membership_parse_error, membership_record list) res" where
  "mld_message_records kind destination icmp limits =
     (if kind = MLDV1_LISTENER_REPORT then
        bnd (require_exact_len ''MLDv1 Listener Report'' icmp 24) (\<lambda>_.
        bnd (read_ipv6 icmp 8) (\<lambda>grp.
        if destination \<noteq> grp then Err (MpInvalidDestination (V6 destination))
        else Ok [legacy_record LegacyReport (V6 grp)]))
      else if kind = MLDV1_LISTENER_DONE then
        bnd (require_exact_len ''MLDv1 Listener Done'' icmp 24) (\<lambda>_.
        if destination \<noteq> MLDV1_ALL_ROUTERS then Err (MpInvalidDestination (V6 destination))
        else bnd (read_ipv6 icmp 8) (\<lambda>grp. Ok [legacy_record LegacyLeave (V6 grp)]))
      else if kind = MLDV2_LISTENER_REPORT then
        (if destination \<noteq> MLDV2_REPORT_DESTINATION then Err (MpInvalidDestination (V6 destination))
         else parse_mldv2_records icmp limits)
      else Err (MpUnsupportedMembershipMessage kind))"

definition parse_hop_by_hop :: "bytes \<Rightarrow> nat \<Rightarrow> u8 \<Rightarrow>
   (membership_parse_error, u8 \<times> nat \<times> bool) res" where
  "parse_hop_by_hop packet total_len next_header =
     (let offset = IPV6_HEADER_LEN in
      if next_header = IPV6_HOP_BY_HOP then
        bnd (slice packet offset total_len) (\<lambda>rest.
        bnd (require_len ''IPv6 hop-by-hop header'' rest 8) (\<lambda>_.
        bnd (byte_at packet offset) (\<lambda>next_header.
        bnd (byte_at packet (offset + 1)) (\<lambda>l. let extension_len = (unat l + 1) * 8 in
        bnd (require_len ''IPv6 hop-by-hop header'' rest extension_len) (\<lambda>_.
        bnd (slice packet (offset + 2) (offset + extension_len)) (\<lambda>options.
        bnd (has_ipv6_router_alert options) (\<lambda>saw_router_alert.
        Ok (next_header, offset + extension_len, saw_router_alert))))))))
      else Ok (next_header, offset, False))"

definition parse_ipv4_membership_report ::
  "bytes \<Rightarrow> membership_parse_limits \<Rightarrow> (membership_parse_error, membership_report) res" where
  "parse_ipv4_membership_report packet limits =
     bnd (require_len ''IPv4 header'' packet IPV4_MIN_HEADER_LEN) (\<lambda>_.
     bnd (byte_at packet 0) (\<lambda>b0. let ihl = ihl_of b0 in
     if ihl < IPV4_MIN_HEADER_LEN then Err (MpInvalidIpv4HeaderLength ihl) else
     bnd (require_len ''IPv4 header'' packet ihl) (\<lambda>_.
     bnd (be16_at packet 2) (\<lambda>l16. let total_len = unat l16 in
     if total_len < ihl \<or> length packet < total_len
     then Err (MpInvalidTotalLength total_len (length packet)) else
     bnd (byte_at packet 9) (\<lambda>proto.
     if proto \<noteq> IGMP_PROTOCOL then Err (MpInvalidProtocol IGMP_PROTOCOL proto) else
     bnd (byte_at packet 8) (\<lambda>ttl.
     if ttl \<noteq> 1 then Err (MpInvalidHopLimit ttl) else
     bnd (be16_at packet 6) (\<lambda>frag.
     if frag AND 0x3fff \<noteq> 0 then Err MpFragmentedPacket else
     bnd (read_ipv4 packet 12) (\<lambda>source.
     if ipv4_is_multicast source \<or> ipv4_is_broadcast source
     then Err (MpInvalidSourceAddress (V4 source)) else
     bnd (if ihl = IPV4_MIN_HEADER_LEN then Ok False
          else bnd (slice packet IPV4_MIN_HEADER_LEN ihl) has_ipv4_router_alert) (\<lambda>alert.
     if \<not> alert then Err MpMissingIpv4RouterAlert else
     bnd (slice packet 0 ihl) (\<lambda>hdr.
     if ones_complement_sum hdr \<noteq> 0xffff then Err (MpInvalidChecksum ''IPv4 header'') else
     bnd (slice packet ihl total_len) (\<lambda>igmp.
     bnd (require_len ''IGMP message'' igmp 8) (\<lambda>_.
     if ones_complement_sum igmp \<noteq> 0xffff then Err (MpInvalidChecksum ''IGMP'') else
     bnd (read_ipv4 packet 16) (\<lambda>destination.
     bnd (byte_at igmp 0) (\<lambda>kind.
     bnd (igmp_message_records kind destination igmp limits) (\<lambda>records.
     bnd (validate_records records) (\<lambda>_.
     Ok \<lparr>rp_protocol = Igmpv3, rp_records = records\<rparr>))))))))))))))))"

definition parse_ipv6_membership_report ::
  "bytes \<Rightarrow> membership_parse_limits \<Rightarrow> (membership_parse_error, membership_report) res" where
  "parse_ipv6_membership_report packet limits =
     bnd (require_len ''IPv6 header'' packet IPV6_HEADER_LEN) (\<lambda>_.
     bnd (be16_at packet 4) (\<lambda>l16.
     let payload_len = unat l16; total_len = IPV6_HEADER_LEN + payload_len in
     if length packet < total_len then Err (MpInvalidTotalLength total_len (length packet)) else
     bnd (byte_at packet 7) (\<lambda>hops.
     if hops \<noteq> 1 then Err (MpInvalidProtocol 1 hops) else
     bnd (read_ipv6 packet 8) (\<lambda>source.
     if ipv6_is_multicast source then Err (MpInvalidSourceAddress (V6 source)) else
     bnd (read_ipv6 packet 24) (\<lambda>destination.
     let src = octets6 source; dst = octets6 destination in
     bnd (byte_at packet 6) (\<lambda>next_header.
     bnd (parse_hop_by_hop packet total_len next_header) (\<lambda>(next_header, offset, saw_router_alert).
     if \<not> saw_router_alert then Err MpMissingIpv6RouterAlert
     else if next_header \<noteq> ICMPV6_PROTOCOL
     then Err (MpInvalidProtocol ICMPV6_PROTOCOL next_header) else
     bnd (slice packet offset total_len) (\<lambda>icmp.
     bnd (require_len ''MLD message'' icmp 8) (\<lambda>_.
     if icmpv6_checksum src dst ICMPV6_PROTOCOL icmp \<noteq> 0 then Err (MpInvalidChecksum ''ICMPv6'') else
     bnd (byte_at icmp 0) (\<lambda>kind.
     bnd (mld_message_records kind destination icmp limits) (\<lambda>records.
     bnd (validate_records records) (\<lambda>_.
     Ok \<lparr>rp_protocol = Mldv2, rp_records = records\<rparr>))))))))))))"

definition parse_membership_report_with_limits ::
  "bytes \<Rightarrow> membership_parse_limits \<Rightarrow> (membership_parse_error, membership_report) res" where
  "parse_membership_report_with_limits packet limits =
     bnd (ok_or (get_byte packet 0) (MpTruncated ''IP packet'' 1 0)) (\<lambda>first.
     let version = drop_bit 4 first in
     if version = 4 then parse_ipv4_membership_report packet limits
     else if version = 6 then parse_ipv6_membership_report packet limits
     else Err (MpInvalidIpVersion version))"

definition parse_membership_report :: "bytes \<Rightarrow> (membership_parse_error, membership_report) res" where
  "parse_membership_report packet = parse_membership_report_with_limits packet default_parse_limits"

section \<open>Building\<close>

definition validate_build_record ::
  "membership_protocol \<Rightarrow> membership_record \<Rightarrow> (membership_build_error, unit) res" where
  "validate_build_record protocol record =
     bnd (encode_record_kind (mr_kind record)) (\<lambda>_.
     if \<not> is_amt_forwardable_group (mr_group record)
     then Err (MbInvalidMulticastGroup (mr_group record))
     else if is_v4 (mr_group record) \<noteq> (protocol = Igmpv3)
     then Err (MbProtocolAddressFamilyMismatch protocol (mr_group record))
     else if 65535 < length (mr_sources record)
     then Err (MbTooManySources (length (mr_sources record)))
     else if \<exists>source \<in> set (mr_sources record).
               \<not> same_family (mr_group record) source \<or> \<not> is_usable_unicast source
     then Err MbMixedAddressFamilies
     else Ok ())"

definition validate_build_records ::
  "membership_protocol \<Rightarrow> membership_record list \<Rightarrow> (membership_build_error, unit) res" where
  "validate_build_records protocol records =
     (if records = [] then Err MbEmptyReport
      else if 65535 < length records then Err (MbTooManyRecords (length records))
      else for_each records (\<lambda>record _. validate_build_record protocol record) ())"

definition USIZE_MAX :: nat where "USIZE_MAX = 2 ^ 64 - 1"

definition checked_mul_sources :: "nat \<Rightarrow> nat \<Rightarrow> (membership_build_error, nat) res" where
  "checked_mul_sources source_count source_len =
     (if 65535 < source_count then Err (MbTooManySources source_count)
      else ok_or (checked_mul_usize source_count source_len) (MbPacketTooLong USIZE_MAX))"

definition records_len ::
  "nat \<Rightarrow> nat \<Rightarrow> membership_record list \<Rightarrow> (membership_build_error, nat) res" where
  "records_len hdr alen records =
     for_each records (\<lambda>record len.
       bnd (checked_mul_sources (length (mr_sources record)) alen) (\<lambda>source_len.
       ok_or (checked_add_usize len (hdr + source_len)) (MbPacketTooLong USIZE_MAX))) 0"

text \<open>The octets of an address of the validated family; the other arm is \<open>unreachable!\<close>.\<close>

fun v4_octets :: "ip_addr \<Rightarrow> ('e, bytes) res" where
  "v4_octets (V4 a) = Ok (octets4 a)"
| "v4_octets (V6 _) = Panic"

fun v6_octets :: "ip_addr \<Rightarrow> ('e, bytes) res" where
  "v6_octets (V6 a) = Ok (octets6 a)"
| "v6_octets (V4 _) = Panic"

definition put_group_record ::
  "nat \<Rightarrow> nat \<Rightarrow> (ip_addr \<Rightarrow> (membership_build_error, bytes) res) \<Rightarrow> membership_record \<Rightarrow>
   bytes \<times> nat \<Rightarrow> (membership_build_error, bytes \<times> nat) res" where
  "put_group_record hdr alen addr_octets record = (\<lambda>(msg, offset).
     bnd (addr_octets (mr_group record)) (\<lambda>grp.
     bnd (encode_record_kind (mr_kind record)) (\<lambda>k.
     bnd (set_byte msg offset k) (\<lambda>msg.
     bnd (copy_from_slice msg (offset + 2) (offset + 4)
            (be_bytes 2 (of_nat (length (mr_sources record)) :: u16))) (\<lambda>msg.
     bnd (copy_from_slice msg (offset + 4) (offset + hdr) grp) (\<lambda>msg.
     for_each (mr_sources record) (\<lambda>source (msg, offset).
       bnd (addr_octets source) (\<lambda>s.
       bnd (copy_from_slice msg offset (offset + alen) s) (\<lambda>msg. Ok (msg, offset + alen))))
       (msg, offset + hdr)))))))"

definition build_igmpv3_membership_report ::
  "membership_record list \<Rightarrow> (membership_build_error, bytes) res" where
  "build_igmpv3_membership_report records =
     bnd (validate_build_records Igmpv3 records) (\<lambda>_.
     bnd (records_len 8 4 records) (\<lambda>records_len.
     let igmp_len = 8 + records_len; total_len = IPV4_ROUTER_ALERT_HEADER_LEN + igmp_len in
     if 65535 < total_len then Err (MbPacketTooLong total_len) else
     let packet = replicate total_len 0;
         packet = write_at 0 [0x46] packet;
         packet = write_at 1 [0xc0] packet;
         packet = write_at 2 (be_bytes 2 (of_nat total_len :: u16)) packet;
         packet = write_at 8 [1] packet;
         packet = write_at 9 [IGMP_PROTOCOL] packet;
         packet = write_at 12 (octets4 0) packet;
         packet = write_at 16 (octets4 IGMPV3_REPORT_DESTINATION) packet;
         packet = write_at 20 [0x94, 0x04, 0, 0] packet;
         igmp = drop IPV4_ROUTER_ALERT_HEADER_LEN packet;
         igmp = write_at 0 [IGMPV3_MEMBERSHIP_REPORT] igmp;
         igmp = write_at 6 (be_bytes 2 (of_nat (length records) :: u16)) igmp
     in
     bnd (for_each records (put_group_record 8 4 v4_octets) (igmp, 8)) (\<lambda>(igmp, offset).
     bnd (copy_from_slice igmp 2 4 (be_bytes 2 (checksum igmp))) (\<lambda>igmp.
     bnd (copy_from_slice packet IPV4_ROUTER_ALERT_HEADER_LEN total_len igmp) (\<lambda>packet.
     bnd (slice packet 0 IPV4_ROUTER_ALERT_HEADER_LEN) (\<lambda>hdr.
     copy_from_slice packet 10 12 (be_bytes 2 (checksum hdr))))))))"

definition build_mldv2_membership_report ::
  "membership_record list \<Rightarrow> (membership_build_error, bytes) res" where
  "build_mldv2_membership_report records =
     bnd (validate_build_records Mldv2 records) (\<lambda>_.
     bnd (records_len 20 16 records) (\<lambda>records_len.
     let mld_len = 8 + records_len; payload_len = IPV6_HOP_BY_HOP_LEN + mld_len in
     if 65535 < payload_len then Err (MbPacketTooLong (IPV6_HEADER_LEN + payload_len)) else
     let total_len = IPV6_HEADER_LEN + payload_len;
         packet = replicate total_len 0;
         packet = write_at 0 [0x60] packet;
         packet = write_at 4 (be_bytes 2 (of_nat payload_len :: u16)) packet;
         packet = write_at 6 [IPV6_HOP_BY_HOP] packet;
         packet = write_at 7 [1] packet;
         source = octets6 0;
         destination = octets6 MLDV2_REPORT_DESTINATION;
         packet = write_at 8 source packet;
         packet = write_at 24 destination packet;
         packet = write_at 40 [ICMPV6_PROTOCOL, 0, 5, 2, 0, 0, 1, 0] packet;
         mld_offset = IPV6_HEADER_LEN + IPV6_HOP_BY_HOP_LEN;
         mld = drop mld_offset packet;
         mld = write_at 0 [MLDV2_LISTENER_REPORT] mld;
         mld = write_at 6 (be_bytes 2 (of_nat (length records) :: u16)) mld
     in
     bnd (for_each records (put_group_record 20 16 v6_octets) (mld, 8)) (\<lambda>(mld, offset).
     bnd (copy_from_slice mld 2 4
            (be_bytes 2 (icmpv6_checksum source destination ICMPV6_PROTOCOL mld))) (\<lambda>mld.
     copy_from_slice packet mld_offset total_len mld))))"

definition build_membership_report ::
  "membership_report \<Rightarrow> (membership_build_error, bytes) res" where
  "build_membership_report report =
     (case rp_protocol report of
        Igmpv3 \<Rightarrow> build_igmpv3_membership_report (rp_records report)
      | Mldv2 \<Rightarrow> build_mldv2_membership_report (rp_records report))"

section \<open>The record codec\<close>

text \<open>What the record loops rely on: the address reader takes \<open>alen\<close> bytes and inverts the
  address writer of the family.\<close>

definition enc_addrs :: "ip_addr list \<Rightarrow> bytes" where
  "enc_addrs sources = concat (map octets sources)"

fun kind_code :: "membership_record_kind \<Rightarrow> u8" where
  "kind_code ModeIsInclude = 1" | "kind_code ModeIsExclude = 2" | "kind_code ChangeToInclude = 3"
| "kind_code ChangeToExclude = 4" | "kind_code AllowNewSources = 5" | "kind_code BlockOldSources = 6"
| "kind_code LegacyReport = 0" | "kind_code LegacyLeave = 0"

definition enc_record :: "membership_record \<Rightarrow> bytes" where
  "enc_record r = [kind_code (mr_kind r), 0] @ be_bytes 2 (of_nat (length (mr_sources r)) :: u16)
     @ octets (mr_group r) @ enc_addrs (mr_sources r)"

definition enc_records :: "membership_record list \<Rightarrow> bytes" where
  "enc_records rs = concat (map enc_record rs)"

definition encodable :: "membership_record_kind \<Rightarrow> bool" where
  "encodable k = (k \<noteq> LegacyReport \<and> k \<noteq> LegacyLeave)"

locale record_codec =
  fixes v4 :: bool and alen :: nat
    and read_addr :: "bytes \<Rightarrow> nat \<Rightarrow> (membership_parse_error, ip_addr) res"
    and addr_octets :: "ip_addr \<Rightarrow> (membership_build_error, bytes) res"
  assumes octets_len: "is_v4 a = v4 \<Longrightarrow> length (octets a) = alen"
    and addr_octets_ok: "is_v4 a = v4 \<Longrightarrow> addr_octets a = Ok (octets a)"
    and read_in_range: "offset + alen \<le> length bs \<Longrightarrow>
      \<exists>a. read_addr bs offset = Ok a \<and> is_v4 a = v4 \<and> octets a = take alen (drop offset bs)"
    and octets_inj: "is_v4 a = v4 \<Longrightarrow> is_v4 b = v4 \<Longrightarrow> octets a = octets b \<Longrightarrow> a = b"
begin

lemma read_octets:
  assumes "is_v4 a = v4"
  shows "read_addr (pre @ octets a @ post) (length pre) = Ok a"
proof -
  have "length pre + alen \<le> length (pre @ octets a @ post)" by (simp add: octets_len[OF assms])
  from read_in_range[OF this] obtain b where
    b: "read_addr (pre @ octets a @ post) (length pre) = Ok b" "is_v4 b = v4"
      "octets b = take alen (drop (length pre) (pre @ octets a @ post))" by blast
  then have "octets b = octets a" by (simp add: octets_len[OF assms])
  from octets_inj[OF b(2) assms this] b(1) show ?thesis by simp
qed

lemma length_enc_addrs:
  "(\<And>s. s \<in> set sources \<Longrightarrow> is_v4 s = v4) \<Longrightarrow> length (enc_addrs sources) = length sources * alen"
  by (induction sources) (simp_all add: enc_addrs_def octets_len)

lemma read_sources:
  assumes "\<And>s. s \<in> set sources \<Longrightarrow> is_v4 s = v4"
  shows "for_each [0..<length sources] (\<lambda>i acc.
      bnd (read_addr (pre @ enc_addrs sources @ post) (length pre + i * alen)) (\<lambda>s. Ok (acc @ [s]))) []
    = Ok sources"
proof -
  have "read_addr (pre @ enc_addrs sources @ post) (length pre + i * alen) = Ok (sources ! i)"
    if i: "i < length sources" for i
  proof -
    let ?a = "take i sources" and ?b = "drop (Suc i) sources"
    have split: "sources = ?a @ sources ! i # ?b" using i by (simp add: id_take_nth_drop)
    have a: "length (enc_addrs ?a) = i * alen"
      using length_enc_addrs[of ?a] assms i by (auto dest: in_set_takeD)
    have "enc_addrs sources = enc_addrs ?a @ octets (sources ! i) @ enc_addrs ?b"
      by (subst split) (simp add: enc_addrs_def)
    then show ?thesis
      using read_octets[of "sources ! i" "pre @ enc_addrs ?a" "enc_addrs ?b @ post"] assms i a by simp
  qed
  then have "for_each [0..<length sources] (\<lambda>i acc.
      bnd (read_addr (pre @ enc_addrs sources @ post) (length pre + i * alen)) (\<lambda>s. Ok (acc @ [s]))) []
    = Ok ([] @ map (\<lambda>i. sources ! i) [0..<length sources])"
    by (intro for_each_collect) simp
  then show ?thesis by (simp add: map_nth)
qed

definition fits_family :: "membership_record \<Rightarrow> bool" where
  "fits_family r \<longleftrightarrow> is_v4 (mr_group r) = v4 \<and> (\<forall>s \<in> set (mr_sources r). is_v4 s = v4)"

lemma length_enc_record:
  "fits_family r \<Longrightarrow> length (enc_record r) = 4 + alen + length (mr_sources r) * alen"
  by (simp add: enc_record_def fits_family_def octets_len length_enc_addrs)

lemma parse_enc_record:
  assumes fam: "fits_family r" and k: "encodable (mr_kind r)" and grp: "is_multicast (mr_group r)"
    and src: "\<And>s. s \<in> set (mr_sources r) \<Longrightarrow> is_usable_unicast s"
    and n: "length (mr_sources r) \<le> 65535" "length (mr_sources r) \<le> max_sources_per_record limits"
  shows "parse_group_record ctx (4 + alen) alen read_addr limits (pre @ enc_record r @ post)
      (records, length pre) = Ok (records @ [r], length (pre @ enc_record r))"
proof -
  let ?n16 = "of_nat (length (mr_sources r)) :: u16"
  have four: "Suc (Suc (Suc (Suc n))) = n + 4" for n by simp
  have un: "unat ?n16 = length (mr_sources r)" using n(1) by (simp add: unat_of_nat_u16)
  obtain n0 n1 where nb: "be_bytes 2 ?n16 = [n0, n1]" by (rule be_bytes_2_cases)
  have be: "(from_be [n0, n1] :: u16) = ?n16"
    using from_be_be_bytes[where n = 2 and w = ?n16] nb by simp
  let ?msg = "pre @ enc_record r @ post"
  have msg: "?msg = pre @ kind_code (mr_kind r) # 0 # n0 # n1 # octets (mr_group r)
      @ enc_addrs (mr_sources r) @ post" by (simp add: enc_record_def nb)
  have len: "length (octets (mr_group r)) = alen"
    "length (enc_addrs (mr_sources r)) = length (mr_sources r) * alen"
    using fam by (auto simp: fits_family_def octets_len intro!: length_enc_addrs)
  have g: "read_addr ?msg (length pre + 4) = Ok (mr_group r)"
    using read_octets[of "mr_group r" "pre @ [kind_code (mr_kind r), 0, n0, n1]"
        "enc_addrs (mr_sources r) @ post"] fam
    by (simp add: msg fits_family_def four)
  have s: "for_each [0..<length (mr_sources r)] (\<lambda>i acc.
      bnd (read_addr ?msg (length pre + (4 + alen) + i * alen)) (\<lambda>s. Ok (acc @ [s]))) [] = Ok (mr_sources r)"
    using read_sources[of "mr_sources r" "pre @ [kind_code (mr_kind r), 0, n0, n1] @ octets (mr_group r)" post] fam
    by (simp add: msg fits_family_def len four ac_simps)
  have kind: "record_kind (kind_code (mr_kind r)) = Ok (mr_kind r)"
    using k by (cases "mr_kind r") (simp_all add: record_kind_def encodable_def)
  have fam': "\<And>s. s \<in> set (mr_sources r) \<Longrightarrow> same_family (mr_group r) s"
    using fam by (simp add: fits_family_def same_family_iff)
  have v: "validate_record (mr_group r) (mr_sources r) = Ok ()"
    using grp src fam' by (auto simp: validate_record_def)
  have len': "length ?msg = length pre + 4 + alen + length (mr_sources r) * alen + length post"
    by (simp add: msg len)
  have nth: "?msg ! length pre = kind_code (mr_kind r)" "?msg ! Suc (length pre) = 0"
    "?msg ! Suc (Suc (length pre)) = n0" "?msg ! Suc (Suc (Suc (length pre))) = n1"
    by (simp_all add: msg nth_append)
  show ?thesis
    unfolding parse_group_record_def Let_def
    by (simp add: slice_simps len' require_len_def nth be un kind g s v n check_parse_limit_def
        length_enc_record[OF fam] del: append_assoc)
qed

text \<open>What the record loop writes and accepts.\<close>

definition record_ok :: "membership_parse_limits \<Rightarrow> membership_record \<Rightarrow> bool" where
  "record_ok limits r \<longleftrightarrow> fits_family r \<and> encodable (mr_kind r) \<and> is_multicast (mr_group r) \<and>
     (\<forall>s \<in> set (mr_sources r). is_usable_unicast s) \<and>
     length (mr_sources r) \<le> 65535 \<and> length (mr_sources r) \<le> max_sources_per_record limits"

lemma parse_enc_records:
  assumes "\<And>r. r \<in> set rs \<Longrightarrow> record_ok limits r" and "length ks = length rs"
  shows "for_each ks (\<lambda>_. parse_group_record ctx (4 + alen) alen read_addr limits
      (pre @ enc_records rs @ post)) (records, length pre)
    = Ok (records @ rs, length (pre @ enc_records rs))"
  using assms
proof (induction rs arbitrary: ks pre records)
  case (Cons r rs)
  note IH = Cons.IH
  from Cons.prems obtain j js where j: "ks = j # js" "length js = length rs" by (cases ks) auto
  have r: "record_ok limits r" using Cons.prems by simp
  have "parse_group_record ctx (4 + alen) alen read_addr limits (pre @ enc_records (r # rs) @ post)
      (records, length pre) = Ok (records @ [r], length (pre @ enc_record r))"
    using parse_enc_record[of r limits ctx pre "enc_records rs @ post" records] r
    by (simp add: record_ok_def enc_records_def)
  moreover note IH[of js "pre @ enc_record r" "records @ [r]"]
  ultimately show ?case using j Cons.prems by (simp add: enc_records_def)
qed (simp add: enc_records_def)

lemma read_sources_ok:
  assumes "base + n * alen \<le> length msg"
  shows "\<exists>sources. for_each [0..<n] (\<lambda>i acc.
      bnd (read_addr msg (base + i * alen)) (\<lambda>s. Ok (acc @ [s]))) [] = Ok sources \<and>
    length sources = n \<and> (\<forall>s \<in> set sources. is_v4 s = v4)"
  using assms
proof (induction n)
  case (Suc n)
  then obtain sources where IH: "for_each [0..<n] (\<lambda>i acc.
      bnd (read_addr msg (base + i * alen)) (\<lambda>s. Ok (acc @ [s]))) [] = Ok sources"
    "length sources = n" "\<forall>s \<in> set sources. is_v4 s = v4" by auto
  have "base + n * alen + alen \<le> length msg" using Suc.prems by simp
  from read_in_range[OF this] obtain a where "read_addr msg (base + n * alen) = Ok a" "is_v4 a = v4" by blast
  with IH show ?case by (simp add: for_each_append)
qed simp

lemma validate_record_Ok:
  "validate_record grp sources = Ok u \<longleftrightarrow>
     is_multicast grp \<and> (\<forall>s \<in> set sources. same_family grp s \<and> is_usable_unicast s)"
  by (auto simp: validate_record_def split: option.splits)

lemma record_kind_Ok: "record_kind v = Ok k \<Longrightarrow> encodable k"
  by (auto simp: record_kind_def encodable_def split: if_splits)

lemma parse_group_record_step:
  assumes "offset \<le> length msg" and pos: "0 < alen"
  shows "no_panic (parse_group_record ctx (4 + alen) alen read_addr limits msg (records, offset))"
    and "parse_group_record ctx (4 + alen) alen read_addr limits msg (records, offset) = Ok (records', offset')
      \<Longrightarrow> offset' \<le> length msg \<and> (\<exists>r. records' = records @ [r] \<and> record_ok limits r)"
proof -
  let ?p = "parse_group_record ctx (4 + alen) alen read_addr limits msg (records, offset)"
  have "no_panic ?p \<and> (\<forall>records' offset'. ?p = Ok (records', offset') \<longrightarrow>
      offset' \<le> length msg \<and> (\<exists>r. records' = records @ [r] \<and> record_ok limits r))"
  proof (cases "offset + (4 + alen) \<le> length msg")
    case False
    then have "require_len ctx (drop offset msg) (4 + alen)
        = Err (MpTruncated ctx (4 + alen) (length msg - offset))"
      by (auto simp: require_len_def)
    then have "?p = Err (MpTruncated ctx (4 + alen) (length msg - offset))"
      using assms by (simp add: parse_group_record_def slice_from_ok)
    then show ?thesis by simp
  next
    case hdr: True
    define n where "n = unat (from_be [msg ! (offset + 2), msg ! Suc (offset + 2)] :: u16)"
    define len where "len = 4 + alen + n * alen + unat (msg ! (offset + 1)) * 4"
    obtain g where g: "read_addr msg (offset + 4) = Ok g" "is_v4 g = v4"
      using read_in_range[of "offset + 4" msg] hdr by auto
    have n16: "n \<le> 65535"
      unfolding n_def using unat_u16_less[of "from_be [msg ! (offset + 2), msg ! Suc (offset + 2)]"] by simp
    have req: "require_len ctx (drop offset msg) (4 + alen) = Ok ()"
      using hdr by (auto simp: require_len_def)
    have req2: "require_len ctx (drop offset msg) len =
        (if offset + len \<le> length msg then Ok () else Err (MpTruncated ctx len (length msg - offset)))"
      using assms(1) by (auto simp: require_len_def)
    have p: "?p = bnd (record_kind (msg ! offset)) (\<lambda>kind.
        bnd (check_parse_limit ''sources per record'' n (max_sources_per_record limits)) (\<lambda>_.
        bnd (require_len ctx (drop offset msg) len) (\<lambda>_.
        bnd (for_each [0..<n] (\<lambda>i sources. bnd (read_addr msg (offset + (4 + alen) + i * alen)) (\<lambda>s. Ok (sources @ [s]))) [])
          (\<lambda>sources. bnd (validate_record g sources) (\<lambda>_.
          Ok (records @ [\<lparr>mr_kind = kind, mr_group = g, mr_sources = sources\<rparr>], offset + len))))))"
      using hdr req by (simp add: parse_group_record_def slice_simps g Let_def n_def len_def)
    show ?thesis
    proof (cases "n \<le> max_sources_per_record limits \<and> offset + len \<le> length msg")
      case True
      then have "offset + (4 + alen) + n * alen \<le> length msg" by (simp add: len_def)
      from read_sources_ok[OF this] obtain sources where s:
        "for_each [0..<n] (\<lambda>i acc. bnd (read_addr msg (offset + (4 + alen) + i * alen)) (\<lambda>s. Ok (acc @ [s]))) [] = Ok sources"
        "length sources = n" "\<forall>s \<in> set sources. is_v4 s = v4" by blast
      show ?thesis
        unfolding p using True s g n16
        by (auto simp: check_parse_limit_def req2 no_panic_iff record_ok_def fits_family_def
            bnd_eq_Ok validate_record_Ok dest: record_kind_Ok)
           (auto simp: record_kind_def validate_record_def split: if_splits option.splits)
    next
      case False
      then show ?thesis
        unfolding p req2 by (auto simp: check_parse_limit_def record_kind_def)
    qed
  qed
  then show "no_panic ?p" and "?p = Ok (records', offset')
      \<Longrightarrow> offset' \<le> length msg \<and> (\<exists>r. records' = records @ [r] \<and> record_ok limits r)" by blast+
qed

lemma parse_group_records:
  assumes "offset \<le> length msg" and "0 < alen" and "\<And>r. r \<in> set records \<Longrightarrow> record_ok limits r"
  shows "no_panic (for_each ks (\<lambda>_. parse_group_record ctx (4 + alen) alen read_addr limits msg)
      (records, offset)) \<and>
    (\<forall>records' offset'. for_each ks (\<lambda>_. parse_group_record ctx (4 + alen) alen read_addr limits msg)
      (records, offset) = Ok (records', offset') \<longrightarrow>
      length records' = length records + length ks \<and> (\<forall>r \<in> set records'. record_ok limits r))"
  using assms(1,3)
proof (induction ks arbitrary: records offset)
  case (Cons k ks)
  note step = parse_group_record_step[OF Cons.prems(1) assms(2), of ctx limits records]
  show ?case
  proof (cases "parse_group_record ctx (4 + alen) alen read_addr limits msg (records, offset)")
    case (Ok ro)
    obtain records1 offset1 where ro: "ro = (records1, offset1)" by force
    from step(2)[OF Ok[unfolded ro]] obtain r where
      r: "offset1 \<le> length msg" "records1 = records @ [r]" "record_ok limits r" by blast
    have "\<And>q. q \<in> set records1 \<Longrightarrow> record_ok limits q" using r Cons.prems(2) by auto
    from Cons.IH[OF r(1) this] show ?thesis by (simp add: Ok ro) (auto simp: r(2))
  qed (use step(1) in simp_all)
qed simp

lemma put_sources:
  assumes "\<And>s. s \<in> set sources \<Longrightarrow> is_v4 s = v4" and "length sources * alen \<le> m"
  shows "for_each sources (\<lambda>source (msg, offset).
       bnd (addr_octets source) (\<lambda>s.
       bnd (copy_from_slice msg offset (offset + alen) s) (\<lambda>msg. Ok (msg, offset + alen))))
       (pre @ replicate m 0, length pre)
     = Ok (pre @ enc_addrs sources @ replicate (m - length sources * alen) 0,
         length pre + length sources * alen)"
  using assms
proof (induction sources arbitrary: pre m)
  case (Cons s sources)
  have len: "length (octets s) = alen" and oct: "addr_octets s = Ok (octets s)"
    using Cons.prems(1) by (simp_all add: octets_len addr_octets_ok)
  have m: "alen \<le> m" "length sources * alen \<le> m - alen" using Cons.prems(2) by simp_all
  have "(copy_from_slice (pre @ replicate m 0) (length pre) (length pre + alen) (octets s)
      :: (membership_build_error, bytes) res) = Ok ((pre @ octets s) @ replicate (m - alen) 0)"
    using m len by (simp add: copy_from_slice_ok)
  then show ?case
    using Cons.IH[of "m - alen" "pre @ octets s"] Cons.prems(1) m
    by (simp add: oct len enc_addrs_def add.assoc)
qed (simp add: enc_addrs_def)

lemma put_enc_record:
  assumes fam: "fits_family r" and k: "encodable (mr_kind r)" and m: "length (enc_record r) \<le> m"
  shows "put_group_record (4 + alen) alen addr_octets r (pre @ replicate m 0, length pre)
     = Ok (pre @ enc_record r @ replicate (m - length (enc_record r)) 0, length pre + length (enc_record r))"
proof -
  obtain n0 n1 where nb: "be_bytes 2 (of_nat (length (mr_sources r)) :: u16) = [n0, n1]"
    by (rule be_bytes_2_cases)
  have g: "addr_octets (mr_group r) = Ok (octets (mr_group r))" "length (octets (mr_group r)) = alen"
    using fam by (simp_all add: fits_family_def octets_len addr_octets_ok)
  have kc: "encode_record_kind (mr_kind r) = Ok (kind_code (mr_kind r))"
    using k by (cases "mr_kind r") (simp_all add: encodable_def)
  let ?q = "m - 4 - alen"
  have len: "4 + alen + length (mr_sources r) * alen \<le> m" using m length_enc_record[OF fam] by simp
  then obtain q where q: "m = 4 + alen + q" by (metis add.assoc le_Suc_ex)
  let ?front = "pre @ [kind_code (mr_kind r), 0, n0, n1] @ octets (mr_group r)"
  have fl: "length ?front = length pre + (4 + alen)" using g by simp
  have rep: "replicate m (0 :: u8) = [0, 0, 0, 0] @ replicate alen 0 @ replicate q 0"
    by (simp add: q replicate_add numeral_eq_Suc)
  have "put_group_record (4 + alen) alen addr_octets r (pre @ replicate m 0, length pre) =
      for_each (mr_sources r) (\<lambda>source (msg, offset).
       bnd (addr_octets source) (\<lambda>s.
       bnd (copy_from_slice msg offset (offset + alen) s) (\<lambda>msg. Ok (msg, offset + alen))))
       (?front @ replicate q 0, length ?front)"
    unfolding fl by (simp add: put_group_record_def g kc nb rep slice_simps list_update_append add.assoc)
  also have "\<dots> = Ok (?front @ enc_addrs (mr_sources r) @ replicate (q - length (mr_sources r) * alen) 0,
      length ?front + length (mr_sources r) * alen)"
    by (rule put_sources) (use fam len q in \<open>auto simp: fits_family_def\<close>)
  also have "\<dots> = Ok (pre @ enc_record r @ replicate (m - length (enc_record r)) 0,
      length pre + length (enc_record r))"
    using q by (simp add: length_enc_record[OF fam] g) (simp add: enc_record_def nb)
  finally show ?thesis .
qed

lemma put_enc_records:
  assumes "\<And>r. r \<in> set rs \<Longrightarrow> fits_family r \<and> encodable (mr_kind r)" and "length (enc_records rs) = m"
  shows "for_each rs (put_group_record (4 + alen) alen addr_octets) (pre @ replicate m 0, length pre)
     = Ok (pre @ enc_records rs, length pre + m)"
  using assms
proof (induction rs arbitrary: pre m)
  case (Cons r rs)
  let ?n = "length (enc_record r)"
  have m: "m = ?n + length (enc_records rs)" using Cons.prems(2) by (simp add: enc_records_def)
  have "put_group_record (4 + alen) alen addr_octets r (pre @ replicate m 0, length pre)
     = Ok (pre @ enc_record r @ replicate (m - ?n) 0, length pre + ?n)"
    by (rule put_enc_record) (use Cons.prems m in auto)
  then show ?case
    using Cons.IH[of "m - ?n" "pre @ enc_record r"] Cons.prems(1) m
    by (simp add: enc_records_def add.assoc)
qed (simp add: enc_records_def)

lemma records_len_enc:
  assumes "\<And>r. r \<in> set rs \<Longrightarrow> fits_family r \<and> length (mr_sources r) \<le> 65535"
    and "alen \<le> 16" and "len + length rs * 2000000 < 2 ^ 64"
  shows "for_each rs (\<lambda>record len.
       bnd (checked_mul_sources (length (mr_sources record)) alen) (\<lambda>source_len.
       ok_or (checked_add_usize len (4 + alen + source_len)) (MbPacketTooLong USIZE_MAX))) len
    = Ok (len + length (enc_records rs))"
  using assms(1,3)
proof (induction rs arbitrary: len)
  case (Cons r rs)
  let ?s = "length (mr_sources r)"
  have r: "fits_family r" "?s \<le> 65535" using Cons.prems(1) by auto
  have "?s * alen \<le> 65535 * 16" using r(2) assms(2) by (intro mult_le_mono) auto
  then have b: "?s * alen \<le> 1048560" by simp
  have le: "\<not> 65535 < ?s" using r(2) by simp
  have n: "length (enc_record r) = 4 + alen + ?s * alen" by (rule length_enc_record[OF r(1)])
  have "checked_mul_usize ?s alen = Some (?s * alen)" using b by (simp add: checked_mul_usize_def)
  moreover have "checked_add_usize len (4 + alen + ?s * alen) = Some (len + length (enc_record r))"
    using b n assms(2) Cons.prems(2) by (simp add: checked_add_usize_def)
  moreover note Cons.IH[of "len + length (enc_record r)"]
  ultimately show ?case
    using le b n assms(2) Cons.prems by (simp add: checked_mul_sources_def enc_records_def)
qed (simp add: enc_records_def)

end

lemma read_ipv4_ok [slice_simps]:
  assumes "offset + 4 \<le> length bs"
  shows "read_ipv4 bs offset = Ok (from_be (take 4 (drop offset bs)))"
proof -
  have "take 4 (drop offset bs) = [bs ! offset, bs ! (offset + 1), bs ! (offset + 2), bs ! (offset + 3)]"
    using assms by (auto intro!: nth_equalityI simp: less_Suc_eq numeral_eq_Suc)
  then show ?thesis using assms by (simp add: read_ipv4_def byte_at_ok)
qed

lemma read_ipv6_ok [slice_simps]:
  "offset + 16 \<le> length bs \<Longrightarrow> read_ipv6 bs offset = Ok (from_be (take 16 (drop offset bs)))"
  by (simp add: read_ipv6_def slice_ok)

interpretation igmp: record_codec True 4 read_v4_addr v4_octets
proof
  fix a b :: ip_addr and bs :: bytes and offset
  show "is_v4 a = True \<Longrightarrow> length (octets a) = 4" by (simp add: length_octets)
  show "is_v4 a = True \<Longrightarrow> v4_octets a = Ok (octets a)" by (cases a) simp_all
  show "offset + 4 \<le> length bs \<Longrightarrow>
      \<exists>a. read_v4_addr bs offset = Ok a \<and> is_v4 a = True \<and> octets a = take 4 (drop offset bs)"
    by (intro exI[of _ "V4 (from_be (take 4 (drop offset bs)))"])
       (simp add: read_v4_addr_def read_ipv4_ok be_bytes_from_be)
  show "is_v4 a = True \<Longrightarrow> is_v4 b = True \<Longrightarrow> octets a = octets b \<Longrightarrow> a = b"
    by (cases a; cases b) (simp_all add: be_bytes_inj)
qed

interpretation mld: record_codec False 16 read_v6_addr v6_octets
proof
  fix a b :: ip_addr and bs :: bytes and offset
  show "is_v4 a = False \<Longrightarrow> length (octets a) = 16" by (simp add: length_octets)
  show "is_v4 a = False \<Longrightarrow> v6_octets a = Ok (octets a)" by (cases a) simp_all
  show "offset + 16 \<le> length bs \<Longrightarrow>
      \<exists>a. read_v6_addr bs offset = Ok a \<and> is_v4 a = False \<and> octets a = take 16 (drop offset bs)"
    by (intro exI[of _ "V6 (from_be (take 16 (drop offset bs)))"])
       (simp add: read_v6_addr_def read_ipv6_ok be_bytes_from_be)
  show "is_v4 a = False \<Longrightarrow> is_v4 b = False \<Longrightarrow> octets a = octets b \<Longrightarrow> a = b"
    by (cases a; cases b) (simp_all add: be_bytes_inj)
qed

section \<open>Panic freedom and soundness of the parser\<close>

lemma no_panic_checks [simp]:
  "no_panic (require_len c bs n)" "no_panic (require_exact_len c bs n)" "no_panic (check_parse_limit s a b)"
  "no_panic (record_kind v)" "no_panic (validate_record g ss)" "no_panic (encode_record_kind k)"
  by (auto simp: require_len_def require_exact_len_def check_parse_limit_def record_kind_def
      validate_record_def split: option.splits) (cases k; simp)

lemma checks_Ok [simp]:
  "require_len c bs n = Ok u \<longleftrightarrow> n \<le> length bs"
  "require_exact_len c bs n = Ok u \<longleftrightarrow> length bs = n"
  "check_parse_limit s a b = Ok u \<longleftrightarrow> a \<le> b"
  by (auto simp: require_len_def require_exact_len_def check_parse_limit_def)

lemma validate_records_Ok:
  "validate_records rs = Ok u \<longleftrightarrow> (\<forall>r \<in> set rs. is_multicast (mr_group r) \<and>
     (\<forall>s \<in> set (mr_sources r). same_family (mr_group r) s \<and> is_usable_unicast s))"
proof (induction rs)
  case (Cons r rs)
  then show ?case by (auto simp: validate_records_def bnd_eq_Ok igmp.validate_record_Ok)
qed (simp add: validate_records_def)

lemma no_panic_validate_records [simp]: "no_panic (validate_records rs)"
  unfolding validate_records_def by (rule no_panic_for_each[where P = "\<lambda>_. True"]) simp_all

text \<open>A parsed report: records of the protocol's family, groups multicast, sources usable,
  counts within the limits.\<close>

definition report_ok :: "membership_parse_limits \<Rightarrow> membership_report \<Rightarrow> bool" where
  "report_ok limits rp \<longleftrightarrow> (\<forall>r \<in> set (rp_records rp).
     is_multicast (mr_group r) \<and> is_v4 (mr_group r) = (rp_protocol rp = Igmpv3) \<and>
     (\<forall>s \<in> set (mr_sources r). same_family (mr_group r) s \<and> is_usable_unicast s) \<and>
     length (mr_sources r) \<le> max_sources_per_record limits) \<and>
     (length (rp_records rp) \<le> max_records limits \<or> length (rp_records rp) = 1)"

lemma parse_igmpv3_records_ok:
  "no_panic (parse_igmpv3_records msg limits)"
  "parse_igmpv3_records msg limits = Ok rs \<Longrightarrow>
     length rs \<le> max_records limits \<and> (\<forall>r \<in> set rs. igmp.record_ok limits r)"
proof -
  note loop = igmp.parse_group_records[where offset = 8 and msg = msg and limits = limits and records = "[]"
      and ctx = "''IGMPv3 group record''", simplified]
  show "no_panic (parse_igmpv3_records msg limits)"
    unfolding parse_igmpv3_records_def Let_def
    by (auto simp: slice_simps intro!: no_panic_bnd loop[THEN conjunct1])
  assume "parse_igmpv3_records msg limits = Ok rs"
  then obtain n offset where n: "n \<le> max_records limits" and
    run: "for_each [0..<n] (\<lambda>_. parse_group_record ''IGMPv3 group record'' 8 4 read_v4_addr limits msg) ([], 8)
      = Ok (rs, offset)" and "8 \<le> length msg"
    unfolding parse_igmpv3_records_def Let_def by (auto simp: bnd_eq_Ok split: if_splits)
  then show "length rs \<le> max_records limits \<and> (\<forall>r \<in> set rs. igmp.record_ok limits r)"
    using loop[of "[0..<n]"] by auto
qed

lemma parse_mldv2_records_ok:
  "no_panic (parse_mldv2_records msg limits)"
  "parse_mldv2_records msg limits = Ok rs \<Longrightarrow>
     length rs \<le> max_records limits \<and> (\<forall>r \<in> set rs. mld.record_ok limits r)"
proof -
  note loop = mld.parse_group_records[where offset = 8 and msg = msg and limits = limits and records = "[]"
      and ctx = "''MLDv2 multicast address record''", simplified]
  show "no_panic (parse_mldv2_records msg limits)"
    unfolding parse_mldv2_records_def Let_def
    by (auto simp: slice_simps intro!: no_panic_bnd loop[THEN conjunct1])
  assume "parse_mldv2_records msg limits = Ok rs"
  then obtain n offset where n: "n \<le> max_records limits" and
    run: "for_each [0..<n] (\<lambda>_. parse_group_record ''MLDv2 multicast address record'' 20 16 read_v6_addr limits msg) ([], 8)
      = Ok (rs, offset)" and "8 \<le> length msg"
    unfolding parse_mldv2_records_def Let_def by (auto simp: bnd_eq_Ok split: if_splits)
  then show "length rs \<le> max_records limits \<and> (\<forall>r \<in> set rs. mld.record_ok limits r)"
    using loop[of "[0..<n]"] by auto
qed

lemma igmp_message_records_ok:
  assumes "8 \<le> length igmp"
  shows "no_panic (igmp_message_records kind destination igmp limits)"
    and "igmp_message_records kind destination igmp limits = Ok rs \<Longrightarrow>
      (\<exists>k g. rs = [legacy_record k (V4 g)]) \<or>
      length rs \<le> max_records limits \<and> (\<forall>r \<in> set rs. igmp.record_ok limits r)"
  using assms parse_igmpv3_records_ok(2)[of igmp limits rs]
  by (auto simp: igmp_message_records_def slice_simps parse_igmpv3_records_ok(1) bnd_eq_Ok
      intro!: no_panic_bnd split: if_splits)

lemma mld_message_records_ok:
  assumes "8 \<le> length icmp"
  shows "no_panic (mld_message_records kind destination icmp limits)"
    and "mld_message_records kind destination icmp limits = Ok rs \<Longrightarrow>
      (\<exists>k g. rs = [legacy_record k (V6 g)]) \<or>
      length rs \<le> max_records limits \<and> (\<forall>r \<in> set rs. mld.record_ok limits r)"
  using assms parse_mldv2_records_ok(2)[of icmp limits rs]
  by (auto simp: mld_message_records_def slice_simps parse_mldv2_records_ok(1) bnd_eq_Ok
      intro!: no_panic_bnd split: if_splits)

lemma parse_hop_by_hop_ok:
  assumes "40 \<le> total_len" and "total_len \<le> length packet"
  shows "no_panic (parse_hop_by_hop packet total_len nh)"
    and "parse_hop_by_hop packet total_len nh = Ok (nh', offset, alert) \<Longrightarrow> offset \<le> total_len"
  using assms
  by (auto simp: parse_hop_by_hop_def ip_consts Let_def slice_simps bnd_eq_Ok intro!: no_panic_bnd split: if_splits)

lemma no_panic_if: "(c \<Longrightarrow> no_panic a) \<Longrightarrow> (\<not> c \<Longrightarrow> no_panic b) \<Longrightarrow> no_panic (if c then a else b)"
  by simp

lemma no_panic_case_prod: "(\<And>a b. p = (a, b) \<Longrightarrow> no_panic (f a b)) \<Longrightarrow> no_panic (case p of (a, b) \<Rightarrow> f a b)"
  by (cases p) simp

lemma no_panic_parse_ipv4_membership_report: "no_panic (parse_ipv4_membership_report packet limits)"
  unfolding parse_ipv4_membership_report_def ip_consts Let_def
  by (intro no_panic_bnd no_panic_if igmp_message_records_ok(1)) (simp_all add: slice_simps slice_eq_Ok)

lemma no_panic_parse_ipv6_membership_report: "no_panic (parse_ipv6_membership_report packet limits)"
  unfolding parse_ipv6_membership_report_def ip_consts Let_def
  by (intro no_panic_bnd no_panic_if no_panic_case_prod mld_message_records_ok(1) parse_hop_by_hop_ok(1))
     (auto simp: slice_simps slice_eq_Ok dest: parse_hop_by_hop_ok(2)[rotated 2])

lemma no_panic_parse_membership_report_raw: "no_panic (parse_membership_report_with_limits packet limits)"
  unfolding parse_membership_report_with_limits_def Let_def
  by (auto simp: no_panic_parse_ipv4_membership_report no_panic_parse_ipv6_membership_report intro!: no_panic_bnd)

lemma parse_ipv4_membership_report_ok:
  assumes "parse_ipv4_membership_report packet limits = Ok rp"
  shows "report_ok limits rp"
proof -
  from assms obtain rs kind destination msg where rp: "rp = \<lparr>rp_protocol = Igmpv3, rp_records = rs\<rparr>"
    and v: "validate_records rs = Ok ()" and msg: "8 \<le> length msg"
      "igmp_message_records kind destination msg limits = Ok rs"
    unfolding parse_ipv4_membership_report_def Let_def
    by (auto simp: bnd_eq_Ok split: if_splits)
  from igmp_message_records_ok(2)[OF msg] v show ?thesis
    by (auto simp: report_ok_def rp validate_records_Ok legacy_record_def igmp.record_ok_def igmp.fits_family_def)
qed

lemma parse_ipv6_membership_report_ok:
  assumes "parse_ipv6_membership_report packet limits = Ok rp"
  shows "report_ok limits rp"
proof -
  from assms obtain rs kind destination msg where rp: "rp = \<lparr>rp_protocol = Mldv2, rp_records = rs\<rparr>"
    and v: "validate_records rs = Ok ()" and msg: "8 \<le> length msg"
      "mld_message_records kind destination msg limits = Ok rs"
    unfolding parse_ipv6_membership_report_def Let_def
    by (auto simp: bnd_eq_Ok split: if_splits)
  from mld_message_records_ok(2)[OF msg] v show ?thesis
    by (auto simp: report_ok_def rp validate_records_Ok legacy_record_def mld.record_ok_def mld.fits_family_def)
qed

lemma parse_membership_report_ok_raw:
  "parse_membership_report_with_limits packet limits = Ok rp \<Longrightarrow> report_ok limits rp"
  unfolding parse_membership_report_with_limits_def Let_def
  by (auto simp: bnd_eq_Ok parse_ipv4_membership_report_ok parse_ipv6_membership_report_ok split: if_splits)

section \<open>Built reports\<close>

text \<open>The datagrams the builders write, in closed form.\<close>

definition report_back :: "membership_record list \<Rightarrow> bytes" where
  "report_back rs = [0, 0] @ be_bytes 2 (of_nat (length rs) :: u16) @ enc_records rs"

definition igmp_report_body :: "membership_record list \<Rightarrow> bytes" where
  "igmp_report_body rs = [0x22, 0] @ be_bytes 2 (checksum ([0x22, 0] @ [0, 0] @ report_back rs)) @ report_back rs"

definition igmp_report_header :: "nat \<Rightarrow> bytes" where
  "igmp_report_header total_len =
     (let front = [0x46, 0xc0] @ be_bytes 2 (of_nat total_len :: u16) @ [0, 0, 0, 0, 1, 2];
          back = [0, 0, 0, 0, 224, 0, 0, 22, 0x94, 4, 0, 0]
      in front @ be_bytes 2 (checksum (front @ [0, 0] @ back)) @ back)"

definition mld_report_dst :: bytes where
  "mld_report_dst = [0xff, 2, 0, 0, 0, 0, 0, 0, 0, 0, 0, 0, 0, 0, 0, 0x16]"

definition mld_report_body :: "membership_record list \<Rightarrow> bytes" where
  "mld_report_body rs = [143, 0] @ be_bytes 2 (icmpv6_checksum (replicate 16 0) mld_report_dst 58
       ([143, 0] @ [0, 0] @ report_back rs)) @ report_back rs"

definition mld_report_header :: "nat \<Rightarrow> bytes" where
  "mld_report_header payload_len = [0x60, 0, 0, 0] @ be_bytes 2 (of_nat payload_len :: u16) @ [0, 1] @
     replicate 16 0 @ mld_report_dst @ [58, 0, 5, 2, 0, 0, 1, 0]"

definition buildable :: "membership_protocol \<Rightarrow> membership_record \<Rightarrow> bool" where
  "buildable protocol r \<longleftrightarrow> encodable (mr_kind r) \<and> is_amt_forwardable_group (mr_group r) \<and>
     is_v4 (mr_group r) = (protocol = Igmpv3) \<and> length (mr_sources r) \<le> 65535 \<and>
     (\<forall>s \<in> set (mr_sources r). same_family (mr_group r) s \<and> is_usable_unicast s)"

lemma is_ok_encode_record_kind: "(\<exists>c. encode_record_kind k = Ok c) \<longleftrightarrow> encodable k"
  by (cases k) (simp_all add: encodable_def)

lemma validate_build_record_Ok: "validate_build_record protocol r = Ok u \<longleftrightarrow> buildable protocol r"
  using is_ok_encode_record_kind[of "mr_kind r"]
  by (auto simp: validate_build_record_def buildable_def bnd_eq_Ok)

lemma for_each_unit_Ok: "for_each xs (\<lambda>x _. f x) () = Ok u \<longleftrightarrow> (\<forall>x \<in> set xs. f x = Ok ())"
  by (induction xs) (auto simp: bnd_eq_Ok)

lemma validate_build_records_Ok:
  "validate_build_records protocol rs = Ok u \<longleftrightarrow>
     rs \<noteq> [] \<and> length rs \<le> 65535 \<and> (\<forall>r \<in> set rs. buildable protocol r)"
  by (auto simp: validate_build_records_def for_each_unit_Ok validate_build_record_Ok)

lemma no_panic_validate_build_records [simp]: "no_panic (validate_build_records protocol rs)"
  unfolding validate_build_records_def validate_build_record_def
  by (auto intro!: no_panic_for_each[where P = "\<lambda>_. True"] no_panic_bnd)

lemma forwardable_multicast: "is_amt_forwardable_group g \<Longrightarrow> is_multicast g"
  by (cases g) (auto simp: Let_def)

lemma octets_report_destinations:
  "octets4 IGMPV3_REPORT_DESTINATION = [224, 0, 0, 22]" "octets6 MLDV2_REPORT_DESTINATION = mld_report_dst"
  "octets4 0 = [0, 0, 0, 0]" "octets6 0 = replicate 16 0"
  by (simp_all add: IGMPV3_REPORT_DESTINATION_def MLDV2_REPORT_DESTINATION_def mld_report_dst_def
      be_bytes_unroll replicate_unroll)

lemma buildable_fits:
  "buildable Igmpv3 r \<Longrightarrow> igmp.fits_family r" "buildable Mldv2 r \<Longrightarrow> mld.fits_family r"
  by (auto simp: buildable_def igmp.fits_family_def mld.fits_family_def same_family_iff)

lemma build_igmpv3_report_closed:
  assumes "rs \<noteq> []" and "length rs \<le> 65535" and "\<And>r. r \<in> set rs \<Longrightarrow> buildable Igmpv3 r"
  shows "build_igmpv3_membership_report rs =
    (let total_len = 32 + length (enc_records rs) in
     if 65535 < total_len then Err (MbPacketTooLong total_len)
     else Ok (igmp_report_header total_len @ igmp_report_body rs))"
proof -
  let ?n = "length (enc_records rs)"
  have v: "validate_build_records Igmpv3 rs = Ok ()" using assms by (auto simp: validate_build_records_Ok)
  have f: "igmp.fits_family r \<and> length (mr_sources r) \<le> 65535 \<and> encodable (mr_kind r)" if "r \<in> set rs" for r
    using assms(3)[OF that] by (simp add: buildable_fits) (simp add: buildable_def)
  have l: "records_len 8 4 rs = Ok ?n"
    using igmp.records_len_enc[of rs 0] f assms(2) by (simp add: records_len_def)
  have p: "for_each rs (put_group_record 8 4 v4_octets) ([0x22, 0, 0, 0, 0, 0, a, b] @ replicate ?n 0, 8)
      = Ok ([0x22, 0, 0, 0, 0, 0, a, b] @ enc_records rs, 8 + ?n)" for a b
  proof -
    have e: "length [0x22, 0, 0, 0, 0, 0, a, b] = 8" "(4 :: nat) + 4 = 8" by simp_all
    show ?thesis using igmp.put_enc_records[of rs ?n "[0x22, 0, 0, 0, 0, 0, a, b]"] f by (simp only: e)
  qed
  show ?thesis
    unfolding build_igmpv3_membership_report_def
    using p by (simp add: v l Let_def membership_consts query_consts replicate_add replicate_unroll
        octets_report_destinations be_bytes_2 slice_simps
        igmp_report_header_def igmp_report_body_def report_back_def add.assoc)
qed

lemma build_mldv2_report_closed:
  assumes "rs \<noteq> []" and "length rs \<le> 65535" and "\<And>r. r \<in> set rs \<Longrightarrow> buildable Mldv2 r"
  shows "build_mldv2_membership_report rs =
    (let payload_len = 16 + length (enc_records rs) in
     if 65535 < payload_len then Err (MbPacketTooLong (40 + payload_len))
     else Ok (mld_report_header payload_len @ mld_report_body rs))"
proof -
  let ?n = "length (enc_records rs)"
  have v: "validate_build_records Mldv2 rs = Ok ()" using assms by (auto simp: validate_build_records_Ok)
  have f: "mld.fits_family r \<and> length (mr_sources r) \<le> 65535 \<and> encodable (mr_kind r)" if "r \<in> set rs" for r
    using assms(3)[OF that] by (simp add: buildable_fits) (simp add: buildable_def)
  have l: "records_len 20 16 rs = Ok ?n"
    using mld.records_len_enc[of rs 0] f assms(2) by (simp add: records_len_def)
  have p: "for_each rs (put_group_record 20 16 v6_octets) ([143, 0, 0, 0, 0, 0, a, b] @ replicate ?n 0, 8)
      = Ok ([143, 0, 0, 0, 0, 0, a, b] @ enc_records rs, 8 + ?n)" for a b
  proof -
    have e: "length [143, 0, 0, 0, 0, 0, a, b] = 8" "(4 :: nat) + 16 = 20" by simp_all
    show ?thesis using mld.put_enc_records[of rs ?n "[143, 0, 0, 0, 0, 0, a, b]"] f by (simp only: e)
  qed
  show ?thesis
    unfolding build_mldv2_membership_report_def
    using p by (simp add: v l Let_def membership_consts query_consts ip_consts replicate_add replicate_unroll
        octets_report_destinations be_bytes_2 slice_simps mld_report_dst_def
        mld_report_header_def mld_report_body_def report_back_def add.assoc)
qed

lemma no_panic_build_membership_report: "no_panic (build_membership_report report)"
proof -
  have "no_panic (build_igmpv3_membership_report rs)" for rs
  proof (cases "validate_build_records Igmpv3 rs")
    case (Ok u)
    then show ?thesis by (simp add: validate_build_records_Ok build_igmpv3_report_closed Let_def)
  next
    case Panic
    then show ?thesis using no_panic_validate_build_records[of Igmpv3 rs] by simp
  qed (simp add: build_igmpv3_membership_report_def)
  moreover have "no_panic (build_mldv2_membership_report rs)" for rs
  proof (cases "validate_build_records Mldv2 rs")
    case (Ok u)
    then show ?thesis by (simp add: validate_build_records_Ok build_mldv2_report_closed Let_def)
  next
    case Panic
    then show ?thesis using no_panic_validate_build_records[of Mldv2 rs] by simp
  qed (simp add: build_mldv2_membership_report_def)
  ultimately show ?thesis by (simp add: build_membership_report_def split: membership_protocol.split)
qed

text \<open>Parsing the records of a built message.\<close>

definition within_limits :: "membership_parse_limits \<Rightarrow> membership_record list \<Rightarrow> bool" where
  "within_limits limits rs \<longleftrightarrow> length rs \<le> max_records limits \<and>
     (\<forall>r \<in> set rs. length (mr_sources r) \<le> max_sources_per_record limits)"

lemma enc_records_count:
  assumes "\<And>r. r \<in> set rs \<Longrightarrow> h \<le> length (enc_record r)"
  shows "length rs * h \<le> length (enc_records rs)"
  using assms
proof (induction rs)
  case (Cons r rs)
  then have "h \<le> length (enc_record r)" "length rs * h \<le> length (enc_records rs)" by simp_all
  then show ?case by (simp add: enc_records_def)
qed (simp add: enc_records_def)

lemma parse_built_igmpv3_records:
  assumes "\<And>r. r \<in> set rs \<Longrightarrow> buildable Igmpv3 r" and "length rs \<le> 65535" and "within_limits limits rs"
    and "length front = 4"
  shows "parse_igmpv3_records (front @ report_back rs) limits = Ok rs"
proof -
  let ?n16 = "of_nat (length rs) :: u16"
  obtain n0 n1 where nb: "be_bytes 2 ?n16 = [n0, n1]" by (rule be_bytes_2_cases)
  have "(from_be [n0, n1] :: u16) = ?n16" using from_be_be_bytes[where n = 2 and w = ?n16] nb by simp
  then have un: "unat (from_be [n0, n1] :: u16) = length rs" using assms(2) by (simp add: unat_of_nat_u16)
  have ok: "igmp.record_ok limits r" if "r \<in> set rs" for r
    using assms(1)[OF that] buildable_fits(1)[OF assms(1)[OF that]] assms(3) that
    by (auto simp: igmp.record_ok_def buildable_def within_limits_def forwardable_multicast)
  have "length rs * 8 \<le> length (enc_records rs)"
    by (rule enc_records_count) (use ok in \<open>simp add: igmp.record_ok_def igmp.length_enc_record\<close>)
  then have count: "\<not> length (enc_records rs) div 8 < length rs" by simp
  let ?pre = "front @ [0, 0, n0, n1]"
  have e: "length ?pre = 8" "(4 :: nat) + 4 = 8" using assms(4) by simp_all
  have "for_each [0..<length rs] (\<lambda>_. parse_group_record ''IGMPv3 group record'' 8 4 read_v4_addr limits
      (?pre @ enc_records rs @ [])) ([], 8) = Ok ([] @ rs, length (?pre @ enc_records rs))"
    using igmp.parse_enc_records[where rs = rs and ks = "[0..<length rs]" and limits = limits and pre = ?pre
        and post = "[]" and records = "[]" and ctx = "''IGMPv3 group record''"] ok
    by (simp only: e length_upt diff_zero refl True_implies_equals)
  moreover have "front @ report_back rs = ?pre @ enc_records rs" by (simp add: report_back_def nb)
  ultimately show ?thesis
    using assms(3,4) count un
    by (simp add: parse_igmpv3_records_def slice_simps nth_append within_limits_def require_len_def
        check_parse_limit_def require_exact_len_def)
qed

lemma parse_built_mldv2_records:
  assumes "\<And>r. r \<in> set rs \<Longrightarrow> buildable Mldv2 r" and "length rs \<le> 65535" and "within_limits limits rs"
    and "length front = 4"
  shows "parse_mldv2_records (front @ report_back rs) limits = Ok rs"
proof -
  let ?n16 = "of_nat (length rs) :: u16"
  obtain n0 n1 where nb: "be_bytes 2 ?n16 = [n0, n1]" by (rule be_bytes_2_cases)
  have "(from_be [n0, n1] :: u16) = ?n16" using from_be_be_bytes[where n = 2 and w = ?n16] nb by simp
  then have un: "unat (from_be [n0, n1] :: u16) = length rs" using assms(2) by (simp add: unat_of_nat_u16)
  have ok: "mld.record_ok limits r" if "r \<in> set rs" for r
    using assms(1)[OF that] buildable_fits(2)[OF assms(1)[OF that]] assms(3) that
    by (auto simp: mld.record_ok_def buildable_def within_limits_def forwardable_multicast)
  have "length rs * 20 \<le> length (enc_records rs)"
    by (rule enc_records_count) (use ok in \<open>simp add: mld.record_ok_def mld.length_enc_record\<close>)
  then have count: "\<not> length (enc_records rs) div 20 < length rs" by simp
  let ?pre = "front @ [0, 0, n0, n1]"
  have e: "length ?pre = 8" "(4 :: nat) + 16 = 20" using assms(4) by simp_all
  have "for_each [0..<length rs] (\<lambda>_. parse_group_record ''MLDv2 multicast address record'' 20 16 read_v6_addr limits
      (?pre @ enc_records rs @ [])) ([], 8) = Ok ([] @ rs, length (?pre @ enc_records rs))"
    using mld.parse_enc_records[where rs = rs and ks = "[0..<length rs]" and limits = limits and pre = ?pre
        and post = "[]" and records = "[]" and ctx = "''MLDv2 multicast address record''"] ok
    by (simp only: e length_upt diff_zero refl True_implies_equals)
  moreover have "front @ report_back rs = ?pre @ enc_records rs" by (simp add: report_back_def nb)
  ultimately show ?thesis
    using assms(3,4) count un
    by (simp add: parse_mldv2_records_def slice_simps nth_append within_limits_def require_len_def
        check_parse_limit_def require_exact_len_def)
qed

lemma validate_buildable: "(\<And>r. r \<in> set rs \<Longrightarrow> buildable protocol r) \<Longrightarrow> validate_records rs = Ok ()"
  unfolding validate_records_Ok by (auto simp: buildable_def forwardable_multicast)

lemma report_back_length: "length (report_back rs) = 4 + length (enc_records rs)"
  by (simp add: report_back_def)

lemma igmp_report_sums:
  "ones_complement_sum (igmp_report_header n) = 0xffff" "ones_complement_sum (igmp_report_body rs) = 0xffff"
  unfolding igmp_report_header_def igmp_report_body_def Let_def
  by (rule ones_complement_sum_with_checksum; simp)+

lemma mld_report_sum:
  "icmpv6_checksum (replicate 16 0) mld_report_dst 58 (mld_report_body rs) = 0"
  unfolding mld_report_body_def by (rule icmpv6_checksum_with_checksum) (simp_all add: mld_report_dst_def)

lemma parse_built_igmpv3_report:
  assumes b: "\<And>r. r \<in> set rs \<Longrightarrow> buildable Igmpv3 r" and "length rs \<le> 65535" and "within_limits limits rs"
    and small: "32 + length (enc_records rs) \<le> 65535"
  shows "parse_ipv4_membership_report
      ((igmp_report_header (32 + length (enc_records rs)) @ igmp_report_body rs) @ pad) limits
    = Ok \<lparr>rp_protocol = Igmpv3, rp_records = rs\<rparr>"
proof -
  define total where "total = 32 + length (enc_records rs)"
  let ?t16 = "of_nat total :: u16"
  obtain t0 t1 where t: "be_bytes 2 ?t16 = [t0, t1]" by (rule be_bytes_2_cases)
  have "(from_be [t0, t1] :: u16) = ?t16" using from_be_be_bytes[where n = 2 and w = ?t16] t by simp
  then have un: "unat (from_be [t0, t1] :: u16) = total"
    using small by (simp add: unat_of_nat_u16 total_def[symmetric])
  have h': "igmp_report_header total = [0x46, 0xc0, t0, t1, 0, 0, 0, 0, 1, 2] @ be_bytes 2 w @
      [0, 0, 0, 0, 224, 0, 0, 22, 0x94, 4, 0, 0]"
    if "w = checksum [0x46, 0xc0, t0, t1, 0, 0, 0, 0, 1, 2, 0, 0, 0, 0, 0, 0, 224, 0, 0, 22, 0x94, 4, 0, 0]" for w
    using that by (simp add: igmp_report_header_def Let_def t)
  obtain h0 h1 where h: "igmp_report_header total = [0x46, 0xc0, t0, t1, 0, 0, 0, 0, 1, 2, h0, h1,
      0, 0, 0, 0, 224, 0, 0, 22, 0x94, 4, 0, 0]"
    using h'[OF refl] by (simp add: be_bytes_2)
  obtain i0 i1 where i: "igmp_report_body rs = [0x22, 0, i0, i1] @ report_back rs"
    by (simp add: igmp_report_body_def be_bytes_2)
  have "parse_igmpv3_records (igmp_report_body rs) limits = Ok rs"
    unfolding i by (rule parse_built_igmpv3_records[OF b assms(2,3)]) simp_all
  then have m: "igmp_message_records 0x22 IGMPV3_REPORT_DESTINATION (igmp_report_body rs) limits = Ok rs"
    by (simp add: igmp_message_records_def membership_consts)
  have len: "length (igmp_report_body rs) = 8 + length (enc_records rs)"
    by (simp add: igmp_report_body_def report_back_length)
  have k: "igmp_report_body rs ! 0 = 0x22" by (simp add: i)
  have dst: "from_be [224, 0, 0, 22] = IGMPV3_REPORT_DESTINATION"
    by (simp add: IGMPV3_REPORT_DESTINATION_def from_be_def)
  have src: "(from_be [0, 0, 0, 0] :: ipv4) = 0" by (simp add: from_be_def)
  have na: "\<not> ipv4_is_multicast 0 \<and> \<not> ipv4_is_broadcast 0" by (simp add: eval_simps)
  have v: "validate_records rs = Ok ()" by (rule validate_buildable[OF b])
  show ?thesis
    unfolding total_def[symmetric] h
    using igmp_report_sums(1)[of total, unfolded h] igmp_report_sums(2)[of rs] len un[unfolded total_def] m k dst v
    by (simp add: parse_ipv4_membership_report_def require_len_def ihl_of_def ip_consts query_consts
        slice_simps src na has_ipv4_router_alert_correct router_alert_built)
qed

lemma parse_built_mldv2_report:
  assumes b: "\<And>r. r \<in> set rs \<Longrightarrow> buildable Mldv2 r" and "length rs \<le> 65535" and "within_limits limits rs"
    and small: "16 + length (enc_records rs) \<le> 65535"
  shows "parse_ipv6_membership_report
      ((mld_report_header (16 + length (enc_records rs)) @ mld_report_body rs) @ pad) limits
    = Ok \<lparr>rp_protocol = Mldv2, rp_records = rs\<rparr>"
proof -
  define plen where "plen = 16 + length (enc_records rs)"
  let ?t16 = "of_nat plen :: u16"
  obtain t0 t1 where t: "be_bytes 2 ?t16 = [t0, t1]" by (rule be_bytes_2_cases)
  have "(from_be [t0, t1] :: u16) = ?t16" using from_be_be_bytes[where n = 2 and w = ?t16] t by simp
  then have un: "unat (from_be [t0, t1] :: u16) = plen"
    using small by (simp add: unat_of_nat_u16 plen_def[symmetric])
  have h: "mld_report_header plen = [0x60, 0, 0, 0, t0, t1, 0, 1,
      0, 0, 0, 0, 0, 0, 0, 0, 0, 0, 0, 0, 0, 0, 0, 0,
      0xff, 2, 0, 0, 0, 0, 0, 0, 0, 0, 0, 0, 0, 0, 0, 0x16, 58, 0, 5, 2, 0, 0, 1, 0]"
    by (simp add: mld_report_header_def t mld_report_dst_def replicate_unroll)
  obtain i0 i1 where i: "mld_report_body rs = [143, 0, i0, i1] @ report_back rs"
    by (simp add: mld_report_body_def be_bytes_2)
  have "parse_mldv2_records (mld_report_body rs) limits = Ok rs"
    unfolding i by (rule parse_built_mldv2_records[OF b assms(2,3)]) simp_all
  then have m: "mld_message_records 143 MLDV2_REPORT_DESTINATION (mld_report_body rs) limits = Ok rs"
    by (simp add: mld_message_records_def membership_consts)
  have len: "length (mld_report_body rs) = 8 + length (enc_records rs)"
    by (simp add: mld_report_body_def report_back_length)
  have k: "mld_report_body rs ! 0 = 143" by (simp add: i)
  have dst: "from_be [0xff, 2, 0, 0, 0, 0, 0, 0, 0, 0, 0, 0, 0, 0, 0, 0x16] = MLDV2_REPORT_DESTINATION"
    by (simp add: MLDV2_REPORT_DESTINATION_def from_be_def)
  have src: "(from_be [0, 0, 0, 0, 0, 0, 0, 0, 0, 0, 0, 0, 0, 0, 0, 0] :: ipv6) = 0" by (simp add: from_be_def)
  have na: "\<not> ipv6_is_multicast 0" by (simp add: eval_simps)
  have v: "validate_records rs = Ok ()" by (rule validate_buildable[OF b])
  have ck: "icmpv6_checksum (octets6 0) (octets6 MLDV2_REPORT_DESTINATION) 58 (mld_report_body rs) = 0"
    using mld_report_sum[of rs] by (simp add: octets_report_destinations)
  show ?thesis
    unfolding plen_def[symmetric] h
    using ck len un[unfolded plen_def] m k dst v
    by (simp add: parse_ipv6_membership_report_def parse_hop_by_hop_def require_len_def ip_consts query_consts
        membership_consts slice_simps src na has_ipv6_router_alert_correct router_alert_built)
qed

lemma parse_built_report_raw:
  assumes "build_membership_report report = Ok packet" and "within_limits limits (rp_records report)"
  shows "parse_membership_report_with_limits (packet @ pad) limits = Ok report"
proof (cases "rp_protocol report")
  case Igmpv3
  let ?rs = "rp_records report"
  have "\<exists>u. validate_build_records Igmpv3 ?rs = Ok u"
    using assms(1) Igmpv3 by (auto simp: build_membership_report_def build_igmpv3_membership_report_def bnd_eq_Ok)
  then have b: "?rs \<noteq> []" "length ?rs \<le> 65535" "\<And>r. r \<in> set ?rs \<Longrightarrow> buildable Igmpv3 r"
    by (auto simp: validate_build_records_Ok)
  have p: "32 + length (enc_records ?rs) \<le> 65535"
    "packet = igmp_report_header (32 + length (enc_records ?rs)) @ igmp_report_body ?rs"
    using assms(1) Igmpv3
    by (auto simp: build_membership_report_def build_igmpv3_report_closed[OF b] Let_def split: if_splits)
  have "packet ! 0 = 0x46" "packet \<noteq> []" by (simp_all add: p(2) igmp_report_header_def Let_def)
  then have "parse_membership_report_with_limits (packet @ pad) limits
      = parse_ipv4_membership_report (packet @ pad) limits"
    by (cases packet) (simp_all add: parse_membership_report_with_limits_def)
  then show ?thesis
    using parse_built_igmpv3_report[OF b(3,2) assms(2) p(1), of pad] Igmpv3 by (simp add: p(2))
next
  case Mldv2
  let ?rs = "rp_records report"
  have "\<exists>u. validate_build_records Mldv2 ?rs = Ok u"
    using assms(1) Mldv2 by (auto simp: build_membership_report_def build_mldv2_membership_report_def bnd_eq_Ok)
  then have b: "?rs \<noteq> []" "length ?rs \<le> 65535" "\<And>r. r \<in> set ?rs \<Longrightarrow> buildable Mldv2 r"
    by (auto simp: validate_build_records_Ok)
  have p: "16 + length (enc_records ?rs) \<le> 65535"
    "packet = mld_report_header (16 + length (enc_records ?rs)) @ mld_report_body ?rs"
    using assms(1) Mldv2
    by (auto simp: build_membership_report_def build_mldv2_report_closed[OF b] Let_def split: if_splits)
  have "packet ! 0 = 0x60" "packet \<noteq> []" by (simp_all add: p(2) mld_report_header_def)
  then have "parse_membership_report_with_limits (packet @ pad) limits
      = parse_ipv6_membership_report (packet @ pad) limits"
    by (cases packet) (simp_all add: parse_membership_report_with_limits_def)
  then show ?thesis
    using parse_built_mldv2_report[OF b(3,2) assms(2) p(1), of pad] Mldv2 by (simp add: p(2))
qed

section \<open>Properties of membership reports\<close>

text \<open>C15: a report that the builder accepts parses back to exactly the same report, whatever
  padding follows the datagram, under every parser limit its record and source counts respect.
  This is the encode/decode agreement between gateway (builder) and relay (parser).\<close>

theorem built_report_parses:
  assumes "build_membership_report report = Ok packet" and "within_limits limits (rp_records report)"
  shows "parse_membership_report_with_limits (packet @ pad) limits = Ok report"
  by (rule parse_built_report_raw[OF assms])

definition sample_report :: membership_report where
  "sample_report = \<lparr>rp_protocol = Igmpv3, rp_records =
     [\<lparr>mr_kind = AllowNewSources, mr_group = V4 0xE8010203, mr_sources = [V4 0xC0000201, V4 0xC0000202]\<rparr>,
      \<lparr>mr_kind = ChangeToExclude, mr_group = V4 0xEF010203, mr_sources = []\<rparr>]\<rparr>"

lemma sample_report_builds: "\<exists>packet. build_membership_report sample_report = Ok packet"
proof -
  let ?rs = "rp_records sample_report"
  have b: "\<And>r. r \<in> set ?rs \<Longrightarrow> buildable Igmpv3 r"
    by (auto simp: sample_report_def buildable_def encodable_def Let_def eval_simps)
  have len: "length (enc_records ?rs) = 24"
    by (simp add: sample_report_def enc_records_def enc_record_def enc_addrs_def)
  show ?thesis
    using build_igmpv3_report_closed[of ?rs, OF _ _ b] len
    by (simp add: build_membership_report_def Let_def) (simp add: sample_report_def)
qed

theorem built_report_parses_witness:
  "\<exists>packet. build_membership_report sample_report = Ok packet \<and>
    parse_membership_report (packet @ [7]) = Ok sample_report"
proof -
  obtain packet where p: "build_membership_report sample_report = Ok packet"
    using sample_report_builds by blast
  have "within_limits default_parse_limits (rp_records sample_report)"
    by (simp add: within_limits_def default_parse_limits_def sample_report_def)
  from built_report_parses[OF p this, of "[7]"] p show ?thesis
    by (auto simp: parse_membership_report_def)
qed

text \<open>C21: the report parser never panics on any bytes, and every report it returns has only
  records of its protocol's address family, with a multicast group, usable unicast sources of
  the same family, at most the configured number of sources each, and at most the configured
  number of records (or the one record of a legacy report).\<close>

theorem parse_report_sound:
  "no_panic (parse_membership_report_with_limits packet limits) \<and>
   (case parse_membership_report_with_limits packet limits of Ok rp \<Rightarrow> report_ok limits rp | _ \<Rightarrow> True)"
  using parse_membership_report_ok_raw[of packet limits]
  by (simp add: no_panic_parse_membership_report_raw split: res.split)

text \<open>Building a report never panics (no \<open>unreachable!\<close> arm and no slice out of range is
  reached), and succeeds exactly when the report is nonempty, every record is encodable for the
  protocol, and the datagram fits 16-bit lengths.\<close>

lemma build_report_accepts:
  "no_panic (build_membership_report report) \<and>
   (is_ok (build_membership_report report) \<longleftrightarrow>
     rp_records report \<noteq> [] \<and> length (rp_records report) \<le> 65535 \<and>
     list_all (buildable (rp_protocol report)) (rp_records report) \<and>
     (case rp_protocol report of Igmpv3 \<Rightarrow> 32 | Mldv2 \<Rightarrow> 16) + length (enc_records (rp_records report)) \<le> 65535)"
proof -
  have "is_ok (build_igmpv3_membership_report rs) \<longleftrightarrow>
      rs \<noteq> [] \<and> length rs \<le> 65535 \<and> list_all (buildable Igmpv3) rs \<and> 32 + length (enc_records rs) \<le> 65535" for rs
  proof (cases "\<exists>u. validate_build_records Igmpv3 rs = Ok u")
    case True
    then have "rs \<noteq> [] \<and> length rs \<le> 65535 \<and> list_all (buildable Igmpv3) rs"
      by (simp add: validate_build_records_Ok list_all_iff)
    then show ?thesis by (simp add: build_igmpv3_report_closed list_all_iff Let_def)
  next
    case False
    then have "\<not> is_ok (build_igmpv3_membership_report rs)"
      by (auto simp: build_igmpv3_membership_report_def is_ok_iff bnd_eq_Ok)
    with False show ?thesis by (auto simp: validate_build_records_Ok list_all_iff)
  qed
  moreover have "is_ok (build_mldv2_membership_report rs) \<longleftrightarrow>
      rs \<noteq> [] \<and> length rs \<le> 65535 \<and> list_all (buildable Mldv2) rs \<and> 16 + length (enc_records rs) \<le> 65535" for rs
  proof (cases "\<exists>u. validate_build_records Mldv2 rs = Ok u")
    case True
    then have "rs \<noteq> [] \<and> length rs \<le> 65535 \<and> list_all (buildable Mldv2) rs"
      by (simp add: validate_build_records_Ok list_all_iff)
    then show ?thesis by (simp add: build_mldv2_report_closed list_all_iff Let_def)
  next
    case False
    then have "\<not> is_ok (build_mldv2_membership_report rs)"
      by (auto simp: build_mldv2_membership_report_def is_ok_iff bnd_eq_Ok)
    with False show ?thesis by (auto simp: validate_build_records_Ok list_all_iff)
  qed
  ultimately show ?thesis
    using no_panic_build_membership_report[of report]
    by (simp add: build_membership_report_def split: membership_protocol.split)
qed

text \<open>An IPv6 report with a wrong hop limit is reported as an invalid protocol number, where
  the IPv4 path has an error of its own for the hop limit.\<close>

lemma ipv6_hop_limit_error:
  assumes "40 + unat (from_be [packet ! 4, packet ! 5] :: u16) \<le> length packet" and "packet ! 7 \<noteq> 1"
  shows "parse_ipv6_membership_report packet limits = Err (MpInvalidProtocol 1 (packet ! 7))"
  using assms by (simp add: parse_ipv6_membership_report_def require_len_def ip_consts slice_simps)

end
