(* ===== verification/Relay_State.thy ===== *)
theory Relay_State
  imports Membership
begin

text \<open>
  The membership state of the relay, \<open>src/state.rs\<close>: per-endpoint group interests, the
  application of report records, the derived indexes (forwarding table, aggregated
  interests, upstream subscriptions, totals) and the limits.  The lemmas show that records
  refine set operations on the wanted (group, source) pairs, that the indexes are exact,
  and that a report over a limit leaves the state as it was.
\<close>

section \<open>Interests and subscriptions\<close>

datatype filter_mode = Include | Exclude

record group_interest =
  gi_mode :: filter_mode
  gi_sources :: "ip_addr btree_set"

definition gi_include :: "ip_addr list \<Rightarrow> group_interest" where
  "gi_include sources = \<lparr>gi_mode = Include, gi_sources = fset_of_list sources\<rparr>"

definition gi_exclude :: "ip_addr list \<Rightarrow> group_interest" where
  "gi_exclude sources = \<lparr>gi_mode = Exclude, gi_sources = fset_of_list sources\<rparr>"

definition wants_source :: "group_interest \<Rightarrow> ip_addr \<Rightarrow> bool" where
  "wants_source i source = (case gi_mode i of
      Include \<Rightarrow> source |\<in>| gi_sources i
    | Exclude \<Rightarrow> source |\<notin>| gi_sources i)"

datatype upstream_subscription = UpstreamSubscription (us_group: ip_addr) (us_source: "ip_addr option")

definition asm :: "ip_addr \<Rightarrow> upstream_subscription" where
  "asm grp = UpstreamSubscription grp None"

definition ssm :: "ip_addr \<Rightarrow> ip_addr \<Rightarrow> upstream_subscription" where
  "ssm grp source = UpstreamSubscription grp (Some source)"

instantiation upstream_subscription :: linorder
begin

fun us_key :: "upstream_subscription \<Rightarrow> ip_addr \<times> ip_addr option" where
  "us_key (UpstreamSubscription g s) = (g, s)"

definition less_eq_upstream_subscription :: "upstream_subscription \<Rightarrow> upstream_subscription \<Rightarrow> bool" where
  "a \<le> b \<longleftrightarrow> us_key a \<le> us_key b"

definition less_upstream_subscription :: "upstream_subscription \<Rightarrow> upstream_subscription \<Rightarrow> bool" where
  "a < b \<longleftrightarrow> us_key a < us_key b"

instance
proof
  fix a b c :: upstream_subscription
  have inj: "us_key x = us_key y \<Longrightarrow> x = y" for x y by (cases x; cases y) simp
  show "a < b \<longleftrightarrow> a \<le> b \<and> \<not> b \<le> a" "a \<le> a" "a \<le> b \<or> b \<le> a"
    by (auto simp: less_eq_upstream_subscription_def less_upstream_subscription_def)
  show "a \<le> b \<Longrightarrow> b \<le> c \<Longrightarrow> a \<le> c" by (auto simp: less_eq_upstream_subscription_def)
  show "a \<le> b \<Longrightarrow> b \<le> a \<Longrightarrow> a = b" by (auto simp: less_eq_upstream_subscription_def intro: inj)
qed

end

section \<open>Applying one record to an endpoint\<close>

text \<open>\<open>EndpointState\<close>: the interests of one endpoint by group.\<close>

type_synonym endpoint_state = "(ip_addr, group_interest) btree_map"

definition insert_all :: "ip_addr list \<Rightarrow> ip_addr btree_set \<Rightarrow> ip_addr btree_set" where
  "insert_all xs s = fold finsert xs s"

definition remove_all :: "ip_addr list \<Rightarrow> ip_addr btree_set \<Rightarrow> ip_addr btree_set" where
  "remove_all xs s = fold (\<lambda>x s. s |-| {|x|}) xs s"

definition apply_groups :: "membership_record \<Rightarrow> endpoint_state \<Rightarrow> endpoint_state" where
  "apply_groups record groups =
     (let grp = mr_group record; sources = mr_sources record in
      case mr_kind record of
        LegacyReport \<Rightarrow> fmupd grp (gi_exclude []) groups
      | LegacyLeave \<Rightarrow> fmdrop grp groups
      | ModeIsInclude \<Rightarrow> if sources = [] then fmdrop grp groups else fmupd grp (gi_include sources) groups
      | ChangeToInclude \<Rightarrow> if sources = [] then fmdrop grp groups else fmupd grp (gi_include sources) groups
      | ModeIsExclude \<Rightarrow> fmupd grp (gi_exclude sources) groups
      | ChangeToExclude \<Rightarrow> fmupd grp (gi_exclude sources) groups
      | AllowNewSources \<Rightarrow>
          if sources = [] then groups else
          let interest = (case fmlookup groups grp of Some i \<Rightarrow> i | None \<Rightarrow> gi_include []) in
          (case gi_mode interest of
             Include \<Rightarrow> fmupd grp (interest\<lparr>gi_sources := insert_all sources (gi_sources interest)\<rparr>) groups
           | Exclude \<Rightarrow> fmupd grp (interest\<lparr>gi_sources := remove_all sources (gi_sources interest)\<rparr>) groups)
      | BlockOldSources \<Rightarrow>
          if sources = [] then groups else
          (case fmlookup groups grp of
             None \<Rightarrow> groups
           | Some interest \<Rightarrow>
               (case gi_mode interest of
                  Include \<Rightarrow>
                    let rest = remove_all sources (gi_sources interest) in
                    if rest = {||} then fmdrop grp groups
                    else fmupd grp (interest\<lparr>gi_sources := rest\<rparr>) groups
                | Exclude \<Rightarrow> fmupd grp (interest\<lparr>gi_sources := insert_all sources (gi_sources interest)\<rparr>) groups)))"

text \<open>The flag says whether the group's interest changed.  The early \<open>return false\<close> of the two
  delta records leaves the map as it was, where the comparison is false too.\<close>

definition apply_record :: "membership_record \<Rightarrow> endpoint_state \<Rightarrow> bool \<times> endpoint_state" where
  "apply_record record groups =
     (let before = fmlookup groups (mr_group record); groups' = apply_groups record groups
      in (before \<noteq> fmlookup groups' (mr_group record), groups'))"

section \<open>Group summaries\<close>

record group_summary =
  gs_include :: "ip_addr btree_set"
  gs_exclude :: "ip_addr btree_set option"

definition empty_summary :: group_summary where
  "empty_summary = \<lparr>gs_include = {||}, gs_exclude = None\<rparr>"

definition summary_apply :: "group_interest \<Rightarrow> group_summary \<Rightarrow> group_summary" where
  "summary_apply interest s = (case gi_mode interest of
      Include \<Rightarrow> s\<lparr>gs_include := insert_all (set_iter (gi_sources interest)) (gs_include s)\<rparr>
    | Exclude \<Rightarrow> (case gs_exclude s of
          Some ex \<Rightarrow> s\<lparr>gs_exclude := Some (ffilter (\<lambda>source. source |\<in>| gi_sources interest) ex)\<rparr>
        | None \<Rightarrow> s\<lparr>gs_exclude := Some (gi_sources interest)\<rparr>))"

definition into_interest :: "group_summary \<Rightarrow> group_interest option" where
  "into_interest s = (case gs_exclude s of
      Some ex \<Rightarrow> Some \<lparr>gi_mode = Exclude, gi_sources = remove_all (set_iter (gs_include s)) ex\<rparr>
    | None \<Rightarrow> if gs_include s \<noteq> {||}
        then Some \<lparr>gi_mode = Include, gi_sources = gs_include s\<rparr> else None)"

section \<open>The relay state\<close>

record relay_state =
  rs_endpoints :: "(socket_addr, endpoint_state) btree_map"
  rs_forwarding :: "(ip_addr, socket_addr btree_set) btree_map"
  rs_aggregate :: "(ip_addr, group_interest) btree_map"
  rs_subscriptions :: "upstream_subscription btree_set"
  rs_total_endpoint_groups :: nat
  rs_total_sources :: nat

definition empty_state :: relay_state where
  "empty_state = \<lparr>rs_endpoints = fmempty, rs_forwarding = fmempty, rs_aggregate = fmempty,
     rs_subscriptions = {||}, rs_total_endpoint_groups = 0, rs_total_sources = 0\<rparr>"

record relay_limits =
  max_endpoints :: nat
  max_endpoints_per_ip :: nat
  max_groups_per_endpoint :: nat
  max_sources_per_group :: nat
  max_total_endpoint_groups :: nat
  max_total_sources :: nat
  max_upstream_subscriptions :: nat
  max_records_per_report :: nat

definition default_relay_limits :: relay_limits where
  "default_relay_limits = \<lparr>max_endpoints = 4096, max_endpoints_per_ip = 256,
     max_groups_per_endpoint = 128, max_sources_per_group = 128, max_total_endpoint_groups = 16384,
     max_total_sources = 65536, max_upstream_subscriptions = 256, max_records_per_report = 512\<rparr>"

datatype state_limit_error = StateLimitError (sle_resource: string) (sle_requested: nat) (sle_limit: nat)

definition check_limit :: "string \<Rightarrow> nat \<Rightarrow> nat \<Rightarrow> (state_limit_error, unit) res" where
  "check_limit resource requested limit =
     (if requested \<le> limit then Ok () else Err (StateLimitError resource requested limit))"

definition near_limit :: "nat \<Rightarrow> nat \<Rightarrow> bool" where
  "near_limit v limit \<longleftrightarrow> limit \<noteq> 0 \<and> limit - limit div 10 \<le> v"

subsection \<open>Rebuilding the indexes\<close>

definition or_default :: "'v \<Rightarrow> 'k \<Rightarrow> ('v \<Rightarrow> 'v) \<Rightarrow> ('k, 'v) btree_map \<Rightarrow> ('k, 'v) btree_map" where
  "or_default d k f m = fmupd k (f (case fmlookup m k of Some v \<Rightarrow> v | None \<Rightarrow> d)) m"

type_synonym index_acc =
  "(ip_addr, socket_addr btree_set) btree_map \<times> nat \<times> (ip_addr, group_summary) btree_map"

definition index_interest :: "socket_addr \<Rightarrow> ip_addr \<times> group_interest \<Rightarrow> index_acc \<Rightarrow> index_acc" where
  "index_interest endpoint = (\<lambda>(grp, interest) (forwarding, total_sources, groups).
     (or_default {||} grp (finsert endpoint) forwarding,
      total_sources + fcard (gi_sources interest),
      or_default empty_summary grp (summary_apply interest) groups))"

definition build_aggregate :: "(ip_addr, group_summary) btree_map \<Rightarrow> (ip_addr, group_interest) btree_map" where
  "build_aggregate groups = fold (\<lambda>(grp, summary) agg. case into_interest summary of
     Some interest \<Rightarrow> fmupd grp interest agg | None \<Rightarrow> agg) (map_iter groups) fmempty"

definition build_subscriptions :: "(ip_addr, group_interest) btree_map \<Rightarrow> upstream_subscription btree_set" where
  "build_subscriptions aggregate = fold (\<lambda>(grp, interest) subs. case gi_mode interest of
       Exclude \<Rightarrow> finsert (asm grp) subs
     | Include \<Rightarrow> fold (\<lambda>source subs. finsert (ssm grp source) subs) (set_iter (gi_sources interest)) subs)
     (map_iter aggregate) {||}"

definition rebuild_indexes :: "relay_state \<Rightarrow> relay_state" where
  "rebuild_indexes st =
     (case fold (\<lambda>(endpoint, groups) (total_groups, acc).
              (total_groups + fcard (fmdom groups), fold (index_interest endpoint) (map_iter groups) acc))
            (map_iter (rs_endpoints st)) (0, fmempty, 0, fmempty) of
        (total_groups, forwarding, total_sources, groups) \<Rightarrow>
          let aggregate = build_aggregate groups in
          st\<lparr>rs_forwarding := forwarding, rs_aggregate := aggregate,
             rs_subscriptions := build_subscriptions aggregate,
             rs_total_endpoint_groups := total_groups, rs_total_sources := total_sources\<rparr>)"

subsection \<open>Operations\<close>

text \<open>The records of a report in order, counting those that changed something.\<close>

fun apply_records :: "membership_record list \<Rightarrow> endpoint_state \<Rightarrow> nat \<times> endpoint_state" where
  "apply_records [] groups = (0, groups)"
| "apply_records (record # records) groups =
     (case apply_record record groups of (changed, groups) \<Rightarrow>
        (case apply_records records groups of (applied, groups) \<Rightarrow>
           (if changed then applied + 1 else applied, groups)))"

definition preview_report :: "relay_state \<Rightarrow> socket_addr \<Rightarrow> membership_report \<Rightarrow> nat \<times> bool" where
  "preview_report st endpoint report =
     (if rp_records report = [] then (0, False) else
      let current = fmlookup (rs_endpoints st) endpoint in
      case apply_records (rp_records report) (case current of Some g \<Rightarrow> g | None \<Rightarrow> fmempty) of
        (applied, candidate) \<Rightarrow>
          (applied, if candidate = fmempty then current \<noteq> None else current \<noteq> Some candidate))"

definition apply_report :: "relay_state \<Rightarrow> socket_addr \<Rightarrow> membership_report \<Rightarrow> nat \<times> relay_state" where
  "apply_report st endpoint report =
     (if rp_records report = [] then (0, st) else
      case apply_records (rp_records report)
             (case fmlookup (rs_endpoints st) endpoint of Some g \<Rightarrow> g | None \<Rightarrow> fmempty) of
        (applied, groups) \<Rightarrow>
          let endpoints = fmupd endpoint groups (rs_endpoints st);
              endpoints = (if groups = fmempty then fmdrop endpoint endpoints else endpoints)
          in (applied, rebuild_indexes (st\<lparr>rs_endpoints := endpoints\<rparr>)))"

definition endpoint_count_for_ip :: "relay_state \<Rightarrow> ip_addr \<Rightarrow> nat" where
  "endpoint_count_for_ip st address =
     length (filter (\<lambda>endpoint. sock_ip endpoint = address) (map fst (map_iter (rs_endpoints st))))"

definition max_group_sources :: "endpoint_state option \<Rightarrow> nat" where
  "max_group_sources endpoint_state = (case endpoint_state of None \<Rightarrow> 0
     | Some groups \<Rightarrow> fold max (map (\<lambda>(_, interest). fcard (gi_sources interest)) (map_iter groups)) 0)"

definition check_state_limits :: "relay_state \<Rightarrow> socket_addr \<Rightarrow> relay_limits \<Rightarrow> (state_limit_error, unit) res" where
  "check_state_limits st endpoint limits =
     (let endpoint_state = fmlookup (rs_endpoints st) endpoint in
      bnd (check_limit ''endpoints'' (fcard (fmdom (rs_endpoints st))) (max_endpoints limits)) (\<lambda>_.
      bnd (check_limit ''endpoints per source IP'' (endpoint_count_for_ip st (sock_ip endpoint))
             (max_endpoints_per_ip limits)) (\<lambda>_.
      bnd (check_limit ''groups per endpoint''
             (case endpoint_state of Some groups \<Rightarrow> fcard (fmdom groups) | None \<Rightarrow> 0)
             (max_groups_per_endpoint limits)) (\<lambda>_.
      bnd (check_limit ''sources per endpoint group'' (max_group_sources endpoint_state)
             (max_sources_per_group limits)) (\<lambda>_.
      bnd (check_limit ''total endpoint groups'' (rs_total_endpoint_groups st)
             (max_total_endpoint_groups limits)) (\<lambda>_.
      bnd (check_limit ''total sources'' (rs_total_sources st) (max_total_sources limits)) (\<lambda>_.
      check_limit ''upstream subscriptions'' (fcard (rs_subscriptions st))
        (max_upstream_subscriptions limits))))))))"

definition apply_report_limited :: "relay_state \<Rightarrow> socket_addr \<Rightarrow> membership_report \<Rightarrow> relay_limits \<Rightarrow>
   (state_limit_error, nat) res \<times> relay_state" where
  "apply_report_limited st endpoint report limits =
     (case bnd (check_limit ''records per report'' (length (rp_records report))
                  (max_records_per_report limits)) (\<lambda>_.
           for_each (rp_records report) (\<lambda>record _.
             check_limit ''sources per group'' (length (mr_sources record)) (max_sources_per_group limits)) ()) of
        Err error \<Rightarrow> (Err error, st)
      | Panic \<Rightarrow> (Panic, st)
      | Ok _ \<Rightarrow>
          let previous = fmlookup (rs_endpoints st) endpoint in
          (case apply_report st endpoint report of (applied, st') \<Rightarrow>
             (case check_state_limits st' endpoint limits of
                Ok _ \<Rightarrow> (Ok applied, st')
              | Panic \<Rightarrow> (Panic, st')
              | Err error \<Rightarrow>
                  (Err error, rebuild_indexes (st'\<lparr>rs_endpoints :=
                     (case previous of Some p \<Rightarrow> fmupd endpoint p (rs_endpoints st')
                      | None \<Rightarrow> fmdrop endpoint (rs_endpoints st'))\<rparr>)))))"

definition remove_endpoint :: "relay_state \<Rightarrow> socket_addr \<Rightarrow> bool \<times> relay_state" where
  "remove_endpoint st endpoint =
     (let removed = fmlookup (rs_endpoints st) endpoint \<noteq> None;
          st' = st\<lparr>rs_endpoints := fmdrop endpoint (rs_endpoints st)\<rparr>
      in (removed, if removed then rebuild_indexes st' else st'))"

definition contains_endpoint :: "relay_state \<Rightarrow> socket_addr \<Rightarrow> bool" where
  "contains_endpoint st endpoint = (fmlookup (rs_endpoints st) endpoint \<noteq> None)"

definition endpoint_count :: "relay_state \<Rightarrow> nat" where
  "endpoint_count st = fcard (fmdom (rs_endpoints st))"

definition is_ip_near_endpoint_limit :: "relay_state \<Rightarrow> ip_addr \<Rightarrow> nat \<Rightarrow> bool" where
  "is_ip_near_endpoint_limit st address limit = near_limit (endpoint_count_for_ip st address) limit"

definition endpoint_interest :: "relay_state \<Rightarrow> socket_addr \<Rightarrow> ip_addr \<Rightarrow> group_interest option" where
  "endpoint_interest st endpoint grp =
     (case fmlookup (rs_endpoints st) endpoint of Some groups \<Rightarrow> fmlookup groups grp | None \<Rightarrow> None)"

definition endpoint_has_interests :: "relay_state \<Rightarrow> socket_addr \<Rightarrow> bool" where
  "endpoint_has_interests st endpoint =
     (case fmlookup (rs_endpoints st) endpoint of Some groups \<Rightarrow> groups \<noteq> fmempty | None \<Rightarrow> False)"

definition matching_endpoints :: "relay_state \<Rightarrow> ip_addr \<Rightarrow> ip_addr \<Rightarrow> socket_addr list" where
  "matching_endpoints st source grp =
     (case fmlookup (rs_forwarding st) grp of
        None \<Rightarrow> []
      | Some endpoints \<Rightarrow> filter (\<lambda>endpoint. case endpoint_interest st endpoint grp of
            Some interest \<Rightarrow> wants_source interest source | None \<Rightarrow> False) (set_iter endpoints))"

definition upstream_subscriptions :: "relay_state \<Rightarrow> upstream_subscription list" where
  "upstream_subscriptions st = set_iter (rs_subscriptions st)"

definition has_ssm_interest :: "relay_state \<Rightarrow> ip_addr \<Rightarrow> ip_addr \<Rightarrow> bool" where
  "has_ssm_interest st source grp =
     (case fmlookup (rs_forwarding st) grp of
        None \<Rightarrow> False
      | Some endpoints \<Rightarrow> list_ex (\<lambda>endpoint. case endpoint_interest st endpoint grp of
            Some interest \<Rightarrow> gi_mode interest = Include \<and> source |\<in>| gi_sources interest
          | None \<Rightarrow> False) (set_iter endpoints))"

definition aggregate_interests :: "relay_state \<Rightarrow> (ip_addr \<times> group_interest) list" where
  "aggregate_interests st = map_iter (rs_aggregate st)"

definition is_near_limits :: "relay_state \<Rightarrow> relay_limits \<Rightarrow> bool" where
  "is_near_limits st limits \<longleftrightarrow>
     near_limit (fcard (fmdom (rs_endpoints st))) (max_endpoints limits)
     \<or> near_limit (rs_total_endpoint_groups st) (max_total_endpoint_groups limits)
     \<or> near_limit (rs_total_sources st) (max_total_sources limits)
     \<or> near_limit (fcard (rs_subscriptions st)) (max_upstream_subscriptions limits)"

section \<open>Records as operations on wanted pairs\<close>

lemma fset_insert_all [simp]: "x |\<in>| insert_all xs s \<longleftrightarrow> x \<in> set xs \<or> x |\<in>| s"
  unfolding insert_all_def by (induction xs arbitrary: s) auto

lemma fset_remove_all [simp]: "x |\<in>| remove_all xs s \<longleftrightarrow> x \<notin> set xs \<and> x |\<in>| s"
  unfolding remove_all_def by (induction xs arbitrary: s) auto

definition wants :: "endpoint_state \<Rightarrow> ip_addr \<Rightarrow> ip_addr \<Rightarrow> bool" where
  "wants groups grp source = (case fmlookup groups grp of Some i \<Rightarrow> wants_source i source | None \<Rightarrow> False)"

text \<open>The meaning of a record kind, as an operation on the set of sources wanted in its group.\<close>

fun record_meaning :: "membership_record_kind \<Rightarrow> ip_addr set \<Rightarrow> ip_addr set \<Rightarrow> ip_addr set" where
  "record_meaning LegacyReport S W = UNIV"
| "record_meaning LegacyLeave S W = {}"
| "record_meaning ModeIsInclude S W = S"
| "record_meaning ChangeToInclude S W = S"
| "record_meaning ModeIsExclude S W = - S"
| "record_meaning ChangeToExclude S W = - S"
| "record_meaning AllowNewSources S W = W \<union> S"
| "record_meaning BlockOldSources S W = W - S"

lemma apply_groups_refines_raw:
  "{s. wants (apply_groups r groups) grp s} =
     (if grp = mr_group r then record_meaning (mr_kind r) (set (mr_sources r)) {s. wants groups grp s}
      else {s. wants groups grp s})"
proof (cases "mr_kind r")
  case BlockOldSources
  show ?thesis
  proof (cases "fmlookup groups (mr_group r)")
    case (Some i)
    then show ?thesis
    proof (cases "gi_mode i = Include \<and> remove_all (mr_sources r) (gi_sources i) = {||}")
      case True
      then have "\<And>x. x |\<in>| gi_sources i \<Longrightarrow> x \<in> set (mr_sources r)"
        by (metis fempty_iff fset_remove_all)
      with True Some BlockOldSources show ?thesis
        by (auto simp: wants_def apply_groups_def wants_source_def Let_def)
    next
      case False
      with Some BlockOldSources show ?thesis
        by (cases "gi_mode i") (auto simp: wants_def apply_groups_def wants_source_def Let_def)
    qed
  qed (use BlockOldSources in \<open>auto simp: wants_def apply_groups_def Let_def\<close>)
next
  case AllowNewSources
  then show ?thesis
    by (cases "fmlookup groups (mr_group r)")
       (auto simp: wants_def apply_groups_def wants_source_def Let_def gi_include_def fset_of_list_elem
         split: filter_mode.splits)
qed (auto simp: wants_def apply_groups_def wants_source_def Let_def gi_include_def gi_exclude_def fset_of_list_elem)

section \<open>The indexes\<close>

text \<open>All interests of the state, as triples in iteration order.\<close>

definition interests :: "(socket_addr, endpoint_state) btree_map \<Rightarrow> (socket_addr \<times> ip_addr \<times> group_interest) list" where
  "interests endpoints = concat (map (\<lambda>(e, groups). map (\<lambda>(g, i). (e, g, i)) (map_iter groups)) (map_iter endpoints))"

lemma interests_iff:
  "(e, g, i) \<in> set (interests endpoints) \<longleftrightarrow>
     (\<exists>groups. fmlookup endpoints e = Some groups \<and> fmlookup groups g = Some i)"
proof -
  have "(e, g, i) \<in> set (interests endpoints) \<longleftrightarrow>
      (\<exists>groups. (e, groups) \<in> set (map_iter endpoints) \<and> (g, i) \<in> set (map_iter groups))"
    unfolding interests_def by force
  then show ?thesis by (simp add: map_iter_get)
qed

definition index_all :: "(socket_addr \<times> ip_addr \<times> group_interest) list \<Rightarrow> index_acc" where
  "index_all L = fold (\<lambda>(e, g, i). index_interest e (g, i)) L (fmempty, 0, fmempty)"

lemma index_fold:
  "fold (\<lambda>(endpoint, groups) (n, acc). (n + fcard (fmdom groups), fold (index_interest endpoint) (map_iter groups) acc))
     es (n, acc) =
   (n + sum_list (map (\<lambda>(_, groups). fcard (fmdom groups)) es),
    fold (\<lambda>(e, g, i). index_interest e (g, i)) (concat (map (\<lambda>(e, groups). map (\<lambda>(g, i). (e, g, i)) (map_iter groups)) es)) acc)"
proof (induction es arbitrary: n acc)
  case (Cons ep es)
  obtain e groups where ep: "ep = (e, groups)" by force
  have "fold (index_interest e) xs acc = fold (\<lambda>(e, g, i). index_interest e (g, i)) (map (\<lambda>(g, i). (e, g, i)) xs) acc"
    for xs acc by (induction xs arbitrary: acc) auto
  with Cons show ?case by (simp add: ep)
qed simp

lemma rebuild_indexes_eq:
  "rebuild_indexes st =
     (case index_all (interests (rs_endpoints st)) of (forwarding, total_sources, groups) \<Rightarrow>
        st\<lparr>rs_forwarding := forwarding, rs_aggregate := build_aggregate groups,
           rs_subscriptions := build_subscriptions (build_aggregate groups),
           rs_total_endpoint_groups := sum_list (map (\<lambda>(_, groups). fcard (fmdom groups)) (map_iter (rs_endpoints st))),
           rs_total_sources := total_sources\<rparr>)"
  unfolding rebuild_indexes_def index_fold index_all_def interests_def
  by (simp add: Let_def split: prod.splits)

lemma rebuild_indexes_simps [simp]:
  "rs_endpoints (rebuild_indexes st) = rs_endpoints st"
  "rebuild_indexes (rebuild_indexes st) = rebuild_indexes st"
  by (simp_all add: rebuild_indexes_eq split: prod.splits)

lemma rebuild_indexes_cong: "rs_endpoints st = rs_endpoints st' \<Longrightarrow> rebuild_indexes st = rebuild_indexes st'"
  by (cases st; cases st') (simp add: rebuild_indexes_eq split: prod.splits)

text \<open>What the fold over the interests has computed for one group.\<close>

definition summary_of :: "(socket_addr \<times> ip_addr \<times> group_interest) list \<Rightarrow> ip_addr \<Rightarrow> group_summary \<Rightarrow> bool" where
  "summary_of L g s \<longleftrightarrow>
     (\<forall>x. x |\<in>| gs_include s \<longleftrightarrow> (\<exists>e i. (e, g, i) \<in> set L \<and> gi_mode i = Include \<and> x |\<in>| gi_sources i)) \<and>
     (case gs_exclude s of
        None \<Rightarrow> (\<forall>e i. (e, g, i) \<in> set L \<longrightarrow> gi_mode i = Include)
      | Some ex \<Rightarrow> (\<exists>e i. (e, g, i) \<in> set L \<and> gi_mode i = Exclude) \<and>
          (\<forall>x. x |\<in>| ex \<longleftrightarrow> (\<forall>e i. (e, g, i) \<in> set L \<longrightarrow> gi_mode i = Exclude \<longrightarrow> x |\<in>| gi_sources i)))"

lemma summary_of_snoc:
  assumes "summary_of L g s"
  shows "summary_of (L @ [(e, g, i)]) g (summary_apply i s)"
proof (cases "gi_mode i")
  case Include
  then show ?thesis
    using assms by (auto simp: summary_of_def summary_apply_def sorted_list_of_fset.rep_eq split: option.splits)
next
  case Exclude
  then show ?thesis
    using assms by (auto simp: summary_of_def summary_apply_def split: option.splits)
qed

lemma summary_of_other: "g' \<noteq> g \<Longrightarrow> summary_of (L @ [(e, g', i)]) g s = summary_of L g s"
  by (auto simp: summary_of_def split: option.splits)

lemma index_all_snoc: "index_all (L @ [(e, g, i)]) = index_interest e (g, i) (index_all L)"
  by (simp add: index_all_def)

lemma index_all_correct:
  assumes "index_all L = (forwarding, total_sources, groups)"
  shows "fmlookup forwarding g = Some S \<Longrightarrow> fset S = {e. \<exists>i. (e, g, i) \<in> set L} \<and> S \<noteq> {||}"
    and "fmlookup forwarding g = None \<longleftrightarrow> (\<forall>e i. (e, g, i) \<notin> set L)"
    and "fmlookup groups g = Some s \<Longrightarrow> summary_of L g s"
    and "fmlookup groups g = None \<longleftrightarrow> (\<forall>e i. (e, g, i) \<notin> set L)"
    and "total_sources = sum_list (map (\<lambda>(_, _, i). fcard (gi_sources i)) L)"
  using assms
proof (induction L arbitrary: forwarding total_sources groups S s rule: rev_induct)
  case Nil
  { case 1 then show ?case by (simp add: index_all_def) }
  { case 2 then show ?case by (simp add: index_all_def) }
  { case 3 then show ?case by (simp add: index_all_def) }
  { case 4 then show ?case by (simp add: index_all_def) }
  { case 5 then show ?case by (simp add: index_all_def) }
next
  case (snoc egi L)
  obtain e g' i where egi: "egi = (e, g', i)" by (cases egi) auto
  obtain f t gr where old: "index_all L = (f, t, gr)" by (cases "index_all L") auto
  note IH = snoc(1)[OF _ old] snoc(2)[OF old] snoc(3)[OF _ old] snoc(4)[OF old] snoc(5)[OF old]
  have new: "index_all (L @ [egi]) = (or_default {||} g' (finsert e) f, t + fcard (gi_sources i),
      or_default empty_summary g' (summary_apply i) gr)"
    by (simp add: egi index_all_snoc old index_interest_def)
  { case 1
    then show ?case using new IH(1,2)
      by (cases "g = g'"; cases "fmlookup f g") (fastforce simp: or_default_def egi)+ }
  { case 2 then show ?case using new IH(2) by (auto simp: or_default_def egi) }
  { case 3
    show ?case
    proof (cases "g = g'")
      case True
      have "summary_of L g (case fmlookup gr g of Some v \<Rightarrow> v | None \<Rightarrow> empty_summary)"
        using IH(3,4) by (auto simp: summary_of_def empty_summary_def split: option.splits)
      then show ?thesis using 3 new True summary_of_snoc by (auto simp: or_default_def egi)
    next
      case False
      then show ?thesis using 3 new IH(3) by (auto simp: or_default_def egi summary_of_other)
    qed }
  { case 4 then show ?case using new IH(4) by (auto simp: or_default_def egi) }
  { case 5 then show ?case using new IH(5) by (simp add: egi) }
qed

lemma fold_filter_map:
  assumes "distinct (map fst xs)"
  shows "fmlookup (fold (\<lambda>(k, v) m. case f v of Some w \<Rightarrow> fmupd k w m | None \<Rightarrow> m) xs m) k =
    (case map_of xs k of None \<Rightarrow> fmlookup m k
     | Some v \<Rightarrow> (case f v of Some w \<Rightarrow> Some w | None \<Rightarrow> fmlookup m k))"
  using assms
proof (induction xs arbitrary: m)
  case (Cons kv xs)
  obtain k' v where kv: "kv = (k', v)" by force
  have "map_of xs k' = None" using Cons.prems kv by (simp add: map_of_eq_None_iff)
  then show ?case using Cons by (auto simp: kv split: option.splits)
qed simp

lemma build_aggregate_lookup:
  "fmlookup (build_aggregate groups) g = (case fmlookup groups g of Some s \<Rightarrow> into_interest s | None \<Rightarrow> None)"
proof -
  have "map_of (map_iter groups) g = fmlookup groups g"
  proof (cases "fmlookup groups g")
    case None
    then show ?thesis using btree.iter_keys[of g groups] by (simp add: map_of_eq_None_iff)
  next
    case (Some s)
    then show ?thesis using map_of_is_SomeI[OF btree.iter_distinct] by (simp add: map_iter_get)
  qed
  then show ?thesis
    unfolding build_aggregate_def fold_filter_map[OF btree.iter_distinct] by (simp split: option.splits)
qed

lemma fold_finsert: "x |\<in>| fold (\<lambda>y s. finsert (h y) s) ys s \<longleftrightarrow> x \<in> h ` set ys \<or> x |\<in>| s"
  by (induction ys arbitrary: s) auto

definition subscription_for :: "ip_addr \<Rightarrow> group_interest \<Rightarrow> upstream_subscription \<Rightarrow> bool" where
  "subscription_for g i x \<longleftrightarrow> (case gi_mode i of
      Exclude \<Rightarrow> x = asm g | Include \<Rightarrow> (\<exists>s. s |\<in>| gi_sources i \<and> x = ssm g s))"

lemma build_subscriptions_iff:
  "x |\<in>| build_subscriptions aggregate \<longleftrightarrow> (\<exists>g i. fmlookup aggregate g = Some i \<and> subscription_for g i x)"
proof -
  let ?f = "\<lambda>(grp, interest) subs. case gi_mode interest of
       Exclude \<Rightarrow> finsert (asm grp) subs
     | Include \<Rightarrow> fold (\<lambda>source subs. finsert (ssm grp source) subs) (set_iter (gi_sources interest)) subs"
  have step: "x |\<in>| ?f (g, i) s \<longleftrightarrow> subscription_for g i x \<or> x |\<in>| s" for g i s
    by (auto simp: subscription_for_def fold_finsert sorted_list_of_fset.rep_eq split: filter_mode.splits)
  have "x |\<in>| fold ?f xs s \<longleftrightarrow> x |\<in>| s \<or> (\<exists>(g, i) \<in> set xs. subscription_for g i x)" for xs s
  proof (induction xs arbitrary: s)
    case (Cons gi xs)
    obtain g i where gi: "gi = (g, i)" by force
    show ?case unfolding fold_Cons comp_def Cons.IH unfolding gi step by auto
  qed simp
  from this[of "map_iter aggregate" "{||}"] show ?thesis
    unfolding build_subscriptions_def by (simp add: Bex_def map_iter_get)
qed

lemma into_interest_wants:
  assumes "summary_of L g s" and "\<exists>e i. (e, g, i) \<in> set L"
  shows "(case into_interest s of Some i \<Rightarrow> wants_source i x | None \<Rightarrow> False) \<longleftrightarrow>
    (\<exists>e i. (e, g, i) \<in> set L \<and> wants_source i x)"
proof (cases "gs_exclude s")
  case None
  then have inc: "gi_mode i = Include" if "(e, g, i) \<in> set L" for e i
    using assms(1) that by (auto simp: summary_of_def)
  have "(case into_interest s of Some i \<Rightarrow> wants_source i x | None \<Rightarrow> False) \<longleftrightarrow> x |\<in>| gs_include s"
    using None by (auto simp: into_interest_def wants_source_def)
  also have "\<dots> \<longleftrightarrow> (\<exists>e i. (e, g, i) \<in> set L \<and> wants_source i x)"
    using assms(1) inc by (fastforce simp: summary_of_def wants_source_def)
  finally show ?thesis .
next
  case (Some ex)
  have "(case into_interest s of Some i \<Rightarrow> wants_source i x | None \<Rightarrow> False) \<longleftrightarrow> x |\<in>| gs_include s \<or> x |\<notin>| ex"
    using Some by (auto simp: into_interest_def wants_source_def sorted_list_of_fset.rep_eq)
  also have "\<dots> \<longleftrightarrow> (\<exists>e i. (e, g, i) \<in> set L \<and> wants_source i x)"
    using assms(1) Some by (fastforce simp: summary_of_def wants_source_def split: filter_mode.splits)
  finally show ?thesis .
qed

text \<open>The state as seen by its clients: which endpoint wants which source of which group.\<close>

definition wanted :: "relay_state \<Rightarrow> socket_addr \<Rightarrow> ip_addr \<Rightarrow> ip_addr \<Rightarrow> bool" where
  "wanted st e g s = (case endpoint_interest st e g of Some i \<Rightarrow> wants_source i s | None \<Rightarrow> False)"

definition groups_ok :: "endpoint_state \<Rightarrow> bool" where
  "groups_ok groups \<longleftrightarrow> groups \<noteq> fmempty \<and>
     (\<forall>g i. fmlookup groups g = Some i \<longrightarrow> gi_mode i = Include \<longrightarrow> gi_sources i \<noteq> {||})"

definition state_inv :: "relay_state \<Rightarrow> bool" where
  "state_inv st \<longleftrightarrow> rebuild_indexes st = st \<and>
     (\<forall>e groups. fmlookup (rs_endpoints st) e = Some groups \<longrightarrow> groups_ok groups)"

lemma wanted_interests:
  "wanted st e g s \<longleftrightarrow> (\<exists>i. (e, g, i) \<in> set (interests (rs_endpoints st)) \<and> wants_source i s)"
  by (auto simp: wanted_def endpoint_interest_def interests_iff split: option.splits)

lemma indexes_correct:
  assumes "rebuild_indexes st = st"
  shows "fmlookup (rs_forwarding st) g = Some S \<Longrightarrow> fset S = {e. endpoint_interest st e g \<noteq> None}"
    and "fmlookup (rs_forwarding st) g = None \<longleftrightarrow> (\<forall>e. endpoint_interest st e g = None)"
    and "(case fmlookup (rs_aggregate st) g of Some i \<Rightarrow> wants_source i s | None \<Rightarrow> False) \<longleftrightarrow> (\<exists>e. wanted st e g s)"
    and "rs_subscriptions st = build_subscriptions (rs_aggregate st)"
    and "rs_total_sources st = sum_list (map (\<lambda>(_, _, i). fcard (gi_sources i)) (interests (rs_endpoints st)))"
    and "fmlookup (rs_aggregate st) g = Some a \<Longrightarrow>
      gi_mode a = Exclude \<longleftrightarrow> (\<exists>e i. endpoint_interest st e g = Some i \<and> gi_mode i = Exclude)"
    and "rs_total_endpoint_groups st = sum_list (map (\<lambda>(_, groups). fcard (fmdom groups)) (map_iter (rs_endpoints st)))"
    and "endpoint_interest st e g = Some i \<Longrightarrow> gi_mode i = Exclude \<Longrightarrow> fmlookup (rs_aggregate st) g \<noteq> None"
proof -
  let ?L = "interests (rs_endpoints st)"
  obtain f t gr where ix: "index_all ?L = (f, t, gr)" by (cases "index_all ?L") auto
  have st: "rs_forwarding st = f" "rs_total_sources st = t" "rs_aggregate st = build_aggregate gr"
    "rs_subscriptions st = build_subscriptions (build_aggregate gr)"
  proof -
    have "rs_forwarding (rebuild_indexes st) = f" "rs_total_sources (rebuild_indexes st) = t"
      "rs_aggregate (rebuild_indexes st) = build_aggregate gr"
      "rs_subscriptions (rebuild_indexes st) = build_subscriptions (build_aggregate gr)"
      by (simp_all add: rebuild_indexes_eq ix)
    then show "rs_forwarding st = f" "rs_total_sources st = t" "rs_aggregate st = build_aggregate gr"
      "rs_subscriptions st = build_subscriptions (build_aggregate gr)"
      by (simp_all only: assms)
  qed
  have mem: "(\<exists>i. (e, g, i) \<in> set ?L) \<longleftrightarrow> endpoint_interest st e g \<noteq> None" for e
    by (auto simp: interests_iff endpoint_interest_def split: option.splits)
  note c = index_all_correct[OF ix]
  show "fmlookup (rs_forwarding st) g = Some S \<Longrightarrow> fset S = {e. endpoint_interest st e g \<noteq> None}"
    using c(1) mem by (simp add: st)
  show "fmlookup (rs_forwarding st) g = None \<longleftrightarrow> (\<forall>e. endpoint_interest st e g = None)"
    using c(2) mem by (auto simp: st)
  show "rs_subscriptions st = build_subscriptions (rs_aggregate st)" by (simp add: st)
  show "rs_total_sources st = sum_list (map (\<lambda>(_, _, i). fcard (gi_sources i)) ?L)" using c(5) by (simp add: st)
  have "rs_total_endpoint_groups (rebuild_indexes st) =
      sum_list (map (\<lambda>(_, groups). fcard (fmdom groups)) (map_iter (rs_endpoints st)))"
    by (simp add: rebuild_indexes_eq ix)
  then show "rs_total_endpoint_groups st =
      sum_list (map (\<lambda>(_, groups). fcard (fmdom groups)) (map_iter (rs_endpoints st)))" by (simp only: assms)
  show "fmlookup (rs_aggregate st) g \<noteq> None" if i: "endpoint_interest st e g = Some i" "gi_mode i = Exclude"
  proof -
    have m: "(e, g, i) \<in> set ?L" using i(1) by (auto simp: interests_iff endpoint_interest_def split: option.splits)
    then obtain sm where sm: "fmlookup gr g = Some sm" using c(4)[of g] by fastforce
    then have "gs_exclude sm \<noteq> None" using c(3)[OF sm] m i(2) by (cases "gs_exclude sm") (auto simp: summary_of_def)
    then show ?thesis by (auto simp: st build_aggregate_lookup sm into_interest_def)
  qed
  show "fmlookup (rs_aggregate st) g = Some a \<Longrightarrow>
      gi_mode a = Exclude \<longleftrightarrow> (\<exists>e i. endpoint_interest st e g = Some i \<and> gi_mode i = Exclude)"
  proof -
    assume a: "fmlookup (rs_aggregate st) g = Some a"
    then obtain sm where sm: "fmlookup gr g = Some sm" "into_interest sm = Some a"
      by (auto simp: st build_aggregate_lookup split: option.splits)
    have ei: "endpoint_interest st e g = Some i \<longleftrightarrow> (e, g, i) \<in> set ?L" for e i
      by (auto simp: interests_iff endpoint_interest_def split: option.splits)
    show "gi_mode a = Exclude \<longleftrightarrow> (\<exists>e i. endpoint_interest st e g = Some i \<and> gi_mode i = Exclude)"
      unfolding ei using c(3)[OF sm(1)] sm(2)
      by (cases "gs_exclude sm") (auto simp: summary_of_def into_interest_def split: if_splits)
  qed
  show "(case fmlookup (rs_aggregate st) g of Some i \<Rightarrow> wants_source i s | None \<Rightarrow> False) \<longleftrightarrow> (\<exists>e. wanted st e g s)"
  proof (cases "fmlookup gr g")
    case None
    then have "\<not> wanted st e g s" for e using c(4)[of g] by (auto simp: wanted_interests)
    with None show ?thesis by (simp add: st build_aggregate_lookup)
  next
    case (Some sm)
    then have "\<exists>e i. (e, g, i) \<in> set ?L" using c(4)[of g] by auto
    from into_interest_wants[OF c(3)[OF Some] this, of s] Some show ?thesis
      by (simp add: st build_aggregate_lookup wanted_interests)
  qed
qed

section \<open>The invariant\<close>

lemma state_inv_empty [simp]: "state_inv empty_state"
proof -
  have "interests fmempty = []" by (simp add: interests_def)
  then show ?thesis
    by (simp add: state_inv_def empty_state_def rebuild_indexes_eq index_all_def
        build_aggregate_def build_subscriptions_def)
qed

lemma apply_groups_ok:
  assumes "\<forall>g i. fmlookup groups g = Some i \<longrightarrow> gi_mode i = Include \<longrightarrow> gi_sources i \<noteq> {||}"
  shows "\<forall>g i. fmlookup (apply_groups r groups) g = Some i \<longrightarrow> gi_mode i = Include \<longrightarrow> gi_sources i \<noteq> {||}"
proof (intro allI impI)
  fix g i assume i: "fmlookup (apply_groups r groups) g = Some i" "gi_mode i = Include"
  have ne: "insert_all xs s \<noteq> {||}" if "xs \<noteq> []" for xs s
  proof -
    have "hd xs |\<in>| insert_all xs s" using that by simp
    then show ?thesis by auto
  qed
  have ne': "fset_of_list xs \<noteq> {||}" if "xs \<noteq> []" for xs :: "ip_addr list"
    using that by (cases xs) auto
  show "gi_sources i \<noteq> {||}"
    using i assms
    by (auto simp: apply_groups_def Let_def gi_include_def gi_exclude_def ne ne'
        split: membership_record_kind.splits if_splits option.splits filter_mode.splits)
qed

lemma apply_records_snd: "snd (apply_records rs groups) = fold apply_groups rs groups"
  by (induction rs arbitrary: groups) (simp_all add: apply_record_def Let_def case_prod_unfold)

lemma fold_apply_groups_ok:
  assumes "\<forall>g i. fmlookup groups g = Some i \<longrightarrow> gi_mode i = Include \<longrightarrow> gi_sources i \<noteq> {||}"
  shows "\<forall>g i. fmlookup (fold apply_groups rs groups) g = Some i \<longrightarrow> gi_mode i = Include \<longrightarrow> gi_sources i \<noteq> {||}"
  using assms
proof (induction rs arbitrary: groups)
  case (Cons r rs)
  from Cons.IH[OF apply_groups_ok[OF Cons.prems]] show ?case by simp
qed simp

definition current_groups :: "relay_state \<Rightarrow> socket_addr \<Rightarrow> endpoint_state" where
  "current_groups st e = (case fmlookup (rs_endpoints st) e of Some g \<Rightarrow> g | None \<Rightarrow> fmempty)"

definition after_report :: "relay_state \<Rightarrow> socket_addr \<Rightarrow> membership_report \<Rightarrow> endpoint_state" where
  "after_report st e report = fold apply_groups (rp_records report) (current_groups st e)"

lemma apply_report_endpoints:
  assumes "rp_records report \<noteq> []"
  shows "snd (apply_report st e report) = rebuild_indexes (st\<lparr>rs_endpoints :=
     (if after_report st e report = fmempty then fmdrop e (rs_endpoints st)
      else fmupd e (after_report st e report) (rs_endpoints st))\<rparr>)"
proof -
  have "fmdrop e (fmupd e gs m) = fmdrop e m" for gs and m :: "(socket_addr, endpoint_state) btree_map"
    by (rule fmap_ext) auto
  then show ?thesis
    using assms apply_records_snd[of "rp_records report" "current_groups st e"]
    by (simp add: apply_report_def after_report_def current_groups_def Let_def case_prod_unfold)
qed

lemma current_groups_ok:
  assumes "state_inv st"
  shows "\<forall>g i. fmlookup (current_groups st e) g = Some i \<longrightarrow> gi_mode i = Include \<longrightarrow> gi_sources i \<noteq> {||}"
  using assms by (auto simp: current_groups_def state_inv_def groups_ok_def split: option.splits)

lemma state_inv_apply_report:
  assumes "state_inv st"
  shows "state_inv (snd (apply_report st e report))"
proof (cases "rp_records report = []")
  case True
  then show ?thesis using assms by (simp add: apply_report_def)
next
  case False
  have "groups_ok (after_report st e report)" if "after_report st e report \<noteq> fmempty"
    using that fold_apply_groups_ok[OF current_groups_ok[OF assms]] by (simp add: groups_ok_def after_report_def)
  with assms show ?thesis
    unfolding apply_report_endpoints[OF False] by (auto simp: state_inv_def split: if_splits)
qed

lemma state_inv_remove_endpoint:
  assumes "state_inv st"
  shows "state_inv (snd (remove_endpoint st e))"
proof (cases "fmlookup (rs_endpoints st) e")
  case None
  then have "fmdrop e (rs_endpoints st) = rs_endpoints st" by (intro fmap_ext) auto
  then show ?thesis using assms None by (simp add: remove_endpoint_def)
next
  case (Some g)
  then show ?thesis using assms by (auto simp: remove_endpoint_def state_inv_def split: if_splits)
qed

section \<open>Limits and rollback\<close>

lemma check_limit_Ok [simp]: "check_limit r n l = Ok u \<longleftrightarrow> n \<le> l" and no_panic_check_limit [simp]: "no_panic (check_limit r n l)"
  by (simp_all add: check_limit_def)

lemma no_panic_check_state_limits [simp]: "no_panic (check_state_limits st e limits)"
  unfolding check_state_limits_def Let_def by (intro no_panic_bnd no_panic_check_limit)

lemma apply_report_other_endpoints:
  assumes "e' \<noteq> e"
  shows "fmlookup (rs_endpoints (snd (apply_report st e report))) e' = fmlookup (rs_endpoints st) e'"
proof (cases "rp_records report = []")
  case True
  then show ?thesis by (simp add: apply_report_def)
next
  case False
  then show ?thesis using assms by (simp add: apply_report_endpoints)
qed

lemma restore_endpoints:
  assumes "\<And>e'. e' \<noteq> e \<Longrightarrow> fmlookup m' e' = fmlookup m e'"
  shows "(case fmlookup m e of Some p \<Rightarrow> fmupd e p m' | None \<Rightarrow> fmdrop e m') = m"
  by (rule fmap_ext) (use assms in \<open>auto split: option.splits\<close>)

lemma apply_report_limited_cases:
  assumes "state_inv st"
  obtains (rejected) x where "apply_report_limited st e report limits = (Err x, st)"
  | (applied) n st' where "apply_report_limited st e report limits = (Ok n, st')"
      "apply_report st e report = (n, st')" "check_state_limits st' e limits = Ok ()"
      "length (rp_records report) \<le> max_records_per_report limits"
proof -
  let ?pre = "bnd (check_limit ''records per report'' (length (rp_records report)) (max_records_per_report limits)) (\<lambda>_.
      for_each (rp_records report) (\<lambda>record _.
        check_limit ''sources per group'' (length (mr_sources record)) (max_sources_per_group limits)) ())"
  obtain n st1 where ap: "apply_report st e report = (n, st1)" by force
  have "no_panic ?pre" by (intro no_panic_bnd no_panic_for_each[where P = "\<lambda>_. True"]) simp_all
  then consider x where "?pre = Err x" | "?pre = Ok ()" by (cases ?pre) auto
  then show thesis
  proof cases
    case 1
    then show thesis using rejected by (simp add: apply_report_limited_def)
  next
    case 2
    then have len: "length (rp_records report) \<le> max_records_per_report limits" by (auto simp: bnd_eq_Ok)
    have "no_panic (check_state_limits st1 e limits)" by simp
    then consider x where "check_state_limits st1 e limits = Err x" | "check_state_limits st1 e limits = Ok ()"
      by (cases "check_state_limits st1 e limits") auto
    then show thesis
    proof cases
      case x: 1
      have st1: "st1 = snd (apply_report st e report)" by (simp add: ap)
      let ?m = "case fmlookup (rs_endpoints st) e of Some p \<Rightarrow> fmupd e p (rs_endpoints st1) | None \<Rightarrow> fmdrop e (rs_endpoints st1)"
      have "?m = rs_endpoints st"
        by (rule restore_endpoints) (simp add: st1 apply_report_other_endpoints)
      then have "rebuild_indexes (st1\<lparr>rs_endpoints := ?m\<rparr>) = rebuild_indexes st"
        by (intro rebuild_indexes_cong) simp
      then have "rebuild_indexes (st1\<lparr>rs_endpoints := ?m\<rparr>) = st" using assms by (simp add: state_inv_def)
      then show thesis using rejected[of x] 2 x(1) ap by (simp add: apply_report_limited_def)
    next
      case 2
      then show thesis using applied[OF _ ap 2 len] \<open>?pre = Ok ()\<close> ap by (simp add: apply_report_limited_def)
    qed
  qed
qed

lemma state_inv_apply_report_limited:
  assumes "state_inv st"
  shows "state_inv (snd (apply_report_limited st e report limits))"
  using assms
proof (cases rule: apply_report_limited_cases[of st e report limits])
  case (applied n st')
  then show ?thesis using state_inv_apply_report[OF assms, of e report] by simp
qed (use assms in simp_all)

text \<open>The limits that hold in every state: counts of endpoints, groups and sources.  The number
  of upstream subscriptions is checked on reports only.\<close>

definition endpoint_limits :: "relay_limits \<Rightarrow> endpoint_state \<Rightarrow> bool" where
  "endpoint_limits limits groups \<longleftrightarrow> fcard (fmdom groups) \<le> max_groups_per_endpoint limits \<and>
     (\<forall>g i. fmlookup groups g = Some i \<longrightarrow> fcard (gi_sources i) \<le> max_sources_per_group limits)"

definition limits_inv :: "relay_limits \<Rightarrow> relay_state \<Rightarrow> bool" where
  "limits_inv limits st \<longleftrightarrow>
     endpoint_count st \<le> max_endpoints limits \<and>
     (\<forall>ip. endpoint_count_for_ip st ip \<le> max_endpoints_per_ip limits) \<and>
     (\<forall>e groups. fmlookup (rs_endpoints st) e = Some groups \<longrightarrow> endpoint_limits limits groups) \<and>
     rs_total_endpoint_groups st \<le> max_total_endpoint_groups limits \<and>
     rs_total_sources st \<le> max_total_sources limits"

lemma fold_max_le: "fold max xs (m :: nat) \<le> n \<longleftrightarrow> (\<forall>x \<in> set xs. x \<le> n) \<and> m \<le> n"
  by (induction xs arbitrary: m) auto

lemma max_group_sources_le:
  "max_group_sources (Some groups) \<le> n \<longleftrightarrow> (\<forall>g i. fmlookup groups g = Some i \<longrightarrow> fcard (gi_sources i) \<le> n)"
proof -
  have "(\<forall>x \<in> set (map (\<lambda>(_, interest). fcard (gi_sources interest)) (map_iter groups)). x \<le> n) \<longleftrightarrow>
      (\<forall>g i. (g, i) \<in> set (map_iter groups) \<longrightarrow> fcard (gi_sources i) \<le> n)" by auto
  then show ?thesis by (simp add: max_group_sources_def fold_max_le map_iter_get)
qed

text \<open>Counting endpoints of an address over the key set.\<close>

lemma endpoint_count_for_ip_card:
  "endpoint_count_for_ip st ip = card {e. fmlookup (rs_endpoints st) e \<noteq> None \<and> sock_ip e = ip}"
proof -
  let ?ks = "map fst (map_iter (rs_endpoints st))"
  have "distinct (filter (\<lambda>e. sock_ip e = ip) ?ks)" using btree.iter_distinct by (rule distinct_filter)
  then have "endpoint_count_for_ip st ip = card (set (filter (\<lambda>e. sock_ip e = ip) ?ks))"
    unfolding endpoint_count_for_ip_def by (simp only: distinct_card)
  also have "set (filter (\<lambda>e. sock_ip e = ip) ?ks) = {e. fmlookup (rs_endpoints st) e \<noteq> None \<and> sock_ip e = ip}"
    using btree.iter_keys[of _ "rs_endpoints st"] by auto
  finally show ?thesis .
qed

lemma limits_inv_apply_report_limited:
  assumes inv: "state_inv st" and lim: "limits_inv limits st"
  shows "limits_inv limits (snd (apply_report_limited st e report limits))"
  using inv
proof (cases rule: apply_report_limited_cases[of st e report limits])
  case (applied n st')
  have st': "st' = snd (apply_report st e report)" using applied(2) by simp
  note c = applied(3)[unfolded check_state_limits_def Let_def]
  have ip: "endpoint_count_for_ip st' ip \<le> max_endpoints_per_ip limits" for ip
  proof (cases "ip = sock_ip e")
    case True
    then show ?thesis using c by (auto simp: bnd_eq_Ok)
  next
    case False
    then have "{e'. fmlookup (rs_endpoints st') e' \<noteq> None \<and> sock_ip e' = ip}
        = {e'. fmlookup (rs_endpoints st) e' \<noteq> None \<and> sock_ip e' = ip}"
      using apply_report_other_endpoints[of _ e st report] unfolding st' by (intro Collect_cong) metis
    then show ?thesis using lim by (simp add: limits_inv_def endpoint_count_for_ip_card)
  qed
  have ep: "endpoint_limits limits groups" if "fmlookup (rs_endpoints st') e' = Some groups" for e' groups
  proof (cases "e' = e")
    case True
    with that have "fmlookup (rs_endpoints st') e = Some groups" by simp
    with c have "fcard (fmdom groups) \<le> max_groups_per_endpoint limits"
      "max_group_sources (Some groups) \<le> max_sources_per_group limits" by (auto simp: bnd_eq_Ok)
    then show ?thesis by (simp add: endpoint_limits_def max_group_sources_le)
  next
    case False
    then have "fmlookup (rs_endpoints st) e' = Some groups"
      using that apply_report_other_endpoints[OF False, of st report] by (simp add: st')
    then show ?thesis using lim by (auto simp: limits_inv_def)
  qed
  have "endpoint_count st' \<le> max_endpoints limits"
    "rs_total_endpoint_groups st' \<le> max_total_endpoint_groups limits"
    "rs_total_sources st' \<le> max_total_sources limits"
    using c by (auto simp: bnd_eq_Ok endpoint_count_def)
  with ip ep have "limits_inv limits st'" by (auto simp: limits_inv_def)
  then show ?thesis using applied(1) by simp
qed (use lim in simp_all)

text \<open>Dropping an endpoint cannot raise a total.\<close>

lemma sum_map_iter_drop:
  fixes f :: "'k::linorder \<times> 'v \<Rightarrow> nat"
  shows "sum_list (map f (map_iter (fmdrop k m))) \<le> sum_list (map f (map_iter m))"
proof -
  have d: "distinct (map_iter m)" "distinct (map_iter (fmdrop k m))"
    using btree.iter_distinct distinct_map by blast+
  have "set (map_iter (fmdrop k m)) \<subseteq> set (map_iter m)"
    by (auto simp: map_iter_get split: if_splits)
  then have "sum f (set (map_iter (fmdrop k m))) \<le> sum f (set (map_iter m))" by (intro sum_mono2) auto
  with d show ?thesis by (simp add: sum_list_distinct_conv_sum_set)
qed

lemma total_sources_nested:
  "sum_list (map (\<lambda>(_, _, i). fcard (gi_sources i)) (interests endpoints)) =
     sum_list (map (\<lambda>(_, groups). sum_list (map (\<lambda>(_, i). fcard (gi_sources i)) (map_iter groups))) (map_iter endpoints))"
proof -
  have "sum_list (map h (concat xss)) = sum_list (map (\<lambda>xs. sum_list (map h xs)) xss)"
    for h :: "socket_addr \<times> ip_addr \<times> group_interest \<Rightarrow> nat" and xss
    by (induction xss) simp_all
  then show ?thesis by (simp add: interests_def comp_def case_prod_unfold)
qed

lemma limits_inv_remove_endpoint:
  assumes inv: "state_inv st" and lim: "limits_inv limits st"
  shows "limits_inv limits (snd (remove_endpoint st e))"
proof -
  let ?st = "snd (remove_endpoint st e)"
  have e: "rs_endpoints ?st = fmdrop e (rs_endpoints st)" by (simp add: remove_endpoint_def Let_def)
  have st_eq: "rebuild_indexes ?st = ?st" "rebuild_indexes st = st"
    using state_inv_remove_endpoint[OF inv] inv by (simp_all add: state_inv_def)
  have "endpoint_count ?st \<le> endpoint_count st"
    using btree.size_remove_le[of e "rs_endpoints st"] by (simp add: endpoint_count_def e)
  moreover have "endpoint_count_for_ip ?st ip \<le> endpoint_count_for_ip st ip" for ip
  proof -
    have "{e. fmlookup (rs_endpoints st) e \<noteq> None \<and> sock_ip e = ip} \<subseteq> fset (fmdom (rs_endpoints st))"
      by (auto intro: fmdomI)
    then have "finite {e. fmlookup (rs_endpoints st) e \<noteq> None \<and> sock_ip e = ip}"
      by (rule finite_subset) simp
    then show ?thesis
      unfolding endpoint_count_for_ip_card e by (rule card_mono) (auto split: if_splits)
  qed
  moreover have "rs_total_endpoint_groups ?st \<le> rs_total_endpoint_groups st"
    unfolding indexes_correct(7)[OF st_eq(1)] indexes_correct(7)[OF st_eq(2)] e by (rule sum_map_iter_drop)
  moreover have "rs_total_sources ?st \<le> rs_total_sources st"
    unfolding indexes_correct(5)[OF st_eq(1)] indexes_correct(5)[OF st_eq(2)] total_sources_nested e
    by (rule sum_map_iter_drop)
  moreover have "endpoint_limits limits groups" if "fmlookup (rs_endpoints ?st) e' = Some groups" for e' groups
    using that lim by (auto simp: e limits_inv_def split: if_splits)
  ultimately show ?thesis
    using lim unfolding limits_inv_def by (meson order_trans)
qed

lemma limits_inv_empty: "limits_inv limits empty_state"
  by (simp add: limits_inv_def endpoint_count_def endpoint_count_for_ip_def empty_state_def fcard.rep_eq)

text \<open>The states a relay can be in: reports (accepted or refused) and removals.\<close>

inductive reachable_state :: "relay_limits \<Rightarrow> relay_state \<Rightarrow> bool" for limits where
  initial: "reachable_state limits empty_state"
| report: "reachable_state limits st \<Longrightarrow>
    reachable_state limits (snd (apply_report_limited st endpoint rp limits))"
| removal: "reachable_state limits st \<Longrightarrow> reachable_state limits (snd (remove_endpoint st endpoint))"

lemma reachable_state_inv: "reachable_state limits st \<Longrightarrow> state_inv st \<and> limits_inv limits st"
  by (induction rule: reachable_state.induct)
     (simp_all add: limits_inv_empty state_inv_apply_report_limited state_inv_remove_endpoint
       limits_inv_apply_report_limited limits_inv_remove_endpoint)

section \<open>Forwarding, subscriptions and previews\<close>

lemma matching_endpoints_raw:
  assumes "state_inv st"
  shows "set (matching_endpoints st s g) = {e. wanted st e g s}"
    and "sorted_wrt (<) (matching_endpoints st s g)"
proof -
  have st_eq: "rebuild_indexes st = st" using assms by (simp add: state_inv_def)
  show "set (matching_endpoints st s g) = {e. wanted st e g s}"
  proof (cases "fmlookup (rs_forwarding st) g")
    case None
    then show ?thesis
      using indexes_correct(2)[OF st_eq, of g] by (simp add: matching_endpoints_def wanted_def)
  next
    case (Some S)
    then show ?thesis
      using indexes_correct(1)[OF st_eq Some]
      by (auto simp: matching_endpoints_def wanted_def split: option.splits)
  qed
  show "sorted_wrt (<) (matching_endpoints st s g)"
    by (auto simp: matching_endpoints_def strict_sorted_set_iter intro: sorted_wrt_filter split: option.split)
qed

lemma subscriptions_raw:
  assumes "state_inv st"
  shows "wanted st e g s \<Longrightarrow> asm g |\<in>| rs_subscriptions st \<or> ssm g s |\<in>| rs_subscriptions st"
    and "ssm g s |\<in>| rs_subscriptions st \<Longrightarrow> \<exists>e. wanted st e g s"
    and "asm g |\<in>| rs_subscriptions st \<longleftrightarrow>
      (\<exists>e i. endpoint_interest st e g = Some i \<and> gi_mode i = Exclude)"
proof -
  have st_eq: "rebuild_indexes st = st" using assms by (simp add: state_inv_def)
  note agg = indexes_correct(3)[OF st_eq] and subs = indexes_correct(4)[OF st_eq] and mode = indexes_correct(6)[OF st_eq]
  have S: "x |\<in>| rs_subscriptions st \<longleftrightarrow> (\<exists>g i. fmlookup (rs_aggregate st) g = Some i \<and> subscription_for g i x)" for x
    unfolding subs by (rule build_subscriptions_iff)
  show "asm g |\<in>| rs_subscriptions st \<or> ssm g s |\<in>| rs_subscriptions st" if w: "wanted st e g s"
  proof -
    from w agg[where g = g and s = s] obtain a where a: "fmlookup (rs_aggregate st) g = Some a" "wants_source a s"
      by (auto split: option.splits)
    from a(2) have "subscription_for g a (asm g) \<or> subscription_for g a (ssm g s)"
      by (cases "gi_mode a") (auto simp: subscription_for_def wants_source_def)
    with a(1) show ?thesis unfolding S by blast
  qed
  show "\<exists>e. wanted st e g s" if "ssm g s |\<in>| rs_subscriptions st"
  proof -
    from that[unfolded S] obtain g' a where a: "fmlookup (rs_aggregate st) g' = Some a" "subscription_for g' a (ssm g s)"
      by blast
    from a(2) have "g' = g \<and> gi_mode a = Include \<and> s |\<in>| gi_sources a"
      by (cases "gi_mode a") (auto simp: subscription_for_def ssm_def asm_def)
    with a(1) show ?thesis using agg[where g = g and s = s] by (simp add: wants_source_def)
  qed
  note only = indexes_correct(8)[OF st_eq]
  show "asm g |\<in>| rs_subscriptions st \<longleftrightarrow> (\<exists>e i. endpoint_interest st e g = Some i \<and> gi_mode i = Exclude)"
    unfolding S using mode[where g = g] only[where g = g]
    by (fastforce simp: subscription_for_def asm_def ssm_def split: filter_mode.splits)
qed

lemma preview_report_raw:
  assumes "state_inv st"
  shows "fst (preview_report st e report) = fst (apply_report st e report)"
    and "snd (preview_report st e report) \<longleftrightarrow> rs_endpoints (snd (apply_report st e report)) \<noteq> rs_endpoints st"
proof -
  let ?after = "after_report st e report"
  have pr: "preview_report st e report = (fst (apply_report st e report),
      rp_records report \<noteq> [] \<and> (if ?after = fmempty then fmlookup (rs_endpoints st) e \<noteq> None
        else fmlookup (rs_endpoints st) e \<noteq> Some ?after))"
    using apply_records_snd[of "rp_records report" "current_groups st e"]
    by (simp add: preview_report_def apply_report_def after_report_def current_groups_def Let_def case_prod_unfold)
  then show "fst (preview_report st e report) = fst (apply_report st e report)" by simp
  have drop: "fmdrop e m = m \<longleftrightarrow> fmlookup m e = None" for m :: "(socket_addr, endpoint_state) btree_map"
    by (metis (no_types, lifting) fmap_ext fmlookup_drop)
  have upd: "fmupd e v m = m \<longleftrightarrow> fmlookup m e = Some v" for v and m :: "(socket_addr, endpoint_state) btree_map"
    by (metis (no_types, lifting) fmap_ext fmupd_lookup)
  show "snd (preview_report st e report) \<longleftrightarrow> rs_endpoints (snd (apply_report st e report)) \<noteq> rs_endpoints st"
  proof (cases "rp_records report = []")
    case True
    then show ?thesis by (simp add: preview_report_def apply_report_def)
  next
    case False
    then show ?thesis using pr by (simp add: apply_report_endpoints drop upd)
  qed
qed

section \<open>The table interface\<close>

text \<open>What the relay relies on: reports and removals keep the invariant, touch only the
  endpoint they name, and a refused report changes nothing.\<close>

locale membership_table =
  fixes inv :: "'s \<Rightarrow> bool"
    and view :: "'s \<Rightarrow> socket_addr \<Rightarrow> endpoint_state option"
    and submit :: "'s \<Rightarrow> socket_addr \<Rightarrow> membership_report \<Rightarrow> (state_limit_error, nat) res \<times> 's"
    and discard :: "'s \<Rightarrow> socket_addr \<Rightarrow> bool \<times> 's"
  assumes inv_submit: "inv st \<Longrightarrow> inv (snd (submit st e rp))"
    and inv_discard: "inv st \<Longrightarrow> inv (snd (discard st e))"
    and submit_other: "inv st \<Longrightarrow> e' \<noteq> e \<Longrightarrow> view (snd (submit st e rp)) e' = view st e'"
    and submit_err: "inv st \<Longrightarrow> fst (submit st e rp) = Err x \<Longrightarrow> snd (submit st e rp) = st"
    and submit_total: "inv st \<Longrightarrow> fst (submit st e rp) \<noteq> Panic"
    and discard_view: "view (snd (discard st e)) e' = (if e' = e then None else view st e')"
    and discard_flag: "fst (discard st e) \<longleftrightarrow> view st e \<noteq> None"
begin

text \<open>Sequences of requests, each naming its endpoint.\<close>

fun run :: "(socket_addr \<times> membership_report option) list \<Rightarrow> 's \<Rightarrow> 's" where
  "run [] st = st"
| "run ((e, Some rp) # ops) st = run ops (snd (submit st e rp))"
| "run ((e, None) # ops) st = run ops (snd (discard st e))"

lemma run_inv: "inv st \<Longrightarrow> inv (run ops st)"
  by (induction ops st rule: run.induct) (simp_all add: inv_submit inv_discard)

lemma run_isolated: "inv st \<Longrightarrow> e \<notin> fst ` set ops \<Longrightarrow> view (run ops st) e = view st e"
  by (induction ops st rule: run.induct) (simp_all add: inv_submit inv_discard submit_other discard_view)

lemma discard_twice: "\<not> fst (discard (snd (discard st e)) e)"
  by (simp add: discard_flag discard_view)

end

lemma remove_endpoint_view:
  "fmlookup (rs_endpoints (snd (remove_endpoint st e))) e' = (if e' = e then None else fmlookup (rs_endpoints st) e')"
  "fst (remove_endpoint st e) \<longleftrightarrow> fmlookup (rs_endpoints st) e \<noteq> None"
  by (auto simp: remove_endpoint_def Let_def)

lemma apply_report_limited_other:
  assumes "state_inv st" and "e' \<noteq> e"
  shows "fmlookup (rs_endpoints (snd (apply_report_limited st e rp limits))) e' = fmlookup (rs_endpoints st) e'"
  using assms(1)
proof (cases rule: apply_report_limited_cases[of st e rp limits])
  case (applied n st')
  then show ?thesis using apply_report_other_endpoints[OF assms(2), of st rp] by simp
qed simp_all

interpretation table: membership_table state_inv "\<lambda>st e. fmlookup (rs_endpoints st) e"
  "\<lambda>st e rp. apply_report_limited st e rp limits" remove_endpoint for limits
proof
  fix st e e' rp x
  assume inv: "state_inv st"
  show "state_inv (snd (apply_report_limited st e rp limits))" by (rule state_inv_apply_report_limited[OF inv])
  show "state_inv (snd (remove_endpoint st e))" by (rule state_inv_remove_endpoint[OF inv])
  show "e' \<noteq> e \<Longrightarrow> fmlookup (rs_endpoints (snd (apply_report_limited st e rp limits))) e' = fmlookup (rs_endpoints st) e'"
    by (rule apply_report_limited_other[OF inv])
  show "fst (apply_report_limited st e rp limits) = Err x \<Longrightarrow> snd (apply_report_limited st e rp limits) = st"
    using inv by (cases rule: apply_report_limited_cases[of st e rp limits]) simp_all
  show "fst (apply_report_limited st e rp limits) \<noteq> Panic"
    using inv by (cases rule: apply_report_limited_cases[of st e rp limits]) simp_all
qed (simp_all add: remove_endpoint_view)

lemma subscriptions_exact_raw:
  assumes "state_inv st"
  shows "ssm g s |\<in>| rs_subscriptions st \<longleftrightarrow> (\<exists>e. wanted st e g s) \<and>
    \<not> (\<exists>e i. endpoint_interest st e g = Some i \<and> gi_mode i = Exclude)"
proof
  assume ssm: "ssm g s |\<in>| rs_subscriptions st"
  have st_eq: "rebuild_indexes st = st" using assms by (simp add: state_inv_def)
  from ssm obtain g' a where a: "fmlookup (rs_aggregate st) g' = Some a" "subscription_for g' a (ssm g s)"
    unfolding indexes_correct(4)[OF st_eq] build_subscriptions_iff by blast
  from a(2) have "g' = g \<and> gi_mode a \<noteq> Exclude"
    by (cases "gi_mode a") (auto simp: subscription_for_def ssm_def asm_def)
  with a(1) indexes_correct(6)[OF st_eq] subscriptions_raw(2)[OF assms ssm]
  show "(\<exists>e. wanted st e g s) \<and> \<not> (\<exists>e i. endpoint_interest st e g = Some i \<and> gi_mode i = Exclude)" by auto
next
  assume r: "(\<exists>e. wanted st e g s) \<and> \<not> (\<exists>e i. endpoint_interest st e g = Some i \<and> gi_mode i = Exclude)"
  then have "asm g |\<notin>| rs_subscriptions st" using subscriptions_raw(3)[OF assms, of g] by blast
  with r show "ssm g s |\<in>| rs_subscriptions st" using subscriptions_raw(1)[OF assms] by blast
qed

section \<open>Properties of the relay state\<close>

text \<open>Applying a report record to an endpoint changes the sources it wants in the record's
  group exactly as the record kind means (replace, complement, add, subtract, all, none) and
  leaves every other group alone.  The filter-mode representation refines plain sets of wanted
  sources.\<close>

lemma apply_record_refines:
  "{s. wants (snd (apply_record r groups)) grp s} =
     (if grp = mr_group r then record_meaning (mr_kind r) (set (mr_sources r)) {s. wants groups grp s}
      else {s. wants groups grp s})"
  by (simp add: apply_record_def Let_def apply_groups_refines_raw)

text \<open>C5: a native packet is forwarded to exactly the endpoints whose own interest in the group
  wants its source, each once and in address order: the forwarding index neither misses nor
  adds an endpoint.\<close>

theorem matching_endpoints_exact:
  assumes "state_inv st"
  shows "set (matching_endpoints st source grp) = {e. wanted st e grp source} \<and>
    sorted_wrt (<) (matching_endpoints st source grp)"
  using matching_endpoints_raw[OF assms] by blast

definition sample_gateway :: socket_addr where "sample_gateway = SockV4 0xC6336401 40000"

definition sample_join :: membership_report where
  "sample_join = \<lparr>rp_protocol = Igmpv3, rp_records =
     [\<lparr>mr_kind = AllowNewSources, mr_group = V4 0xE8010203, mr_sources = [V4 0xC0000201]\<rparr>]\<rparr>"

definition sample_state :: relay_state where
  "sample_state = snd (apply_report empty_state sample_gateway sample_join)"

lemma sample_state_inv: "state_inv sample_state"
  unfolding sample_state_def by (rule state_inv_apply_report) simp

lemma sample_state_endpoints:
  "rs_endpoints sample_state = fmupd sample_gateway
     (fmupd (V4 0xE8010203) \<lparr>gi_mode = Include, gi_sources = {|V4 0xC0000201|}\<rparr> fmempty) fmempty"
proof -
  let ?g = "fmupd (V4 0xE8010203) \<lparr>gi_mode = Include, gi_sources = {|V4 0xC0000201|}\<rparr> (fmempty :: endpoint_state)"
  have a: "after_report empty_state sample_gateway sample_join = ?g"
    by (simp add: after_report_def current_groups_def empty_state_def sample_join_def apply_groups_def
        gi_include_def insert_all_def)
  have "fmlookup ?g (V4 0xE8010203) \<noteq> fmlookup fmempty (V4 0xE8010203)" by simp
  then have "?g \<noteq> fmempty" by metis
  moreover have "rp_records sample_join \<noteq> []" "rs_endpoints empty_state = fmempty"
    by (simp_all add: sample_join_def empty_state_def)
  ultimately show ?thesis by (simp add: sample_state_def apply_report_endpoints a)
qed

lemma fmupd_not_empty [simp]: "fmupd k v m \<noteq> fmempty"
  by (metis fmempty_lookup fmupd_lookup option.distinct(1))

lemma sample_state_wanted:
  "wanted sample_state e (V4 0xE8010203) (V4 0xC0000201) \<longleftrightarrow> e = sample_gateway"
  by (auto simp: wanted_def endpoint_interest_def sample_state_endpoints wants_source_def)

theorem matching_endpoints_exact_witness:
  "set (matching_endpoints sample_state (V4 0xC0000201) (V4 0xE8010203)) = {sample_gateway}"
  using matching_endpoints_exact[OF sample_state_inv, of "V4 0xC0000201" "V4 0xE8010203"]
  by (simp add: sample_state_wanted)

text \<open>C6: the upstream subscriptions are exact.  A group is joined for any source exactly when
  some endpoint has an exclude-mode interest in it; a source of a group is joined exactly when
  some endpoint wants it and no endpoint has an exclude-mode interest in the group.\<close>

theorem upstream_subscriptions_exact:
  assumes "state_inv st"
  shows "(asm grp \<in> set (upstream_subscriptions st) \<longleftrightarrow>
      (\<exists>e i. endpoint_interest st e grp = Some i \<and> gi_mode i = Exclude)) \<and>
    (ssm grp source \<in> set (upstream_subscriptions st) \<longleftrightarrow> (\<exists>e. wanted st e grp source) \<and>
      \<not> (\<exists>e i. endpoint_interest st e grp = Some i \<and> gi_mode i = Exclude))"
  using subscriptions_raw(3)[OF assms] subscriptions_exact_raw[OF assms]
  by (simp add: upstream_subscriptions_def)

theorem upstream_subscriptions_exact_witness:
  "ssm (V4 0xE8010203) (V4 0xC0000201) \<in> set (upstream_subscriptions sample_state)"
  using upstream_subscriptions_exact[OF sample_state_inv, of "V4 0xE8010203" "V4 0xC0000201"]
  by (auto simp: sample_state_wanted endpoint_interest_def sample_state_endpoints split: if_splits)

text \<open>C16: a report with limits is a transaction.  It either applies exactly as the report
  without limits would, or is refused with the state, all derived indexes included, as it was.\<close>

theorem apply_report_limited_atomic:
  assumes "state_inv st"
  shows "case apply_report_limited st endpoint report limits of
      (Ok n, st') \<Rightarrow> apply_report st endpoint report = (n, st')
    | (Err x, st') \<Rightarrow> st' = st
    | (Panic, st') \<Rightarrow> False"
  using assms
  by (cases rule: apply_report_limited_cases[of st endpoint report limits]) simp_all

theorem apply_report_limited_atomic_witness:
  "snd (apply_report_limited sample_state sample_gateway sample_join
     (default_relay_limits\<lparr>max_records_per_report := 0\<rparr>)) = sample_state"
  using apply_report_limited_atomic[OF sample_state_inv, of sample_gateway sample_join
      "default_relay_limits\<lparr>max_records_per_report := 0\<rparr>"]
  by (simp add: apply_report_limited_def check_limit_def sample_join_def)

text \<open>In every state that reports and removals can reach from the empty one, the indexes are
  the ones a rebuild computes, no endpoint is left without interests, no include-mode interest is
  empty, and the limits on endpoints, endpoints per address, groups, sources and totals hold.\<close>

lemma reachable_state_limits:
  assumes "reachable_state limits st"
  shows "state_inv st \<and> limits_inv limits st"
  by (rule reachable_state_inv[OF assms])

text \<open>The preview that decides how a report is charged agrees with its application: the same
  number of effective records, and changed exactly when the stored interests change.\<close>

lemma preview_report_agrees:
  assumes "state_inv st"
  shows "preview_report st endpoint report = (fst (apply_report st endpoint report),
    rs_endpoints (snd (apply_report st endpoint report)) \<noteq> rs_endpoints st)"
  using preview_report_raw[OF assms, of endpoint report] by (simp add: prod_eq_iff)

section \<open>The subscription limit and removals\<close>

text \<open>The number of upstream subscriptions is compared with its limit when a report is applied,
  and not when an endpoint is removed.  Removing the one endpoint with an exclude-mode interest
  turns its single any-source subscription into one subscription per source the others include,
  so that a removal can raise the number of subscriptions over the limit.\<close>

lemma endpoint_map_subscriptions:
  assumes "state_inv st"
  shows "x |\<in>| rs_subscriptions st \<longleftrightarrow>
    (case us_source x of
       None \<Rightarrow> (\<exists>e i. endpoint_interest st e (us_group x) = Some i \<and> gi_mode i = Exclude)
     | Some s \<Rightarrow> (\<exists>e. wanted st e (us_group x) s) \<and>
         \<not> (\<exists>e i. endpoint_interest st e (us_group x) = Some i \<and> gi_mode i = Exclude))"
  using subscriptions_raw(3)[OF assms, of "us_group x"] subscriptions_exact_raw[OF assms, of "us_group x"]
  by (cases x) (auto simp: asm_def ssm_def split: option.splits)

definition any_source_join :: membership_report where
  "any_source_join = \<lparr>rp_protocol = Igmpv3, rp_records =
     [\<lparr>mr_kind = ChangeToExclude, mr_group = V4 0xE8010203, mr_sources = []\<rparr>]\<rparr>"

definition two_source_join :: membership_report where
  "two_source_join = \<lparr>rp_protocol = Igmpv3, rp_records =
     [\<lparr>mr_kind = ChangeToInclude, mr_group = V4 0xE8010203, mr_sources = [V4 0xC0000201, V4 0xC0000202]\<rparr>]\<rparr>"

lemma removal_raises_subscriptions:
  defines "st \<equiv> snd (apply_report (snd (apply_report empty_state (SockV4 1 1) any_source_join))
      (SockV4 2 2) two_source_join)"
  shows "state_inv st \<and> fcard (rs_subscriptions st) = 1 \<and>
    fcard (rs_subscriptions (snd (remove_endpoint st (SockV4 1 1)))) = 2"
proof -
  let ?g = "V4 0xE8010203 :: ip_addr"
  let ?ex = "fmupd ?g \<lparr>gi_mode = Exclude, gi_sources = {||}\<rparr> (fmempty :: endpoint_state)"
  let ?in = "fmupd ?g \<lparr>gi_mode = Include, gi_sources = {|V4 0xC0000201, V4 0xC0000202|}\<rparr> (fmempty :: endpoint_state)"
  have inv: "state_inv st" unfolding st_def by (intro state_inv_apply_report state_inv_empty)
  have ne: "rp_records any_source_join \<noteq> []" "rp_records two_source_join \<noteq> []"
    by (simp_all add: any_source_join_def two_source_join_def)
  have e1: "rs_endpoints (snd (apply_report empty_state (SockV4 1 1) any_source_join)) = fmupd (SockV4 1 1) ?ex fmempty"
    by (simp add: apply_report_endpoints[OF ne(1)])
       (simp add: after_report_def current_groups_def any_source_join_def apply_groups_def gi_exclude_def empty_state_def)
  have e: "rs_endpoints st = fmupd (SockV4 2 2) ?in (fmupd (SockV4 1 1) ?ex fmempty)"
    by (simp add: st_def apply_report_endpoints[OF ne(2)])
       (simp add: after_report_def current_groups_def two_source_join_def apply_groups_def gi_include_def e1)
  have "rs_subscriptions st = {|asm ?g|}"
  proof (rule fset_eqI)
    fix x show "x |\<in>| rs_subscriptions st \<longleftrightarrow> x |\<in>| {|asm ?g|}"
      unfolding endpoint_map_subscriptions[OF inv]
      by (cases x) (auto simp: endpoint_interest_def wanted_def e asm_def split: option.splits if_splits)
  qed
  moreover have "rs_subscriptions (snd (remove_endpoint st (SockV4 1 1)))
      = {|ssm ?g (V4 0xC0000201), ssm ?g (V4 0xC0000202)|}"
  proof (rule fset_eqI)
    fix x show "x |\<in>| rs_subscriptions (snd (remove_endpoint st (SockV4 1 1))) \<longleftrightarrow>
        x |\<in>| {|ssm ?g (V4 0xC0000201), ssm ?g (V4 0xC0000202)|}"
      unfolding endpoint_map_subscriptions[OF state_inv_remove_endpoint[OF inv]]
      by (cases x) (auto simp: endpoint_interest_def wanted_def remove_endpoint_view e ssm_def wants_source_def
          split: option.splits if_splits)
  qed
  ultimately show ?thesis using inv by (simp add: fcard_finsert_if ssm_def)
qed

end
