(* ===== verification/Relay.thy ===== *)
theory Relay
  imports Relay_State Query
begin

text \<open>
  The relay of \<open>src/relay.rs\<close>: configuration, secret rotation, the Response MAC, ECN capability
  bookkeeping and the handler of AMT datagrams.  The HMAC-SHA256 of the \<open>hmac\<close> and \<open>sha2\<close>
  crates is the parameter \<open>hmac key message\<close>, the outcome of drawing a new secret from the
  operating system the parameter \<open>fresh\<close> (\<open>None\<close> when it fails), and the clock reading of a
  call the parameter \<open>now\<close>.
\<close>

section \<open>Configuration and state\<close>

type_synonym relay_secret = bytes
type_synonym hmac_fun = "bytes \<Rightarrow> bytes \<Rightarrow> bytes"

record relay_config =
  rc_bind :: socket_addr
  rc_advertise_ipv4 :: ipv4
  rc_advertise_ipv6 :: ipv6
  rc_secret :: relay_secret
  rc_include_gateway_address :: bool
  rc_ecn :: bool
  rc_limit :: bool
  rc_limits :: relay_limits
  rc_secret_rotation_interval :: "duration option"
  rc_general_query :: general_query_config

definition default_relay_config :: "relay_secret \<Rightarrow> relay_config" where
  "default_relay_config secret =
     \<lparr>rc_bind = SockV4 0 AMT_PORT, rc_advertise_ipv4 = 0x7F000001, rc_advertise_ipv6 = 1,
      rc_secret = secret, rc_include_gateway_address = True, rc_ecn = False, rc_limit = False,
      rc_limits = default_relay_limits,
      rc_secret_rotation_interval = Some (from_secs (2 * 60 * 60)), rc_general_query = for_amt\<rparr>"

definition for_bind :: "relay_secret \<Rightarrow> socket_addr \<Rightarrow> relay_config" where
  "for_bind secret bind =
     (let config = (default_relay_config secret)\<lparr>rc_bind := bind\<rparr> in
      case sock_ip bind of
        V4 addr \<Rightarrow> if \<not> ipv4_is_unspecified addr then config\<lparr>rc_advertise_ipv4 := addr\<rparr> else config
      | V6 addr \<Rightarrow> if \<not> ipv6_is_unspecified addr then config\<lparr>rc_advertise_ipv6 := addr\<rparr> else config)"

fun with_advertise_addr :: "ip_addr \<Rightarrow> relay_config \<Rightarrow> relay_config" where
  "with_advertise_addr (V4 addr) config = config\<lparr>rc_advertise_ipv4 := addr\<rparr>"
| "with_advertise_addr (V6 addr) config = config\<lparr>rc_advertise_ipv6 := addr\<rparr>"

fun advertised_addr_for :: "relay_config \<Rightarrow> socket_addr \<Rightarrow> ip_addr" where
  "advertised_addr_for config (SockV4 _ _) = V4 (rc_advertise_ipv4 config)"
| "advertised_addr_for config (SockV6 _ _ _ _) = V6 (rc_advertise_ipv6 config)"

record previous_secret =
  ps_secret :: relay_secret
  ps_rotated_at :: instant

record relay =
  r_config :: relay_config
  r_state :: relay_state
  r_previous_secret :: "previous_secret option"
  r_secret_rotated_at :: instant
  r_gateway_ecn_capabilities :: "(socket_addr, instant) btree_map"

datatype relay_action =
    Send bytes
  | AcceptedMembershipUpdate membership_protocol nat nat "upstream_subscription list"
  | AcceptedTeardown gateway_endpoint bool
  | RejectedAuth
  | Ignored

datatype relay_error =
    RelayDecode decode_error
  | RelayMembership membership_parse_error
  | RelayResourceLimit state_limit_error
  | RelayZeroNonce

definition relay_new :: "instant \<Rightarrow> relay_config \<Rightarrow> relay" where
  "relay_new now config =
     \<lparr>r_config = config, r_state = empty_state, r_previous_secret = None,
      r_secret_rotated_at = now, r_gateway_ecn_capabilities = fmempty\<rparr>"

section \<open>Authentication\<close>

definition response_mac_with_secret :: "hmac_fun \<Rightarrow> relay_secret \<Rightarrow> ip_addr \<Rightarrow> u16 \<Rightarrow> u32 \<Rightarrow> response_mac" where
  "response_mac_with_secret hmac secret gateway_ip gateway_port request_nonce =
     (let digest = hmac secret (gateway_octets (from_ip_addr gateway_ip) @
            be_bytes 2 gateway_port @ be_bytes 4 request_nonce)
      in from_be (take 6 digest))"

definition response_mac_of :: "hmac_fun \<Rightarrow> relay \<Rightarrow> ip_addr \<Rightarrow> u16 \<Rightarrow> u32 \<Rightarrow> response_mac" where
  "response_mac_of hmac r = response_mac_with_secret hmac (rc_secret (r_config r))"

text \<open>Twice the query interval: the grace of a rotated secret and the lifetime of a capability.\<close>

definition gateway_capability_lifetime :: "relay \<Rightarrow> duration" where
  "gateway_capability_lifetime r =
     query_interval (query_interval_code (rc_general_query (r_config r))) * 2"

definition valid_response_mac :: "hmac_fun \<Rightarrow> instant \<Rightarrow> relay \<Rightarrow> response_mac \<Rightarrow> ip_addr \<Rightarrow> u16 \<Rightarrow> u32 \<Rightarrow> bool" where
  "valid_response_mac hmac now r actual gateway_ip gateway_port request_nonce =
     (constant_time_eq actual (response_mac_of hmac r gateway_ip gateway_port request_nonce) \<or>
      (case r_previous_secret r of
         None \<Rightarrow> False
       | Some previous \<Rightarrow>
           if query_interval (query_interval_code (rc_general_query (r_config r))) * 2
                < elapsed now (ps_rotated_at previous)
           then False
           else constant_time_eq actual
             (response_mac_with_secret hmac (ps_secret previous) gateway_ip gateway_port request_nonce)))"

definition rotate_secret_if_due :: "relay_secret option \<Rightarrow> instant \<Rightarrow> relay \<Rightarrow> relay" where
  "rotate_secret_if_due fresh now r =
     (case rc_secret_rotation_interval (r_config r) of
        None \<Rightarrow> r
      | Some interval \<Rightarrow>
          if elapsed now (r_secret_rotated_at r) < interval then r
          else
            let previous_grace = query_interval (query_interval_code (rc_general_query (r_config r))) * 2 in
            if (case r_previous_secret r of None \<Rightarrow> False
                | Some previous \<Rightarrow> elapsed now (ps_rotated_at previous) \<le> previous_grace) then r
            else case fresh of
                None \<Rightarrow> r
              | Some next_secret \<Rightarrow>
                  r\<lparr>r_previous_secret := Some \<lparr>ps_secret = rc_secret (r_config r), ps_rotated_at = now\<rparr>,
                    r_config := (r_config r)\<lparr>rc_secret := next_secret\<rparr>,
                    r_secret_rotated_at := now\<rparr>)"

section \<open>ECN capabilities and admission\<close>

definition gateway_ecn_capable :: "instant \<Rightarrow> relay \<Rightarrow> socket_addr \<Rightarrow> bool" where
  "gateway_ecn_capable now r endpoint =
     (rc_ecn (r_config r) \<and>
      (case fmlookup (r_gateway_ecn_capabilities r) endpoint of
         None \<Rightarrow> False
       | Some observed \<Rightarrow> elapsed now observed \<le> gateway_capability_lifetime r))"

definition ecn_capable_gateway_count :: "instant \<Rightarrow> relay \<Rightarrow> nat" where
  "ecn_capable_gateway_count now r =
     length (filter (gateway_ecn_capable now r) (set_iter (fmdom (r_gateway_ecn_capabilities r))))"

definition remember_gateway_ecn_capability :: "instant \<Rightarrow> socket_addr \<Rightarrow> bool \<Rightarrow> relay \<Rightarrow> relay" where
  "remember_gateway_ecn_capability now endpoint capable r =
     (let lifetime = gateway_capability_lifetime r;
          retained = fmfilter (\<lambda>k. case fmlookup (r_gateway_ecn_capabilities r) k of
             None \<Rightarrow> False | Some observed \<Rightarrow> elapsed now observed \<le> lifetime)
             (r_gateway_ecn_capabilities r)
      in if \<not> rc_ecn (r_config r) \<or> \<not> capable
         then r\<lparr>r_gateway_ecn_capabilities := fmdrop endpoint retained\<rparr>
         else if fmlookup retained endpoint \<noteq> None \<or>
                 fcard (fmdom retained) < max_endpoints (rc_limits (r_config r))
         then r\<lparr>r_gateway_ecn_capabilities := fmupd endpoint now retained\<rparr>
         else r\<lparr>r_gateway_ecn_capabilities := retained\<rparr>)"

definition refusing_new_endpoint :: "relay \<Rightarrow> ip_addr \<Rightarrow> bool" where
  "refusing_new_endpoint r address =
     (rc_limit (r_config r) \<or> is_near_limits (r_state r) (rc_limits (r_config r)) \<or>
      is_ip_near_endpoint_limit (r_state r) address (max_endpoints_per_ip (rc_limits (r_config r))))"

definition remove_gateway :: "relay \<Rightarrow> socket_addr \<Rightarrow> bool \<times> relay" where
  "remove_gateway r endpoint =
     (case remove_endpoint (r_state r) endpoint of (removed, st) \<Rightarrow>
        (removed, r\<lparr>r_gateway_ecn_capabilities := fmdrop endpoint (r_gateway_ecn_capabilities r),
           r_state := st\<rparr>))"

section \<open>The datagram handler\<close>

text \<open>One definition per message the relay acts on.  Each returns the outcome together with the
  state to commit, if any, and the relay after the call.\<close>

type_synonym prepared = "(relay_error, relay_action \<times> relay_state option) res"

definition prepare_discovery :: "relay \<Rightarrow> socket_addr \<Rightarrow> u32 \<Rightarrow> prepared" where
  "prepare_discovery r peer discovery_nonce =
     (if discovery_nonce = 0 then Err RelayZeroNonce
      else Ok (Send (encode (RelayAdvertisement discovery_nonce
             (advertised_addr_for (r_config r) peer))), None))"

definition prepare_request :: "hmac_fun \<Rightarrow> relay \<Rightarrow> socket_addr \<Rightarrow> u32 \<Rightarrow> membership_protocol \<Rightarrow> prepared" where
  "prepare_request hmac r peer request_nonce protocol =
     (let response_mac = response_mac_of hmac r (sock_ip peer) (sock_port peer) request_nonce;
          general_query = build_general_query protocol (rc_general_query (r_config r));
          gateway = (if rc_include_gateway_address (r_config r)
                     then Some (gateway_endpoint_new (sock_port peer) (from_ip_addr (sock_ip peer)))
                     else None);
          response = MembershipQuery response_mac request_nonce
            (refusing_new_endpoint r (sock_ip peer)) gateway general_query
      in Ok (Send (encode response), None))"

definition prepare_update :: "hmac_fun \<Rightarrow> instant \<Rightarrow> relay \<Rightarrow> socket_addr \<Rightarrow> response_mac \<Rightarrow> u32 \<Rightarrow> bytes \<Rightarrow> prepared" where
  "prepare_update hmac now r peer response_mac request_nonce membership_update =
     (if valid_response_mac hmac now r response_mac (sock_ip peer) (sock_port peer) request_nonce then
        if \<not> contains_endpoint (r_state r) peer \<and> refusing_new_endpoint r (sock_ip peer)
        then Ok (Ignored, None)
        else
          bnd (map_err RelayMembership (parse_membership_report_with_limits membership_update
                 \<lparr>max_records = max_records_per_report (rc_limits (r_config r)),
                  max_sources_per_record = max_sources_per_group (rc_limits (r_config r))\<rparr>)) (\<lambda>report.
          case find (\<lambda>grp. \<not> is_amt_forwardable_group grp) (map mr_group (rp_records report)) of
            Some grp \<Rightarrow> Err (RelayMembership (MpInvalidMulticastGroup grp))
          | None \<Rightarrow>
              (case preview_report (r_state r) peer report of (records_applied, changed) \<Rightarrow>
                 if \<not> changed
                 then Ok (AcceptedMembershipUpdate (rp_protocol report) (length membership_update)
                        records_applied (upstream_subscriptions (r_state r)), None)
                 else
                   (case apply_report_limited (r_state r) peer report (rc_limits (r_config r)) of
                      (outcome, next_state) \<Rightarrow>
                        bnd (map_err RelayResourceLimit outcome) (\<lambda>_.
                        Ok (AcceptedMembershipUpdate (rp_protocol report) (length membership_update)
                              records_applied (upstream_subscriptions next_state),
                            Some next_state)))))
      else Ok (RejectedAuth, None))"

text \<open>The endpoint a Teardown names.\<close>

definition teardown_ip :: "gateway_endpoint \<Rightarrow> ip_addr" where
  "teardown_ip gateway = (case as_ipv4_compatible (ge_address gateway) of
      Some addr \<Rightarrow> V4 addr | None \<Rightarrow> V6 (as_ipv6 (ge_address gateway)))"

definition prepare_teardown :: "hmac_fun \<Rightarrow> instant \<Rightarrow> relay \<Rightarrow> response_mac \<Rightarrow> u32 \<Rightarrow> gateway_endpoint \<Rightarrow> prepared \<times> relay" where
  "prepare_teardown hmac now r response_mac request_nonce gateway =
     (let gateway_ip = teardown_ip gateway;
          endpoint = socket_new gateway_ip (ge_port gateway)
      in if valid_response_mac hmac now r response_mac gateway_ip (ge_port gateway) request_nonce then
           let r = r\<lparr>r_gateway_ecn_capabilities := fmdrop endpoint (r_gateway_ecn_capabilities r)\<rparr> in
           if \<not> contains_endpoint (r_state r) endpoint
           then (Ok (AcceptedTeardown gateway False, None), r)
           else (case remove_endpoint (r_state r) endpoint of (removed, next_state) \<Rightarrow>
             (Ok (AcceptedTeardown gateway removed, if removed then Some next_state else None), r))
         else (Ok (RejectedAuth, None), r))"

definition prepare_message :: "hmac_fun \<Rightarrow> instant \<Rightarrow> relay \<Rightarrow> socket_addr \<Rightarrow> message \<Rightarrow> prepared \<times> relay" where
  "prepare_message hmac now r peer m =
     (case m of
        RelayDiscovery discovery_nonce \<Rightarrow> (prepare_discovery r peer discovery_nonce, r)
      | Request request_nonce protocol ecn_capable \<Rightarrow>
          let r = remember_gateway_ecn_capability now peer ecn_capable r in
          (prepare_request hmac r peer request_nonce protocol, r)
      | MembershipUpdate response_mac request_nonce membership_update \<Rightarrow>
          (prepare_update hmac now r peer response_mac request_nonce membership_update, r)
      | Teardown response_mac request_nonce gateway \<Rightarrow>
          prepare_teardown hmac now r response_mac request_nonce gateway
      | RelayAdvertisement _ _ \<Rightarrow> (Ok (Ignored, None), r)
      | MembershipQuery _ _ _ _ _ \<Rightarrow> (Ok (Ignored, None), r)
      | MulticastData _ \<Rightarrow> (Ok (Ignored, None), r))"

definition prepare_datagram :: "hmac_fun \<Rightarrow> relay_secret option \<Rightarrow> instant \<Rightarrow> relay \<Rightarrow> socket_addr \<Rightarrow> bytes \<Rightarrow> prepared \<times> relay" where
  "prepare_datagram hmac fresh now r peer datagram =
     (let r = rotate_secret_if_due fresh now r in
      case map_err RelayDecode (decode datagram) of
        Ok m \<Rightarrow> prepare_message hmac now r peer m
      | Err e \<Rightarrow> (Err e, r)
      | Panic \<Rightarrow> (Panic, r))"

definition commit_state :: "relay_state \<Rightarrow> relay \<Rightarrow> relay" where
  "commit_state st r = r\<lparr>r_state := st\<rparr>"

definition handle_datagram :: "hmac_fun \<Rightarrow> relay_secret option \<Rightarrow> instant \<Rightarrow> relay \<Rightarrow> socket_addr \<Rightarrow> bytes \<Rightarrow>
    (relay_error, relay_action) res \<times> relay" where
  "handle_datagram hmac fresh now r peer datagram =
     (case prepare_datagram hmac fresh now r peer datagram of
        (Ok (action, Some next_state), r) \<Rightarrow> (Ok action, r\<lparr>r_state := next_state\<rparr>)
      | (Ok (action, None), r) \<Rightarrow> (Ok action, r)
      | (Err e, r) \<Rightarrow> (Err e, r)
      | (Panic, r) \<Rightarrow> (Panic, r))"

section \<open>What a call can change\<close>

definition grace :: "relay_config \<Rightarrow> duration" where
  "grace config = query_interval (query_interval_code (rc_general_query config)) * 2"

lemma valid_response_mac_iff:
  "valid_response_mac hmac now r mac ip port nonce \<longleftrightarrow>
     mac = response_mac_with_secret hmac (rc_secret (r_config r)) ip port nonce \<or>
     (\<exists>previous. r_previous_secret r = Some previous \<and> now - ps_rotated_at previous \<le> grace (r_config r) \<and>
        mac = response_mac_with_secret hmac (ps_secret previous) ip port nonce)"
  by (auto simp: valid_response_mac_def constant_time_eq_iff response_mac_of_def grace_def elapsed_def
      split: option.splits)

lemma rotate_secret_cases [case_names kept rotated]:
  obtains "rotate_secret_if_due fresh now r = r"
  | next_secret where
    "rotate_secret_if_due fresh now r =
       r\<lparr>r_previous_secret := Some \<lparr>ps_secret = rc_secret (r_config r), ps_rotated_at = now\<rparr>,
         r_config := (r_config r)\<lparr>rc_secret := next_secret\<rparr>, r_secret_rotated_at := now\<rparr>"
    "fresh = Some next_secret"
    "\<And>previous. r_previous_secret r = Some previous \<Longrightarrow> grace (r_config r) < now - ps_rotated_at previous"
proof (cases "rotate_secret_if_due fresh now r = r")
  case False
  then obtain next_secret where n: "fresh = Some next_secret"
    and p: "\<not> (case r_previous_secret r of None \<Rightarrow> False
      | Some previous \<Rightarrow> elapsed now (ps_rotated_at previous) \<le> grace (r_config r))"
    and i: "rc_secret_rotation_interval (r_config r) \<noteq> None"
      "\<not> elapsed now (r_secret_rotated_at r) < the (rc_secret_rotation_interval (r_config r))"
    by (simp add: rotate_secret_if_due_def grace_def Let_def split: option.splits if_splits)
  have eq: "rotate_secret_if_due fresh now r =
       r\<lparr>r_previous_secret := Some \<lparr>ps_secret = rc_secret (r_config r), ps_rotated_at = now\<rparr>,
         r_config := (r_config r)\<lparr>rc_secret := next_secret\<rparr>, r_secret_rotated_at := now\<rparr>"
    using n p i unfolding rotate_secret_if_due_def Let_def grace_def by (auto split: option.split)
  from p have "grace (r_config r) < now - ps_rotated_at previous" if "r_previous_secret r = Some previous" for previous
    using that by (simp add: elapsed_def)
  with eq n show ?thesis using that(2) by blast
qed (rule that(1))

lemma rotate_secret_keeps [simp]:
  "r_state (rotate_secret_if_due fresh now r) = r_state r"
  "r_gateway_ecn_capabilities (rotate_secret_if_due fresh now r) = r_gateway_ecn_capabilities r"
  "rc_limits (r_config (rotate_secret_if_due fresh now r)) = rc_limits (r_config r)"
  "rc_general_query (r_config (rotate_secret_if_due fresh now r)) = rc_general_query (r_config r)"
  "rc_ecn (r_config (rotate_secret_if_due fresh now r)) = rc_ecn (r_config r)"
  by (cases rule: rotate_secret_cases[of fresh now r]; simp)+

lemma remember_keeps [simp]:
  "r_state (remember_gateway_ecn_capability now e c r) = r_state r"
  "r_config (remember_gateway_ecn_capability now e c r) = r_config r"
  "r_previous_secret (remember_gateway_ecn_capability now e c r) = r_previous_secret r"
  by (simp_all add: remember_gateway_ecn_capability_def Let_def)

lemma prepare_teardown_keeps [simp]:
  "r_state (snd (prepare_teardown hmac now r mac nonce g)) = r_state r"
  "r_config (snd (prepare_teardown hmac now r mac nonce g)) = r_config r"
  "r_previous_secret (snd (prepare_teardown hmac now r mac nonce g)) = r_previous_secret r"
  by (simp_all add: prepare_teardown_def Let_def case_prod_unfold)

lemma prepare_message_keeps [simp]:
  "r_state (snd (prepare_message hmac now r peer m)) = r_state r"
  "r_config (snd (prepare_message hmac now r peer m)) = r_config r"
  "r_previous_secret (snd (prepare_message hmac now r peer m)) = r_previous_secret r"
  by (simp_all add: prepare_message_def Let_def split: message.split)

text \<open>Preparing a datagram never touches the membership state, and touches the secrets only by
  a rotation.\<close>

lemma prepare_datagram_keeps [simp]:
  "r_state (snd (prepare_datagram hmac fresh now r peer d)) = r_state r"
  "r_config (snd (prepare_datagram hmac fresh now r peer d)) = r_config (rotate_secret_if_due fresh now r)"
  "r_previous_secret (snd (prepare_datagram hmac fresh now r peer d)) =
     r_previous_secret (rotate_secret_if_due fresh now r)"
  by (simp_all add: prepare_datagram_def Let_def split: res.split)

lemma handle_datagram_snd:
  "snd (handle_datagram hmac fresh now r peer d) =
     (case fst (prepare_datagram hmac fresh now r peer d) of
        Ok (action, Some st) \<Rightarrow> commit_state st (snd (prepare_datagram hmac fresh now r peer d))
      | _ \<Rightarrow> snd (prepare_datagram hmac fresh now r peer d))"
  by (auto simp: handle_datagram_def commit_state_def split: res.splits option.splits prod.splits)

lemma handle_datagram_fst:
  "fst (handle_datagram hmac fresh now r peer d) =
     bnd (fst (prepare_datagram hmac fresh now r peer d)) (\<lambda>(action, _). Ok action)"
  by (auto simp: handle_datagram_def split: res.splits option.splits prod.splits)

lemma commit_state_simps [simp]:
  "r_state (commit_state st r) = st" "r_config (commit_state st r) = r_config r"
  "r_previous_secret (commit_state st r) = r_previous_secret r"
  "r_gateway_ecn_capabilities (commit_state st r) = r_gateway_ecn_capabilities r"
  by (simp_all add: commit_state_def)

lemma handle_datagram_keeps [simp]:
  "r_config (snd (handle_datagram hmac fresh now r peer d)) = r_config (rotate_secret_if_due fresh now r)"
  "r_previous_secret (snd (handle_datagram hmac fresh now r peer d)) =
     r_previous_secret (rotate_secret_if_due fresh now r)"
  by (simp_all add: handle_datagram_snd split: res.split option.split prod.split)

lemma remove_gateway_simps [simp]:
  "r_config (snd (remove_gateway r e)) = r_config r"
  "r_previous_secret (snd (remove_gateway r e)) = r_previous_secret r"
  "r_state (snd (remove_gateway r e)) = snd (remove_endpoint (r_state r) e)"
  "r_gateway_ecn_capabilities (snd (remove_gateway r e)) = fmdrop e (r_gateway_ecn_capabilities r)"
  by (simp_all add: remove_gateway_def case_prod_unfold)

section \<open>Runs of the relay\<close>

text \<open>A run interleaves, at times that do not decrease, datagrams that are handled, datagrams
  that are prepared but whose state is not committed, and removals of gateways; whether a new
  secret is drawn is arbitrary.\<close>

inductive relay_run :: "hmac_fun \<Rightarrow> instant \<Rightarrow> relay \<Rightarrow> instant \<Rightarrow> relay \<Rightarrow> bool" for hmac t r where
  start: "relay_run hmac t r t r"
| datagram: "relay_run hmac t r t1 r1 \<Longrightarrow> t1 \<le> t2 \<Longrightarrow>
    relay_run hmac t r t2 (snd (handle_datagram hmac fresh t2 r1 peer d))"
| uncommitted: "relay_run hmac t r t1 r1 \<Longrightarrow> t1 \<le> t2 \<Longrightarrow>
    relay_run hmac t r t2 (snd (prepare_datagram hmac fresh t2 r1 peer d))"
| removal: "relay_run hmac t r t1 r1 \<Longrightarrow> t1 \<le> t2 \<Longrightarrow>
    relay_run hmac t r t2 (snd (remove_gateway r1 e))"

lemma relay_run_time: "relay_run hmac t r t' r' \<Longrightarrow> t \<le> t'"
  by (induction rule: relay_run.induct) auto

text \<open>The secret in force at time \<open>t\<close> is known at \<open>t'\<close>, or its grace has passed.\<close>

definition secret_known :: "relay_secret \<Rightarrow> instant \<Rightarrow> instant \<Rightarrow> relay \<Rightarrow> bool" where
  "secret_known s t t' r \<longleftrightarrow> rc_secret (r_config r) = s \<or>
     (\<exists>previous. r_previous_secret r = Some previous \<and> ps_secret previous = s \<and> t \<le> ps_rotated_at previous) \<or>
     t + grace (r_config r) < t'"

lemma secret_known_rotate:
  assumes "secret_known s t t1 r" and "t \<le> t1" "t1 \<le> t2"
  shows "secret_known s t t2 (rotate_secret_if_due fresh t2 r)"
proof (cases rule: rotate_secret_cases[of fresh t2 r])
  case kept
  then show ?thesis using assms by (auto simp: secret_known_def)
next
  case (rotated next_secret)
  from assms(1) consider "rc_secret (r_config r) = s"
    | previous where "r_previous_secret r = Some previous" "t \<le> ps_rotated_at previous"
    | "t + grace (r_config r) < t1" by (auto simp: secret_known_def)
  then show ?thesis
  proof cases
    case 2
    with rotated(3)[of previous] have "t + grace (r_config r) < t2" by simp
    then show ?thesis using rotated(1) by (simp add: secret_known_def grace_def)
  qed (use rotated(1) assms in \<open>auto simp: secret_known_def grace_def\<close>)
qed

lemma secret_known_step:
  assumes "secret_known s t t1 r" and "t \<le> t1" "t1 \<le> t2"
    and "r_config r' = r_config (rotate_secret_if_due fresh t2 r)"
    and "r_previous_secret r' = r_previous_secret (rotate_secret_if_due fresh t2 r)"
  shows "secret_known s t t2 r' \<and> grace (r_config r') = grace (r_config r)"
  using secret_known_rotate[OF assms(1-3), of fresh] assms(4,5) by (simp add: secret_known_def grace_def)

lemma secret_known_run:
  assumes "relay_run hmac t r t' r'"
  shows "secret_known (rc_secret (r_config r)) t t' r' \<and> grace (r_config r') = grace (r_config r)"
  using assms
proof (induction rule: relay_run.induct)
  case (datagram t1 r1 t2 fresh peer d)
  from datagram.IH show ?case
    using secret_known_step[OF _ relay_run_time[OF datagram.hyps(1)] datagram.hyps(2)
        handle_datagram_keeps(1) handle_datagram_keeps(2)] by metis
next
  case (uncommitted t1 r1 t2 fresh peer d)
  from uncommitted.IH show ?case
    using secret_known_step[OF _ relay_run_time[OF uncommitted.hyps(1)] uncommitted.hyps(2)
        prepare_datagram_keeps(2) prepare_datagram_keeps(3)] by metis
qed (auto simp: secret_known_def)

lemma secret_known_valid:
  assumes "secret_known s t t' r" and "t' \<le> t + grace (r_config r)"
  shows "valid_response_mac hmac t' r (response_mac_with_secret hmac s ip port nonce) ip port nonce"
  using assms by (auto simp: secret_known_def valid_response_mac_iff)

section \<open>Reports, teardowns and the invariant\<close>

lemma preview_changed_inv:
  assumes "state_inv st" "limits_inv limits st" "apply_report_limited st e rp limits = (outcome, st')"
  shows "state_inv st' \<and> limits_inv limits st' \<and> (\<forall>e'. e' \<noteq> e \<longrightarrow>
    fmlookup (rs_endpoints st') e' = fmlookup (rs_endpoints st) e') \<and> no_panic outcome"
  using state_inv_apply_report_limited[OF assms(1), of e rp limits]
    limits_inv_apply_report_limited[OF assms(1,2), of e rp] apply_report_limited_other[OF assms(1), of _ e rp limits]
    table.submit_total[OF assms(1), of e rp limits] assms(3)
  by (simp add: no_panic_iff)

text \<open>What a state to commit comes from: an authenticated update of the peer or an
  authenticated teardown of the endpoint it names.\<close>

lemma prepare_update_cases:
  assumes "state_inv (r_state r)"
  shows "no_panic (prepare_update hmac now r peer mac nonce u)"
    and "prepare_update hmac now r peer mac nonce u = Ok (action, Some st) \<Longrightarrow>
      valid_response_mac hmac now r mac (sock_ip peer) (sock_port peer) nonce \<and>
      (\<exists>rp. st = snd (apply_report_limited (r_state r) peer rp (rc_limits (r_config r))))"
proof -
  show "no_panic (prepare_update hmac now r peer mac nonce u)"
    using table.submit_total[OF assms]
    by (auto simp: prepare_update_def no_panic_parse_membership_report_raw no_panic_iff[of "fst _"]
        case_prod_unfold intro!: no_panic_bnd split: option.split)
  show "valid_response_mac hmac now r mac (sock_ip peer) (sock_port peer) nonce \<and>
      (\<exists>rp. st = snd (apply_report_limited (r_state r) peer rp (rc_limits (r_config r))))"
    if "prepare_update hmac now r peer mac nonce u = Ok (action, Some st)"
    using that
    by (auto simp: prepare_update_def case_prod_unfold bnd_eq_Ok split: if_splits option.splits)
qed

lemma prepare_teardown_Some:
  assumes "fst (prepare_teardown hmac now r mac nonce g) = Ok (action, Some st)"
  shows "valid_response_mac hmac now r mac (teardown_ip g) (ge_port g) nonce \<and>
    st = snd (remove_endpoint (r_state r) (socket_new (teardown_ip g) (ge_port g)))"
  using assms by (auto simp: prepare_teardown_def Let_def case_prod_unfold split: if_splits)

lemma no_panic_prepare_datagram:
  assumes "state_inv (r_state r)"
  shows "no_panic (fst (prepare_datagram hmac fresh now r peer d))"
proof -
  have m: "no_panic (fst (prepare_message hmac now r' peer m))" if "state_inv (r_state r')" for r' m
    using prepare_update_cases(1)[OF that]
    by (cases m) (simp_all add: prepare_message_def prepare_discovery_def prepare_request_def
        prepare_teardown_def Let_def case_prod_unfold)
  then show ?thesis
    using assms no_panic_decode[of d]
    by (cases "decode d") (simp_all add: prepare_datagram_def Let_def)
qed

text \<open>The endpoint and MAC an authenticated datagram acts for.\<close>

definition acts_for :: "socket_addr \<Rightarrow> bytes \<Rightarrow> socket_addr \<Rightarrow> response_mac \<Rightarrow> u32 \<Rightarrow> bool" where
  "acts_for peer d e mac nonce \<longleftrightarrow>
     (\<exists>u. decode d = Ok (MembershipUpdate mac nonce u) \<and> e = peer) \<or>
     (\<exists>g. decode d = Ok (Teardown mac nonce g) \<and> e = socket_new (teardown_ip g) (ge_port g))"

lemma prepare_datagram_Some:
  assumes inv: "state_inv (r_state r)"
    and ok: "fst (prepare_datagram hmac fresh now r peer d) = Ok (action, Some st)"
  shows "\<exists>e mac nonce. acts_for peer d e mac nonce \<and>
    valid_response_mac hmac now (rotate_secret_if_due fresh now r) mac (sock_ip e) (sock_port e) nonce \<and>
    ((\<exists>rp. st = snd (apply_report_limited (r_state r) e rp (rc_limits (r_config r)))) \<or>
     st = snd (remove_endpoint (r_state r) e))"
proof -
  let ?r = "rotate_secret_if_due fresh now r"
  from ok obtain m where m: "decode d = Ok m" "fst (prepare_message hmac now ?r peer m) = Ok (action, Some st)"
    by (cases "decode d") (simp_all add: prepare_datagram_def Let_def)
  show ?thesis
  proof (cases m)
    case (MembershipUpdate mac nonce u)
    with m(2) have "prepare_update hmac now ?r peer mac nonce u = Ok (action, Some st)"
      by (simp add: prepare_message_def)
    from prepare_update_cases(2)[OF _ this] inv m(1) MembershipUpdate show ?thesis
      by (auto simp: acts_for_def)
  next
    case (Teardown mac nonce g)
    with m(2) have "fst (prepare_teardown hmac now ?r mac nonce g) = Ok (action, Some st)"
      by (simp add: prepare_message_def)
    from prepare_teardown_Some[OF this] m(1) Teardown show ?thesis
      by (auto simp: acts_for_def)
  qed (use m(2) in \<open>auto simp: prepare_message_def prepare_discovery_def prepare_request_def Let_def
        split: if_splits\<close>)
qed

section \<open>The ECN capability table\<close>

lemma fcard_fmfilter_le: "fcard (fmdom (fmfilter P m)) \<le> fcard (fmdom m)"
  by (rule fcard_mono) (auto simp: less_eq_fset.rep_eq)

lemma fcard_fmupd_le: "fcard (fmdom (fmupd k v m)) \<le> (if fmlookup m k = None then Suc (fcard (fmdom m)) else fcard (fmdom m))"
proof -
  have "fmlookup m k \<noteq> None \<Longrightarrow> finsert k (fmdom m) = fmdom m" by (auto intro: fmdomI)
  then show ?thesis by (auto simp: fcard_finsert_if fmdom_notI)
qed

lemma remember_bounded:
  assumes "fcard (fmdom (r_gateway_ecn_capabilities r)) \<le> max_endpoints (rc_limits (r_config r))"
  shows "fcard (fmdom (r_gateway_ecn_capabilities (remember_gateway_ecn_capability now e c r)))
    \<le> max_endpoints (rc_limits (r_config r))"
proof -
  define kept where "kept = fmfilter (\<lambda>k. case fmlookup (r_gateway_ecn_capabilities r) k of
     None \<Rightarrow> False | Some observed \<Rightarrow> elapsed now observed \<le> gateway_capability_lifetime r) (r_gateway_ecn_capabilities r)"
  have k: "fcard (fmdom kept) \<le> max_endpoints (rc_limits (r_config r))"
    using fcard_fmfilter_le assms order_trans unfolding kept_def by blast
  have d: "fcard (fmdom (fmdrop e kept)) \<le> fcard (fmdom kept)" by (rule btree.size_remove_le)
  show ?thesis
    using k d fcard_fmupd_le[of e now kept]
    by (auto simp: remember_gateway_ecn_capability_def Let_def kept_def[symmetric] split: if_splits)
qed

lemma prepare_message_caps:
  "r_gateway_ecn_capabilities (snd (prepare_message hmac now r peer m)) =
     (case m of
        Request nonce p c \<Rightarrow> r_gateway_ecn_capabilities (remember_gateway_ecn_capability now peer c r)
      | Teardown mac nonce g \<Rightarrow>
          if valid_response_mac hmac now r mac (teardown_ip g) (ge_port g) nonce
          then fmdrop (socket_new (teardown_ip g) (ge_port g)) (r_gateway_ecn_capabilities r)
          else r_gateway_ecn_capabilities r
      | _ \<Rightarrow> r_gateway_ecn_capabilities r)"
  by (simp add: prepare_message_def prepare_teardown_def Let_def case_prod_unfold split: message.split)

text \<open>The relay's invariant: membership state and indexes, limits, and a bounded table.\<close>

definition relay_inv :: "relay \<Rightarrow> bool" where
  "relay_inv r \<longleftrightarrow> state_inv (r_state r) \<and> limits_inv (rc_limits (r_config r)) (r_state r) \<and>
     fcard (fmdom (r_gateway_ecn_capabilities r)) \<le> max_endpoints (rc_limits (r_config r))"

lemma relay_inv_new: "relay_inv (relay_new now config)"
  by (simp add: relay_inv_def relay_new_def limits_inv_empty fcard.rep_eq)

lemma relay_inv_prepare:
  assumes "relay_inv r"
  shows "relay_inv (snd (prepare_datagram hmac fresh now r peer d))"
proof -
  let ?r = "rotate_secret_if_due fresh now r"
  have b: "fcard (fmdom (r_gateway_ecn_capabilities ?r)) \<le> max_endpoints (rc_limits (r_config ?r))"
    using assms by (simp add: relay_inv_def)
  have drop: "fcard (fmdom (fmdrop e (r_gateway_ecn_capabilities r))) \<le> max_endpoints (rc_limits (r_config r))" for e
    using btree.size_remove_le[of e "r_gateway_ecn_capabilities r"] assms by (simp add: relay_inv_def)
  have "fcard (fmdom (r_gateway_ecn_capabilities (snd (prepare_message hmac now ?r peer m))))
      \<le> max_endpoints (rc_limits (r_config r))" for m
    unfolding prepare_message_caps
    using remember_bounded[OF b] b drop by (simp split: message.split)
  then show ?thesis
    using assms unfolding relay_inv_def
    by (simp add: prepare_datagram_def Let_def split: res.split)
qed

lemma handle_datagram_state:
  assumes inv: "relay_inv r"
  obtains (unchanged) "r_state (snd (handle_datagram hmac fresh now r peer d)) = r_state r"
  | (update) e mac nonce rp where "acts_for peer d e mac nonce"
    "valid_response_mac hmac now (rotate_secret_if_due fresh now r) mac (sock_ip e) (sock_port e) nonce"
    "r_state (snd (handle_datagram hmac fresh now r peer d)) =
       snd (apply_report_limited (r_state r) e rp (rc_limits (r_config r)))"
  | (teardown) e mac nonce where "acts_for peer d e mac nonce"
    "valid_response_mac hmac now (rotate_secret_if_due fresh now r) mac (sock_ip e) (sock_port e) nonce"
    "r_state (snd (handle_datagram hmac fresh now r peer d)) = snd (remove_endpoint (r_state r) e)"
proof (cases "\<exists>action st. fst (prepare_datagram hmac fresh now r peer d) = Ok (action, Some st)")
  case True
  then obtain action st where ok: "fst (prepare_datagram hmac fresh now r peer d) = Ok (action, Some st)" by blast
  then have "r_state (snd (handle_datagram hmac fresh now r peer d)) = st" by (simp add: handle_datagram_snd)
  moreover have "state_inv (r_state r)" using inv by (simp add: relay_inv_def)
  ultimately show ?thesis using prepare_datagram_Some[OF _ ok] update teardown by blast
next
  case False
  then have "r_state (snd (handle_datagram hmac fresh now r peer d)) = r_state r"
    by (auto simp: handle_datagram_snd split: res.split option.split)
  then show ?thesis by (rule unchanged)
qed

lemma relay_inv_handle:
  assumes "relay_inv r"
  shows "relay_inv (snd (handle_datagram hmac fresh now r peer d))"
proof -
  let ?r = "snd (handle_datagram hmac fresh now r peer d)"
  have caps: "r_gateway_ecn_capabilities ?r = r_gateway_ecn_capabilities (snd (prepare_datagram hmac fresh now r peer d))"
    by (simp add: handle_datagram_snd split: res.split option.split prod.split)
  have inv: "state_inv (r_state r)" "limits_inv (rc_limits (r_config r)) (r_state r)"
    using assms by (simp_all add: relay_inv_def)
  have "state_inv (r_state ?r) \<and> limits_inv (rc_limits (r_config r)) (r_state ?r)"
    using assms
    by (cases rule: handle_datagram_state[of r hmac fresh now peer d])
       (use inv in \<open>simp_all add: state_inv_apply_report_limited limits_inv_apply_report_limited
          state_inv_remove_endpoint limits_inv_remove_endpoint\<close>)
  then show ?thesis
    using relay_inv_prepare[OF assms, of hmac fresh now peer d] by (simp add: relay_inv_def caps)
qed

lemma relay_inv_remove_gateway: "relay_inv r \<Longrightarrow> relay_inv (snd (remove_gateway r e))"
  using btree.size_remove_le[of e "r_gateway_ecn_capabilities r"]
  by (simp add: relay_inv_def state_inv_remove_endpoint limits_inv_remove_endpoint)

lemma relay_run_inv: "relay_run hmac t r t' r' \<Longrightarrow> relay_inv r \<Longrightarrow> relay_inv r'"
  by (induction rule: relay_run.induct)
     (simp_all add: relay_inv_handle relay_inv_prepare relay_inv_remove_gateway)

section \<open>Properties of the relay\<close>

lemma handle_request:
  "handle_datagram hmac fresh now r peer (encode (Request nonce p c)) =
     (let r' = remember_gateway_ecn_capability now peer c (rotate_secret_if_due fresh now r)
      in (Ok (Send (encode (MembershipQuery (response_mac_of hmac r' (sock_ip peer) (sock_port peer) nonce)
            nonce (refusing_new_endpoint r' (sock_ip peer))
            (if rc_include_gateway_address (r_config r')
             then Some (gateway_endpoint_new (sock_port peer) (from_ip_addr (sock_ip peer))) else None)
            (build_general_query p (rc_general_query (r_config r')))))), r'))"
  by (simp add: handle_datagram_def prepare_datagram_def prepare_message_def prepare_request_def
      decode_encode_raw Let_def)

lemma handle_update:
  "handle_datagram hmac fresh now r peer (encode (MembershipUpdate mac nonce u)) =
     (let r' = rotate_secret_if_due fresh now r
      in case prepare_update hmac now r' peer mac nonce u of
           Ok (action, Some st) \<Rightarrow> (Ok action, r'\<lparr>r_state := st\<rparr>)
         | Ok (action, None) \<Rightarrow> (Ok action, r')
         | Err e \<Rightarrow> (Err e, r')
         | Panic \<Rightarrow> (Panic, r'))"
  by (simp add: handle_datagram_def prepare_datagram_def prepare_message_def decode_encode_raw Let_def)

lemma prepare_update_valid:
  "valid_response_mac hmac now r mac (sock_ip peer) (sock_port peer) nonce \<Longrightarrow>
   prepare_update hmac now r peer mac nonce u \<noteq> Ok (RejectedAuth, st)"
  by (auto simp: prepare_update_def case_prod_unfold bnd_eq_Ok split: option.splits if_splits)

text \<open>A relay with the default configuration, and a stand-in for the MAC.\<close>

definition sample_hmac :: hmac_fun where
  "sample_hmac key m = take 32 (map2 (XOR) (key @ key) (m @ replicate 32 0))"

definition sample_relay :: relay where
  "sample_relay = relay_new 0 (for_bind (replicate 32 7) (SockV4 0xC0000264 2268))"

lemma sample_relay_inv: "relay_inv sample_relay"
  unfolding sample_relay_def by (rule relay_inv_new)

lemma sample_grace: "query_interval (query_interval_code (rc_general_query (r_config sample_relay))) * 2 = from_secs 250"
  by (simp add: sample_relay_def relay_new_def for_bind_def Let_def default_relay_config_def for_amt_def
      query_interval_def ipv4_is_unspecified_def from_secs_def)

text \<open>C2: the Response MAC of a Membership Query is good for twice the query interval.  Whatever
  other datagrams arrive meanwhile, however often the secret is due for rotation, and whether
  drawing a secret succeeds, the Membership Update that carries it back from the same address and
  port is not rejected as unauthenticated.\<close>

theorem query_mac_accepted:
  assumes "handle_datagram hmac fresh t r peer (encode (Request nonce p c)) = (Ok (Send query), r1)"
    and "relay_run hmac t r1 t1 r2" and "t1 \<le> t2"
    and "t2 \<le> t + query_interval (query_interval_code (rc_general_query (r_config r))) * 2"
  shows "\<exists>mac limit gateway general_query.
    decode query = Ok (MembershipQuery mac nonce limit gateway general_query) \<and>
    fst (handle_datagram hmac fresh' t2 r2 peer (encode (MembershipUpdate mac nonce report))) \<noteq> Ok RejectedAuth"
proof -
  let ?s = "rc_secret (r_config r1)" and ?r = "rotate_secret_if_due fresh' t2 r2"
  let ?mac = "response_mac_with_secret hmac ?s (sock_ip peer) (sock_port peer) nonce"
  from assms(1) have r1: "r1 = remember_gateway_ecn_capability t peer c (rotate_secret_if_due fresh t r)"
    and q: "\<exists>limit gateway gq. query = encode (MembershipQuery ?mac nonce limit gateway gq)"
    unfolding handle_request Let_def response_mac_of_def by blast+
  have g: "grace (r_config r1) = grace (r_config r)" by (simp add: r1 grace_def)
  from secret_known_run[OF assms(2)] have k: "secret_known ?s t t1 r2" "grace (r_config r2) = grace (r_config r1)"
    by auto
  from secret_known_rotate[OF k(1) relay_run_time[OF assms(2)] assms(3)]
  have "secret_known ?s t t2 ?r" .
  then have v: "valid_response_mac hmac t2 ?r ?mac (sock_ip peer) (sock_port peer) nonce"
    by (rule secret_known_valid) (use assms(4) g k(2) in \<open>simp add: grace_def\<close>)
  have "fst (handle_datagram hmac fresh' t2 r2 peer (encode (MembershipUpdate ?mac nonce report))) \<noteq> Ok RejectedAuth"
    unfolding handle_update Let_def
    using prepare_update_valid[OF v, of report] by (auto split: res.split option.split)
  with q show ?thesis by (auto simp: decode_encode_raw)
qed

theorem query_mac_accepted_witness:
  "\<exists>query mac limit gateway general_query.
     fst (handle_datagram sample_hmac None 0 sample_relay sample_gateway (encode (Request 5 Igmpv3 False))) = Ok (Send query) \<and>
     decode query = Ok (MembershipQuery mac 5 limit gateway general_query) \<and>
     fst (handle_datagram sample_hmac (Some [1]) (from_secs 250)
        (snd (handle_datagram sample_hmac None 0 sample_relay sample_gateway (encode (Request 5 Igmpv3 False))))
        sample_gateway (encode (MembershipUpdate mac 5 []))) \<noteq> Ok RejectedAuth"
proof -
  obtain query r1 where h: "handle_datagram sample_hmac None 0 sample_relay sample_gateway (encode (Request 5 Igmpv3 False))
      = (Ok (Send query), r1)" by (simp add: handle_request Let_def)
  show ?thesis
    using query_mac_accepted[OF h relay_run.start, of "from_secs 250" "Some [1]" "[]"] by (auto simp: h sample_grace)
qed

text \<open>C3: only authenticated datagrams change the membership state.  When handling a datagram
  changes it, the datagram is a Membership Update or a Teardown whose MAC the current secret, or
  the previous one in its grace, gives for the endpoint concerned (the sender's address for an
  update, the address it names for a teardown), and the interests of every other endpoint stay as
  they are.\<close>

theorem relay_state_authenticated:
  assumes "relay_inv r" and "handle_datagram hmac fresh now r peer d = (outcome, r')"
    and "r_state r' \<noteq> r_state r"
  shows "\<exists>e mac nonce. acts_for peer d e mac nonce \<and>
    valid_response_mac hmac now (rotate_secret_if_due fresh now r) mac (sock_ip e) (sock_port e) nonce \<and>
    (\<forall>e'. e' \<noteq> e \<longrightarrow> fmlookup (rs_endpoints (r_state r')) e' = fmlookup (rs_endpoints (r_state r)) e')"
proof -
  have inv: "state_inv (r_state r)" using assms(1) by (simp add: relay_inv_def)
  have r': "r' = snd (handle_datagram hmac fresh now r peer d)" using assms(2) by simp
  from assms(1) show ?thesis
  proof (cases rule: handle_datagram_state[of r hmac fresh now peer d])
    case (update e mac nonce rp)
    then show ?thesis using apply_report_limited_other[OF inv] r' by metis
  next
    case (teardown e mac nonce)
    then show ?thesis using r' by (auto simp: remove_endpoint_view(1))
  qed (use assms(3) r' in simp)
qed

lemma sample_teardown:
  "prepare_teardown sample_hmac 0 (sample_relay\<lparr>r_state := sample_state\<rparr>)
     (response_mac_with_secret sample_hmac (rc_secret (r_config sample_relay)) (V4 0xC6336401) 40000 9) 9
     (gateway_endpoint_new 40000 (from_ip_addr (V4 0xC6336401))) =
   (Ok (AcceptedTeardown (gateway_endpoint_new 40000 (from_ip_addr (V4 0xC6336401))) True,
      Some (snd (remove_endpoint sample_state sample_gateway))), sample_relay\<lparr>r_state := sample_state\<rparr>)"
proof -
  have ip: "teardown_ip (gateway_endpoint_new 40000 (from_ip_addr (V4 0xC6336401))) = V4 0xC6336401"
    by (simp add: teardown_ip_def gateway_endpoint_new_def del: from_ip_addr.simps)
  have caps: "r_gateway_ecn_capabilities sample_relay = fmempty" by (simp add: sample_relay_def relay_new_def)
  then have r: "sample_relay\<lparr>r_state := sample_state, r_gateway_ecn_capabilities := fmempty\<rparr> = sample_relay\<lparr>r_state := sample_state\<rparr>"
    by (cases sample_relay) simp
  show ?thesis
    unfolding prepare_teardown_def ip
    by (simp add: valid_response_mac_iff gateway_endpoint_new_def contains_endpoint_def sample_state_endpoints
        sample_gateway_def remove_endpoint_view case_prod_unfold Let_def caps r fmlookup_dom_iff
        del: from_ip_addr.simps)
qed

lemma sample_teardown_handled:
  "handle_datagram sample_hmac None 0 (sample_relay\<lparr>r_state := sample_state\<rparr>) sample_gateway
     (encode (Teardown (response_mac_with_secret sample_hmac (rc_secret (r_config sample_relay)) (V4 0xC6336401) 40000 9) 9
        (gateway_endpoint_new 40000 (from_ip_addr (V4 0xC6336401))))) =
   (Ok (AcceptedTeardown (gateway_endpoint_new 40000 (from_ip_addr (V4 0xC6336401))) True),
    sample_relay\<lparr>r_state := snd (remove_endpoint sample_state sample_gateway)\<rparr>)"
proof -
  have "rotate_secret_if_due None 0 (sample_relay\<lparr>r_state := sample_state\<rparr>) = sample_relay\<lparr>r_state := sample_state\<rparr>"
    by (cases rule: rotate_secret_cases[of None 0 "sample_relay\<lparr>r_state := sample_state\<rparr>"]) simp_all
  then show ?thesis
    by (simp add: handle_datagram_def prepare_datagram_def decode_encode_raw prepare_message_def sample_teardown Let_def
        del: from_ip_addr.simps)
qed

lemma sample_state_limits: "limits_inv default_relay_limits sample_state"
proof -
  have st_eq: "rebuild_indexes sample_state = sample_state"
    using sample_state_inv by (simp add: state_inv_def)
  have one: "map_iter (fmupd k v fmempty) = [(k, v)]" for k :: "'k::linorder" and v :: 'v
    by (simp add: sorted_list_of_fmap_def sorted_list_of_fset.rep_eq)
  have c: "card {e. sample_gateway = e \<and> (sample_gateway = e \<longrightarrow> sock_ip sample_gateway = ip)} \<le> 256" for ip
  proof -
    have "card {e. sample_gateway = e \<and> (sample_gateway = e \<longrightarrow> sock_ip sample_gateway = ip)} \<le> card {sample_gateway}"
      by (rule card_mono) auto
    then show ?thesis by simp
  qed
  show ?thesis
    unfolding limits_inv_def indexes_correct(5)[OF st_eq] indexes_correct(7)[OF st_eq]
    by (simp add: c endpoint_count_def endpoint_count_for_ip_card sample_state_endpoints one interests_def
        endpoint_limits_def default_relay_limits_def fcard.rep_eq)
qed

lemma sample_removal: "rs_endpoints (snd (remove_endpoint sample_state sample_gateway)) = fmempty"
  by (rule fmap_ext) (simp add: remove_endpoint_view sample_state_endpoints)

theorem relay_state_authenticated_witness:
  "\<exists>d e mac nonce. acts_for sample_gateway d e mac nonce \<and> e = sample_gateway \<and>
     valid_response_mac sample_hmac 0 (sample_relay\<lparr>r_state := sample_state\<rparr>) mac (sock_ip e) (sock_port e) nonce"
proof -
  let ?r = "sample_relay\<lparr>r_state := sample_state\<rparr>"
  let ?d = "encode (Teardown (response_mac_with_secret sample_hmac (rc_secret (r_config sample_relay)) (V4 0xC6336401) 40000 9) 9
        (gateway_endpoint_new 40000 (from_ip_addr (V4 0xC6336401))))"
  have "relay_inv ?r"
    using sample_state_inv sample_state_limits
    by (simp add: relay_inv_def sample_relay_def relay_new_def for_bind_def default_relay_config_def fcard.rep_eq
        Let_def)
  moreover have "snd (remove_endpoint sample_state sample_gateway) \<noteq> sample_state"
    using sample_removal sample_state_endpoints fmupd_not_empty by metis
  ultimately obtain e mac nonce where "acts_for sample_gateway ?d e mac nonce"
    "valid_response_mac sample_hmac 0 (rotate_secret_if_due None 0 ?r) mac (sock_ip e) (sock_port e) nonce"
    using relay_state_authenticated[OF _ sample_teardown_handled] by auto
  moreover have "rotate_secret_if_due None 0 ?r = ?r"
    by (cases rule: rotate_secret_cases[of None 0 ?r]) simp_all
  moreover have "e = sample_gateway" if "acts_for sample_gateway ?d e mac nonce"
    using that by (simp add: acts_for_def decode_encode_raw teardown_ip_def gateway_endpoint_new_def sample_gateway_def
        del: from_ip_addr.simps)
  ultimately show ?thesis by auto
qed



text \<open>The endpoint that a Teardown with the fields of the relay's own query names.\<close>

definition own_fields :: "socket_addr \<Rightarrow> gateway_endpoint" where
  "own_fields peer = gateway_endpoint_new (sock_port peer) (from_ip_addr (sock_ip peer))"

lemma own_fields_ip:
  "from_ip_addr (teardown_ip (own_fields peer)) = from_ip_addr (sock_ip peer)"
  "ge_port (own_fields peer) = sock_port peer"
  by (auto simp: teardown_ip_def own_fields_def gateway_endpoint_new_def as_ipv4_compatible_Some
      simp del: from_ip_addr.simps(1) split: option.split)

lemma own_fields_endpoint:
  "socket_new (teardown_ip (own_fields peer)) (sock_port peer) = peer \<longleftrightarrow>
     unscoped peer \<and> (is_v4 (sock_ip peer) \<or> as_ipv4_compatible (from_ip_addr (sock_ip peer)) = None)"
  by (cases peer) (auto simp: teardown_ip_def own_fields_def gateway_endpoint_new_def
      simp del: from_ip_addr.simps(1) split: option.split)

lemma handle_teardown:
  assumes "valid_response_mac hmac now (rotate_secret_if_due fresh now r) mac (teardown_ip g) (ge_port g) nonce"
  shows "rs_endpoints (r_state (snd (handle_datagram hmac fresh now r src (encode (Teardown mac nonce g))))) =
    fmdrop (socket_new (teardown_ip g) (ge_port g)) (rs_endpoints (r_state r))"
proof -
  have drop: "fmlookup m e = None \<Longrightarrow> fmdrop e m = m" for e and m :: "(socket_addr, endpoint_state) btree_map"
    by (rule fmap_ext) auto
  show ?thesis
    using assms
    by (auto simp: handle_datagram_def prepare_datagram_def prepare_message_def decode_encode_raw
        prepare_teardown_def contains_endpoint_def remove_endpoint_def Let_def fmlookup_dom_iff drop)
qed

text \<open>C22: a gateway that leaves with the MAC and the gateway fields of the relay's own query.  The
  Teardown is accepted from whatever address it arrives, and the endpoint is gone afterwards,
  exactly when the endpoint is an IPv4 address, or an IPv6 address without flow information and
  scope that is not of the IPv4-compatible form \<open>::a.b.c.d\<close>; otherwise it stays.\<close>

theorem teardown_own_fields:
  assumes "contains_endpoint (r_state r) peer"
    and "valid_response_mac hmac now (rotate_secret_if_due fresh now r) mac (sock_ip peer) (sock_port peer) nonce"
  shows "contains_endpoint (r_state (snd (handle_datagram hmac fresh now r src
      (encode (Teardown mac nonce (own_fields peer)))))) peer \<longleftrightarrow>
    \<not> (unscoped peer \<and> (is_v4 (sock_ip peer) \<or> as_ipv4_compatible (from_ip_addr (sock_ip peer)) = None))"
proof -
  have mac: "response_mac_with_secret hmac s (teardown_ip (own_fields peer)) port nonce =
      response_mac_with_secret hmac s (sock_ip peer) port nonce" for s port
    by (simp add: response_mac_with_secret_def own_fields_ip)
  have "valid_response_mac hmac now (rotate_secret_if_due fresh now r) mac
      (teardown_ip (own_fields peer)) (ge_port (own_fields peer)) nonce"
    using assms(2) by (simp add: valid_response_mac_iff mac own_fields_ip)
  from handle_teardown[OF this] show ?thesis
    using assms(1) own_fields_endpoint[of peer]
    by (auto simp: contains_endpoint_def own_fields_ip)
qed

theorem teardown_own_fields_witness:
  "\<not> contains_endpoint (r_state (snd (handle_datagram sample_hmac None 0
      (sample_relay\<lparr>r_state := sample_state\<rparr>) (SockV4 1 1) (encode (Teardown
        (response_mac_with_secret sample_hmac (rc_secret (r_config sample_relay)) (V4 0xC6336401) 40000 9) 9
        (own_fields sample_gateway)))))) sample_gateway"
proof -
  have "rotate_secret_if_due None 0 (sample_relay\<lparr>r_state := sample_state\<rparr>) = sample_relay\<lparr>r_state := sample_state\<rparr>"
    by (cases rule: rotate_secret_cases[of None 0 "sample_relay\<lparr>r_state := sample_state\<rparr>"]) simp_all
  then have v: "valid_response_mac sample_hmac 0 (rotate_secret_if_due None 0 (sample_relay\<lparr>r_state := sample_state\<rparr>))
      (response_mac_with_secret sample_hmac (rc_secret (r_config sample_relay)) (V4 0xC6336401) 40000 9)
      (sock_ip sample_gateway) (sock_port sample_gateway) 9"
    by (simp add: valid_response_mac_iff sample_gateway_def)
  have "contains_endpoint (r_state (sample_relay\<lparr>r_state := sample_state\<rparr>)) sample_gateway"
    by (simp add: contains_endpoint_def sample_state_endpoints)
  from teardown_own_fields[OF this v] show ?thesis by (simp add: sample_gateway_def)
qed

text \<open>ECN marking is offered to a gateway only on its own declaration.  After a Request, the
  gateway counts as capable exactly when the relay has ECN enabled, the Request had the E bit, and
  the gateway was already listed within the capability lifetime or the table of unexpired entries
  has room; the standing of other gateways does not change.\<close>

lemma ecn_capability_tracks_request:
  "let lifetime = gateway_capability_lifetime r;
       live = ffilter (\<lambda>e. now - the (fmlookup (r_gateway_ecn_capabilities r) e) \<le> lifetime)
         (fmdom (r_gateway_ecn_capabilities r));
       r' = snd (handle_datagram hmac None now r peer (encode (Request nonce p capable)))
   in gateway_ecn_capable now r' e = (if e = peer
        then rc_ecn (r_config r) \<and> capable \<and>
          (peer |\<in>| live \<or> fcard live < max_endpoints (rc_limits (r_config r)))
        else gateway_ecn_capable now r e)"
proof -
  define kept where "kept = fmfilter (\<lambda>k. case fmlookup (r_gateway_ecn_capabilities r) k of
     None \<Rightarrow> False | Some observed \<Rightarrow> elapsed now observed \<le> gateway_capability_lifetime r) (r_gateway_ecn_capabilities r)"
  let ?live = "ffilter (\<lambda>e. now - the (fmlookup (r_gateway_ecn_capabilities r) e) \<le> gateway_capability_lifetime r)
         (fmdom (r_gateway_ecn_capabilities r))"
  have rot: "rotate_secret_if_due None now r = r" by (cases rule: rotate_secret_cases[of None now r]) simp_all
  have live: "fmdom kept = ?live"
    by (auto simp: kept_def fset_eq_iff fmlookup_dom_iff elapsed_def split: option.splits)
  have life: "gateway_capability_lifetime (r\<lparr>r_gateway_ecn_capabilities := m\<rparr>) = gateway_capability_lifetime r" for m
    by (simp add: gateway_capability_lifetime_def)
  have other: "fmlookup kept e = (case fmlookup (r_gateway_ecn_capabilities r) e of None \<Rightarrow> None
      | Some t \<Rightarrow> if elapsed now t \<le> gateway_capability_lifetime r then Some t else None)" for e
    by (simp add: kept_def split: option.split)
  show ?thesis
    unfolding Let_def live[symmetric] handle_request rot snd_conv remember_gateway_ecn_capability_def kept_def[symmetric]
    by (auto simp: gateway_ecn_capable_def life other fmlookup_dom_iff elapsed_def split: option.splits if_splits)
qed

end
