(* ===== verification/Gateway.thy ===== *)
theory Gateway
  imports Relay_State Query Ecn "HOL-Library.Sublist"
begin

text \<open>
  The gateway of \<open>src/gateway.rs\<close>: discovery, the query cycle, failover between relays,
  membership updates and the admission of Multicast Data.  Nonces come from the operating
  system's random source: \<open>random_nonce\<close> models the drawing loop over an arbitrary source, and
  the operations take the nonces it returned as arguments.
\<close>

section \<open>Nonces\<close>

text \<open>Draw number \<open>i\<close> of the source is \<open>rnd i\<close>, \<open>None\<close> when the source fails, on which the
  code panics.  A source of zeros only would keep the loop going: the outer \<open>None\<close>.\<close>

partial_function (option) random_nonce :: "(nat \<Rightarrow> u32 option) \<Rightarrow> nat \<Rightarrow> ('e, u32) res option" where
  "random_nonce rnd i =
     (case rnd i of
        None \<Rightarrow> Some Panic
      | Some nonce \<Rightarrow> if nonce \<noteq> 0 then Some (Ok nonce) else random_nonce rnd (Suc i))"

text \<open>\<open>fresh\<close> is the value of \<open>random_nonce()\<close>.\<close>

definition nonzero_or_random :: "u32 \<Rightarrow> u32 \<Rightarrow> u32" where
  "nonzero_or_random fresh nonce = (if nonce \<noteq> 0 then nonce else fresh)"

section \<open>Configuration and state\<close>

definition RECEPTION_STATE_ENDPOINT :: socket_addr where
  "RECEPTION_STATE_ENDPOINT = socket_new (V4 0) 0"

record gateway_config =
  gc_relay :: socket_addr
  gc_fallback_relays :: "socket_addr list"
  gc_protocol :: membership_protocol
  gc_ecn :: bool
  gc_discovery_nonce :: u32
  gc_request_nonce :: u32

definition gateway_config_new :: "u32 \<Rightarrow> u32 \<Rightarrow> socket_addr \<Rightarrow> membership_protocol \<Rightarrow> gateway_config" where
  "gateway_config_new fresh1 fresh2 relay protocol =
     \<lparr>gc_relay = relay, gc_fallback_relays = [], gc_protocol = protocol, gc_ecn = False,
      gc_discovery_nonce = fresh1, gc_request_nonce = fresh2\<rparr>"

definition with_nonces :: "u32 \<Rightarrow> u32 \<Rightarrow> gateway_config \<Rightarrow> gateway_config" where
  "with_nonces discovery_nonce request_nonce config =
     config\<lparr>gc_discovery_nonce := discovery_nonce, gc_request_nonce := request_nonce\<rparr>"

definition with_ecn :: "bool \<Rightarrow> gateway_config \<Rightarrow> gateway_config" where
  "with_ecn enabled config = config\<lparr>gc_ecn := enabled\<rparr>"

definition with_fallback_relays :: "socket_addr list \<Rightarrow> gateway_config \<Rightarrow> gateway_config" where
  "with_fallback_relays relays config =
     config\<lparr>gc_fallback_relays := fold (\<lambda>relay acc.
        if relay \<noteq> gc_relay config \<and> same_family (sock_ip relay) (sock_ip (gc_relay config)) \<and>
           relay \<notin> set acc
        then acc @ [relay] else acc) relays []\<rparr>"

datatype gateway_phase = Discovering | AwaitingMembershipQuery | Established

record gateway_session =
  gs_response_mac :: response_mac
  gs_request_nonce :: u32
  gs_gateway_endpoint :: "gateway_endpoint option"
  gs_reported_memberships :: bool

record gateway =
  gw_config :: gateway_config
  gw_relay_candidates :: "socket_addr list"
  gw_phase :: gateway_phase
  gw_relay_endpoint :: "socket_addr option"
  gw_session :: "gateway_session option"
  gw_reception_state :: relay_state

record gateway_send =
  gsend_destination :: socket_addr
  gsend_datagram :: bytes

datatype gateway_action =
    GwSend socket_addr bytes
  | GwMembershipQuery response_mac bool "gateway_endpoint option" bytes duration "gateway_send option"
  | GwMulticastData bytes "ecn_decapsulation option"
  | GwDroppedEcn ecn_decapsulation nat
  | GwIgnored

fun into_send :: "gateway_action \<Rightarrow> (socket_addr \<times> bytes) option" where
  "into_send (GwSend destination datagram) = Some (destination, datagram)"
| "into_send _ = None"

datatype gateway_error =
    GwDecode decode_error
  | GwMembershipBuild membership_build_error
  | GwInvalidGeneralQuery query_validation_error
  | GwInvalidMulticastPacket ip_packet_error
  | GwInvalidEcn ecn_error
  | GwUnexpectedDiscoveryNonce u32 u32
  | GwUnexpectedRequestNonce u32 u32
  | GwUnexpectedPeer socket_addr socket_addr
  | GwUnexpectedMessageForState string gateway_phase
  | GwInvalidRelayAddress ip_addr
  | GwMissingRelayEndpoint
  | GwMissingMembershipQuery
  | GwMissingGatewayEndpoint

definition gateway_new :: "u32 \<Rightarrow> u32 \<Rightarrow> gateway_config \<Rightarrow> gateway" where
  "gateway_new fresh1 fresh2 config =
     \<lparr>gw_config = config\<lparr>gc_discovery_nonce := nonzero_or_random fresh1 (gc_discovery_nonce config),
        gc_request_nonce := nonzero_or_random fresh2 (gc_request_nonce config)\<rparr>,
      gw_relay_candidates = gc_relay config # gc_fallback_relays config,
      gw_phase = Discovering, gw_relay_endpoint = None, gw_session = None,
      gw_reception_state = empty_state\<rparr>"

definition is_established :: "gateway \<Rightarrow> bool" where
  "is_established g = (gw_phase g = Established \<and> gw_session g \<noteq> None)"

definition is_awaiting_query :: "gateway \<Rightarrow> bool" where
  "is_awaiting_query g = (gw_phase g = AwaitingMembershipQuery)"

definition gateway_response_mac :: "gateway \<Rightarrow> response_mac option" where
  "gateway_response_mac g = map_option gs_response_mac (gw_session g)"

definition has_reported_memberships :: "gateway \<Rightarrow> bool" where
  "has_reported_memberships g = (case gw_session g of None \<Rightarrow> False | Some s \<Rightarrow> gs_reported_memberships s)"

section \<open>Discovery, query cycle and failover\<close>

definition discovery :: "gateway \<Rightarrow> gateway_action" where
  "discovery g = GwSend (gc_relay (gw_config g)) (encode (RelayDiscovery (gc_discovery_nonce (gw_config g))))"

definition request_message :: "gateway_config \<Rightarrow> message" where
  "request_message config = Request (gc_request_nonce config) (gc_protocol config) (gc_ecn config)"

definition gateway_request :: "gateway \<Rightarrow> (gateway_error, gateway_action) res" where
  "gateway_request g =
     bnd (ok_or (gw_relay_endpoint g) GwMissingRelayEndpoint) (\<lambda>relay.
     Ok (GwSend relay (encode (request_message (gw_config g)))))"

definition begin_query_cycle :: "u32 \<Rightarrow> gateway \<Rightarrow> (gateway_error, gateway_action) res \<times> gateway" where
  "begin_query_cycle fresh g =
     (if gw_relay_endpoint g = None then (Err GwMissingRelayEndpoint, g)
      else let g = g\<lparr>gw_config := (gw_config g)\<lparr>gc_request_nonce := fresh\<rparr>,
                     gw_phase := AwaitingMembershipQuery\<rparr>
           in (gateway_request g, g))"

definition rotate_relay :: "gateway \<Rightarrow> gateway" where
  "rotate_relay g =
     (case gc_fallback_relays (gw_config g) of
        [] \<Rightarrow> g
      | next_relay # rest \<Rightarrow>
          let previous = gc_relay (gw_config g) in
          g\<lparr>gw_config := (gw_config g)\<lparr>gc_relay := next_relay,
             gc_fallback_relays := (if previous \<in> set (gw_relay_candidates g) then rest @ [previous] else rest)\<rparr>\<rparr>)"

definition restart_discovery :: "u32 \<Rightarrow> u32 \<Rightarrow> gateway \<Rightarrow> gateway_action \<times> gateway" where
  "restart_discovery fresh1 fresh2 g =
     (let g = rotate_relay g;
          g = g\<lparr>gw_config := (gw_config g)\<lparr>gc_discovery_nonce := fresh1, gc_request_nonce := fresh2\<rparr>,
                gw_phase := Discovering, gw_relay_endpoint := None, gw_session := None\<rparr>
      in (discovery g, g))"

definition replace_relay_candidates :: "socket_addr list \<Rightarrow> gateway \<Rightarrow> bool \<times> gateway" where
  "replace_relay_candidates relays g =
     (let candidates = fold (\<lambda>relay acc.
            if same_family (sock_ip relay) (sock_ip (gc_relay (gw_config g))) \<and> relay \<notin> set acc
            then acc @ [relay] else acc) relays []
      in if candidates = [] \<or> candidates = gw_relay_candidates g then (False, g)
         else (True, g\<lparr>gw_relay_candidates := candidates,
                gw_config := (gw_config g)\<lparr>gc_fallback_relays :=
                  filter (\<lambda>candidate. candidate \<noteq> gc_relay (gw_config g)) candidates\<rparr>\<rparr>))"

definition current_relay_is_retired :: "gateway \<Rightarrow> bool" where
  "current_relay_is_retired g = (gc_relay (gw_config g) \<notin> set (gw_relay_candidates g))"

section \<open>Datagrams from the relay\<close>

type_synonym gateway_result = "(gateway_error, gateway_action) res \<times> gateway"

definition handle_advertisement :: "gateway \<Rightarrow> socket_addr \<Rightarrow> u32 \<Rightarrow> ip_addr \<Rightarrow> gateway_result" where
  "handle_advertisement g peer discovery_nonce relay_address =
     (if gw_phase g \<noteq> Discovering
      then (Err (GwUnexpectedMessageForState ''Relay Advertisement'' (gw_phase g)), g)
      else if discovery_nonce \<noteq> gc_discovery_nonce (gw_config g)
      then (Err (GwUnexpectedDiscoveryNonce (gc_discovery_nonce (gw_config g)) discovery_nonce), g)
      else if \<not> is_usable_unicast relay_address \<or> \<not> same_family relay_address (sock_ip peer)
      then (Err (GwInvalidRelayAddress relay_address), g)
      else let relay_endpoint = socket_new relay_address (sock_port peer) in
           (Ok (GwSend relay_endpoint (encode (request_message (gw_config g)))),
            g\<lparr>gw_relay_endpoint := Some relay_endpoint, gw_phase := AwaitingMembershipQuery\<rparr>))"

definition expected_query_nonce :: "gateway \<Rightarrow> (gateway_error, u32) res" where
  "expected_query_nonce g =
     (case (gw_phase g, gw_session g) of
        (AwaitingMembershipQuery, _) \<Rightarrow> Ok (gc_request_nonce (gw_config g))
      | (Established, Some session) \<Rightarrow> Ok (gs_request_nonce session)
      | _ \<Rightarrow> Err (GwUnexpectedMessageForState ''Membership Query'' (gw_phase g)))"

text \<open>The teardown of the previous session when the relay reports a new gateway address.\<close>

definition previous_teardown_of :: "socket_addr \<Rightarrow> gateway_session option \<Rightarrow> gateway_endpoint option \<Rightarrow> gateway_send option" where
  "previous_teardown_of relay previous_session gateway =
     (case previous_session of
        None \<Rightarrow> None
      | Some session \<Rightarrow>
          if gs_gateway_endpoint session = gateway then None
          else map_option (\<lambda>old_gateway. \<lparr>gsend_destination = relay,
                 gsend_datagram = encode (Teardown (gs_response_mac session) (gs_request_nonce session) old_gateway)\<rparr>)
               (gs_gateway_endpoint session))"

definition handle_query :: "gateway \<Rightarrow> response_mac \<Rightarrow> u32 \<Rightarrow> bool \<Rightarrow> gateway_endpoint option \<Rightarrow> bytes \<Rightarrow> gateway_result" where
  "handle_query g response_mac request_nonce limit gateway general_query =
     (let checked =
        bnd (ok_or (gw_relay_endpoint g) GwMissingRelayEndpoint) (\<lambda>relay.
        bnd (expected_query_nonce g) (\<lambda>expected_nonce.
        bnd (if request_nonce \<noteq> expected_nonce
             then Err (GwUnexpectedRequestNonce expected_nonce request_nonce) else Ok ()) (\<lambda>_.
        bnd (map_err GwInvalidGeneralQuery
               (validated_general_query (gc_protocol (gw_config g)) general_query)) (\<lambda>(interval, query).
        Ok (relay, interval, query)))))
      in case checked of
           Err e \<Rightarrow> (Err e, g)
         | Panic \<Rightarrow> (Panic, g)
         | Ok (relay, interval, query) \<Rightarrow>
             (Ok (GwMembershipQuery response_mac limit gateway query interval
                (previous_teardown_of relay (gw_session g) gateway)),
              g\<lparr>gw_session := Some \<lparr>gs_response_mac = response_mac, gs_request_nonce = request_nonce,
                   gs_gateway_endpoint = gateway,
                   gs_reported_memberships = (case gw_session g of
                       None \<Rightarrow> False
                     | Some session \<Rightarrow> gs_gateway_endpoint session = gateway \<and> gs_reported_memberships session)\<rparr>,
                gw_phase := Established\<rparr>))"

definition handle_multicast_data :: "gateway \<Rightarrow> ecn_codepoint \<Rightarrow> bytes \<Rightarrow> (gateway_error, gateway_action) res" where
  "handle_multicast_data g outer_ecn packet =
     (if gw_relay_endpoint g = None then Err GwMissingRelayEndpoint
      else if gw_session g = None then Err (GwUnexpectedMessageForState ''Multicast Data'' (gw_phase g))
      else bnd (map_err GwInvalidMulticastPacket (parse_multicast_packet packet)) (\<lambda>parsed.
        let interested = (case endpoint_interest (gw_reception_state g) RECEPTION_STATE_ENDPOINT (mp_group parsed) of
              None \<Rightarrow> False | Some interest \<Rightarrow> wants_source interest (mp_source parsed))
        in if \<not> interested then Ok GwIgnored
           else if gc_ecn (gw_config g) then
             bnd (map_err GwInvalidEcn (decapsulate_ecn packet outer_ecn)) (\<lambda>(packet, ecn).
             if ecn_is_drop ecn then Ok (GwDroppedEcn ecn (length packet))
             else Ok (GwMulticastData packet (Some ecn)))
           else Ok (GwMulticastData packet None)))"

definition handle_datagram_with_ecn :: "gateway \<Rightarrow> socket_addr \<Rightarrow> bytes \<Rightarrow> ecn_codepoint \<Rightarrow> gateway_result" where
  "handle_datagram_with_ecn g peer datagram outer_ecn =
     (let expected_peer = (case gw_relay_endpoint g of None \<Rightarrow> gc_relay (gw_config g) | Some relay \<Rightarrow> relay) in
      if peer \<noteq> expected_peer then (Err (GwUnexpectedPeer expected_peer peer), g)
      else case map_err GwDecode (decode datagram) of
        Err e \<Rightarrow> (Err e, g)
      | Panic \<Rightarrow> (Panic, g)
      | Ok (RelayAdvertisement discovery_nonce relay_address) \<Rightarrow>
          handle_advertisement g peer discovery_nonce relay_address
      | Ok (MembershipQuery response_mac request_nonce limit gateway general_query) \<Rightarrow>
          handle_query g response_mac request_nonce limit gateway general_query
      | Ok (MulticastData packet) \<Rightarrow> (handle_multicast_data g outer_ecn packet, g)
      | Ok (RelayDiscovery _) \<Rightarrow> (Ok GwIgnored, g)
      | Ok (Request _ _ _) \<Rightarrow> (Ok GwIgnored, g)
      | Ok (MembershipUpdate _ _ _) \<Rightarrow> (Ok GwIgnored, g)
      | Ok (Teardown _ _ _) \<Rightarrow> (Ok GwIgnored, g))"

definition gateway_handle_datagram :: "gateway \<Rightarrow> socket_addr \<Rightarrow> bytes \<Rightarrow> gateway_result" where
  "gateway_handle_datagram g peer datagram = handle_datagram_with_ecn g peer datagram NotEct"

section \<open>Updates and teardown\<close>

definition membership_update :: "membership_report \<Rightarrow> gateway \<Rightarrow> gateway_result" where
  "membership_update report g =
     (let checked =
        bnd (ok_or (gw_relay_endpoint g) GwMissingRelayEndpoint) (\<lambda>relay.
        bnd (ok_or (gw_session g) GwMissingMembershipQuery) (\<lambda>session.
        bnd (map_err GwMembershipBuild (build_membership_report report)) (\<lambda>update.
        Ok (relay, session, update))))
      in case checked of
           Err e \<Rightarrow> (Err e, g)
         | Panic \<Rightarrow> (Panic, g)
         | Ok (relay, session, update) \<Rightarrow>
             let st = snd (apply_report (gw_reception_state g) RECEPTION_STATE_ENDPOINT report) in
             (Ok (GwSend relay (encode (MembershipUpdate (gs_response_mac session) (gs_request_nonce session) update))),
              g\<lparr>gw_reception_state := st,
                gw_session := map_option (gs_reported_memberships_update
                  (\<lambda>_. endpoint_has_interests st RECEPTION_STATE_ENDPOINT)) (gw_session g)\<rparr>))"

definition missing_leaves :: "gateway \<Rightarrow> membership_report \<Rightarrow> membership_record list" where
  "missing_leaves g report =
     (let current = fset_of_list (map mr_group (rp_records report)) in
      map (\<lambda>(grp, _). \<lparr>mr_kind = ChangeToInclude, mr_group = grp, mr_sources = []\<rparr>)
        (filter (\<lambda>(grp, _). grp |\<notin>| current) (aggregate_interests (gw_reception_state g))))"

definition replace_memberships :: "membership_report \<Rightarrow> gateway \<Rightarrow> (gateway_error, gateway_action option) res \<times> gateway" where
  "replace_memberships report g =
     (let report = report\<lparr>rp_records := rp_records report @ missing_leaves g report\<rparr> in
      if rp_records report = [] then (Ok None, g)
      else case membership_update report g of (outcome, g) \<Rightarrow> (bnd outcome (\<lambda>a. Ok (Some a)), g))"

definition join_group :: "ip_addr \<Rightarrow> ip_addr option \<Rightarrow> gateway \<Rightarrow> gateway_result" where
  "join_group grp source g =
     (let record = (case source of
          Some source \<Rightarrow> \<lparr>mr_kind = AllowNewSources, mr_group = grp, mr_sources = [source]\<rparr>
        | None \<Rightarrow> \<lparr>mr_kind = ModeIsExclude, mr_group = grp, mr_sources = []\<rparr>)
      in membership_update \<lparr>rp_protocol = gc_protocol (gw_config g), rp_records = [record]\<rparr> g)"

definition teardown :: "gateway \<Rightarrow> (gateway_error, gateway_action) res" where
  "teardown g =
     bnd (ok_or (gw_relay_endpoint g) GwMissingRelayEndpoint) (\<lambda>relay.
     bnd (ok_or (gw_session g) GwMissingMembershipQuery) (\<lambda>session.
     bnd (ok_or (gs_gateway_endpoint session) GwMissingGatewayEndpoint) (\<lambda>gateway.
     Ok (GwSend relay (encode (Teardown (gs_response_mac session) (gs_request_nonce session) gateway))))))"

section \<open>What reports mean for the reception state\<close>

definition sources_after :: "membership_record list \<Rightarrow> ip_addr \<Rightarrow> ip_addr set \<Rightarrow> ip_addr set" where
  "sources_after rs grp W = fold (\<lambda>r W.
     if grp = mr_group r then record_meaning (mr_kind r) (set (mr_sources r)) W else W) rs W"

lemma wants_fold: "{s. wants (fold apply_groups rs groups) grp s} = sources_after rs grp {s. wants groups grp s}"
proof (induction rs arbitrary: groups)
  case (Cons r rs)
  show ?case by (simp add: Cons.IH sources_after_def apply_groups_refines_raw)
qed (simp add: sources_after_def)

lemma wanted_current: "wanted st e grp s \<longleftrightarrow> wants (current_groups st e) grp s"
  by (simp add: wanted_def wants_def endpoint_interest_def current_groups_def split: option.split)

lemma wanted_apply_report:
  "{s. wanted (snd (apply_report st e rp)) e grp s} = sources_after (rp_records rp) grp {s. wanted st e grp s}"
proof (cases "rp_records rp = []")
  case True
  then show ?thesis by (simp add: apply_report_def sources_after_def)
next
  case False
  have "current_groups (snd (apply_report st e rp)) e = after_report st e rp"
    by (simp add: apply_report_endpoints[OF False] current_groups_def)
  then show ?thesis by (simp add: wanted_current after_report_def wants_fold)
qed

section \<open>Steps of the gateway\<close>

inductive gateway_step :: "gateway \<Rightarrow> gateway \<Rightarrow> bool" where
  datagram: "gateway_step g (snd (handle_datagram_with_ecn g peer d outer))"
| query_cycle: "fresh \<noteq> 0 \<Longrightarrow> gateway_step g (snd (begin_query_cycle fresh g))"
| restart: "fresh1 \<noteq> 0 \<Longrightarrow> fresh2 \<noteq> 0 \<Longrightarrow> gateway_step g (snd (restart_discovery fresh1 fresh2 g))"
| candidates: "gateway_step g (snd (replace_relay_candidates relays g))"
| update: "gateway_step g (snd (membership_update rp g))"
| replace: "gateway_step g (snd (replace_memberships rp g))"

inductive gateway_reachable :: "gateway \<Rightarrow> bool" where
  initial: "fresh1 \<noteq> 0 \<Longrightarrow> fresh2 \<noteq> 0 \<Longrightarrow>
    gateway_reachable (gateway_new fresh1 fresh2 (with_fallback_relays relays config))"
| step: "gateway_reachable g \<Longrightarrow> gateway_step g g' \<Longrightarrow> gateway_reachable g'"

fun phase_ok :: "gateway_phase \<Rightarrow> socket_addr option \<Rightarrow> gateway_session option \<Rightarrow> bool" where
  "phase_ok Discovering relay session \<longleftrightarrow> relay = None \<and> session = None"
| "phase_ok AwaitingMembershipQuery relay session \<longleftrightarrow> relay \<noteq> None"
| "phase_ok Established relay session \<longleftrightarrow> relay \<noteq> None \<and> session \<noteq> None"

definition phase_inv :: "gateway \<Rightarrow> bool" where
  "phase_inv g \<longleftrightarrow> phase_ok (gw_phase g) (gw_relay_endpoint g) (gw_session g) \<and>
     (\<forall>e. gw_relay_endpoint g = Some e \<longrightarrow> unscoped e \<and> is_usable_unicast (sock_ip e) \<and>
        same_family (sock_ip e) (sock_ip (gc_relay (gw_config g))) \<and>
        sock_port e = sock_port (gc_relay (gw_config g))) \<and>
     gc_discovery_nonce (gw_config g) \<noteq> 0 \<and> gc_request_nonce (gw_config g) \<noteq> 0"

definition relays_inv :: "gateway \<Rightarrow> bool" where
  "relays_inv g \<longleftrightarrow> distinct (gc_relay (gw_config g) # gc_fallback_relays (gw_config g)) \<and>
     set (gc_fallback_relays (gw_config g)) = set (gw_relay_candidates g) - {gc_relay (gw_config g)} \<and>
     distinct (gw_relay_candidates g) \<and> gw_relay_candidates g \<noteq> [] \<and>
     (\<forall>c \<in> set (gw_relay_candidates g). same_family (sock_ip c) (sock_ip (gc_relay (gw_config g))))"

definition only_endpoint :: "relay_state \<Rightarrow> socket_addr \<Rightarrow> bool" where
  "only_endpoint st e \<longleftrightarrow> (\<forall>e'. fmlookup (rs_endpoints st) e' \<noteq> None \<longrightarrow> e' = e)"

definition reception_inv :: "gateway \<Rightarrow> bool" where
  "reception_inv g \<longleftrightarrow> state_inv (gw_reception_state g) \<and>
     only_endpoint (gw_reception_state g) RECEPTION_STATE_ENDPOINT \<and>
     (has_reported_memberships g \<longrightarrow> endpoint_has_interests (gw_reception_state g) RECEPTION_STATE_ENDPOINT)"

definition gateway_inv :: "gateway \<Rightarrow> bool" where
  "gateway_inv g \<longleftrightarrow> phase_inv g \<and> relays_inv g \<and> reception_inv g"

lemma relays_inv_simps [simp]:
  "relays_inv (g\<lparr>gw_phase := p\<rparr>) = relays_inv g" "relays_inv (g\<lparr>gw_relay_endpoint := r\<rparr>) = relays_inv g"
  "relays_inv (g\<lparr>gw_session := s\<rparr>) = relays_inv g" "relays_inv (g\<lparr>gw_reception_state := st\<rparr>) = relays_inv g"
  "relays_inv (g\<lparr>gw_config := (gw_config g)\<lparr>gc_request_nonce := n\<rparr>\<rparr>) = relays_inv g"
  by (simp_all add: relays_inv_def)

lemma reception_inv_simps [simp]:
  "reception_inv (g\<lparr>gw_phase := p\<rparr>) = reception_inv g" "reception_inv (g\<lparr>gw_relay_endpoint := r\<rparr>) = reception_inv g"
  "reception_inv (g\<lparr>gw_config := c\<rparr>) = reception_inv g" "reception_inv (g\<lparr>gw_relay_candidates := cs\<rparr>) = reception_inv g"
  by (simp_all add: reception_inv_def has_reported_memberships_def)

lemma same_family_simps:
  "same_family a a" "same_family a b \<Longrightarrow> same_family b a" "same_family a b \<Longrightarrow> same_family b c \<Longrightarrow> same_family a c"
  by (simp_all add: same_family_iff)

lemma socket_new_is_unscoped [simp]: "unscoped (socket_new a p)"
  by (cases a) simp_all

lemma collect_distinct:
  "distinct acc \<Longrightarrow> distinct (fold (\<lambda>x acc. if P x \<and> x \<notin> set acc then acc @ [x] else acc) xs acc)"
  "set (fold (\<lambda>x acc. if P x \<and> x \<notin> set acc then acc @ [x] else acc) xs acc) = set acc \<union> {x \<in> set xs. P x}"
  by (induction xs arbitrary: acc) auto

lemma with_fallback_relays_ok:
  fixes relays and config :: gateway_config
  defines "c \<equiv> with_fallback_relays relays config"
  shows "gc_relay c = gc_relay config" "distinct (gc_fallback_relays c)"
    "gc_relay c \<notin> set (gc_fallback_relays c)"
    "f \<in> set (gc_fallback_relays c) \<Longrightarrow> same_family (sock_ip f) (sock_ip (gc_relay c))"
proof -
  let ?P = "\<lambda>x. x \<noteq> gc_relay config \<and> same_family (sock_ip x) (sock_ip (gc_relay config))"
  have c: "c = config\<lparr>gc_fallback_relays := fold (\<lambda>x acc. if ?P x \<and> x \<notin> set acc then acc @ [x] else acc) relays []\<rparr>"
    unfolding c_def with_fallback_relays_def by (simp add: conj_assoc)
  show "gc_relay c = gc_relay config" "distinct (gc_fallback_relays c)"
    "gc_relay c \<notin> set (gc_fallback_relays c)"
    "f \<in> set (gc_fallback_relays c) \<Longrightarrow> same_family (sock_ip f) (sock_ip (gc_relay c))"
    unfolding c using collect_distinct[where acc = "[]" and P = ?P and xs = relays] by simp_all
qed

lemma only_endpoint_empty: "only_endpoint empty_state e"
  by (simp add: only_endpoint_def empty_state_def)

lemma gateway_inv_new:
  assumes "fresh1 \<noteq> 0" "fresh2 \<noteq> 0"
  shows "gateway_inv (gateway_new fresh1 fresh2 (with_fallback_relays relays config))"
proof -
  let ?g = "gateway_new fresh1 fresh2 (with_fallback_relays relays config)"
  have "phase_inv ?g" using assms by (simp add: phase_inv_def gateway_new_def nonzero_or_random_def)
  moreover have "relays_inv ?g"
    using with_fallback_relays_ok[where relays = relays and config = config]
    by (simp add: relays_inv_def gateway_new_def same_family_simps(1))
  moreover have "reception_inv ?g"
    by (simp add: reception_inv_def gateway_new_def has_reported_memberships_def only_endpoint_empty)
  ultimately show ?thesis by (simp add: gateway_inv_def)
qed

text \<open>Preservation, one operation at a time.\<close>

lemma gateway_inv_advertisement:
  assumes "gateway_inv g" and "peer = gc_relay (gw_config g)"
  shows "gateway_inv (snd (handle_advertisement g peer nonce a))"
proof (cases "snd (handle_advertisement g peer nonce a) = g")
  case False
  then have "is_usable_unicast a" "same_family a (sock_ip peer)" and
    g: "snd (handle_advertisement g peer nonce a) =
      g\<lparr>gw_relay_endpoint := Some (socket_new a (sock_port peer)), gw_phase := AwaitingMembershipQuery\<rparr>"
    by (auto simp: handle_advertisement_def Let_def split: if_splits)
  then have "phase_inv (snd (handle_advertisement g peer nonce a))"
    using assms unfolding g gateway_inv_def phase_inv_def by simp
  then show ?thesis using assms(1) unfolding g gateway_inv_def by simp
qed (use assms in simp)

lemma handle_query_snd:
  "snd (handle_query g mac nonce limit gateway q) = g \<or>
   (gw_relay_endpoint g \<noteq> None \<and> expected_query_nonce g = Ok nonce \<and>
    (\<exists>interval query. validated_general_query (gc_protocol (gw_config g)) q = Ok (interval, query)) \<and>
    snd (handle_query g mac nonce limit gateway q) =
      g\<lparr>gw_session := Some \<lparr>gs_response_mac = mac, gs_request_nonce = nonce,
           gs_gateway_endpoint = gateway,
           gs_reported_memberships = (case gw_session g of
               None \<Rightarrow> False
             | Some session \<Rightarrow> gs_gateway_endpoint session = gateway \<and> gs_reported_memberships session)\<rparr>,
        gw_phase := Established\<rparr>)"
  by (auto simp: handle_query_def Let_def bnd_eq_Ok split: res.split if_splits)

lemma gateway_inv_query:
  assumes "gateway_inv g"
  shows "gateway_inv (snd (handle_query g mac nonce limit gateway q))"
proof (cases "snd (handle_query g mac nonce limit gateway q) = g")
  case False
  with handle_query_snd[of g mac nonce limit gateway q] show ?thesis
    using assms
    by (auto simp: gateway_inv_def phase_inv_def relays_inv_def reception_inv_def has_reported_memberships_def
        split: option.splits)
qed (use assms in simp)

lemma gateway_inv_datagram:
  assumes "gateway_inv g"
  shows "gateway_inv (snd (handle_datagram_with_ecn g peer d outer))"
proof (cases "peer = (case gw_relay_endpoint g of None \<Rightarrow> gc_relay (gw_config g) | Some relay \<Rightarrow> relay)")
  case True
  have adv: "gateway_inv (snd (handle_advertisement g peer nonce a))" for nonce a
  proof (cases "gw_phase g = Discovering")
    case Disc: True
    with assms True have "peer = gc_relay (gw_config g)"
      by (simp add: gateway_inv_def phase_inv_def)
    then show ?thesis by (rule gateway_inv_advertisement[OF assms])
  qed (use assms in \<open>simp add: handle_advertisement_def\<close>)
  show ?thesis
    using assms adv gateway_inv_query[OF assms]
    by (simp add: handle_datagram_with_ecn_def Let_def True[symmetric] split: res.split message.split)
qed (use assms in \<open>simp add: handle_datagram_with_ecn_def Let_def\<close>)

lemma gateway_inv_query_cycle:
  assumes "fresh \<noteq> 0" and "gateway_inv g"
  shows "gateway_inv (snd (begin_query_cycle fresh g))"
proof (cases "gw_relay_endpoint g = None")
  case False
  then have "phase_inv (g\<lparr>gw_config := (gw_config g)\<lparr>gc_request_nonce := fresh\<rparr>, gw_phase := AwaitingMembershipQuery\<rparr>)"
    using assms unfolding gateway_inv_def phase_inv_def by simp
  then show ?thesis using False assms(2) by (simp add: begin_query_cycle_def Let_def gateway_inv_def)
qed (use assms in \<open>simp add: begin_query_cycle_def\<close>)

lemma relays_inv_rotate:
  assumes "relays_inv g"
  shows "relays_inv (rotate_relay g)"
proof (cases "gc_fallback_relays (gw_config g)")
  case (Cons next_relay rest)
  let ?old = "gc_relay (gw_config g)" and ?c = "gw_relay_candidates g"
  have d: "distinct (?old # next_relay # rest)" "set (next_relay # rest) = set ?c - {?old}" "distinct ?c" "?c \<noteq> []"
    "\<forall>c \<in> set ?c. same_family (sock_ip c) (sock_ip ?old)"
    using assms Cons unfolding relays_inv_def by simp_all
  have n: "next_relay \<in> set ?c" "set rest = set ?c - {?old, next_relay}"
    using d(1,2) by auto
  have fam: "\<forall>c \<in> set ?c. same_family (sock_ip c) (sock_ip next_relay)"
    using d(5) n(1) by (simp add: same_family_iff)
  show ?thesis
    unfolding relays_inv_def rotate_relay_def Cons list.case Let_def
    using d(1,3,4) fam n by auto
qed (use assms in \<open>simp add: rotate_relay_def\<close>)

lemma gateway_inv_restart:
  assumes "fresh1 \<noteq> 0" "fresh2 \<noteq> 0" and "gateway_inv g"
  shows "gateway_inv (snd (restart_discovery fresh1 fresh2 g))"
proof -
  let ?g = "snd (restart_discovery fresh1 fresh2 g)"
  have "relays_inv ?g"
    using relays_inv_rotate[of g] assms(3) by (simp add: restart_discovery_def Let_def gateway_inv_def relays_inv_def)
  moreover have "gw_reception_state (rotate_relay g) = gw_reception_state g"
    by (simp add: rotate_relay_def Let_def split: list.split)
  then have "reception_inv ?g"
    using assms(3) by (simp add: restart_discovery_def Let_def gateway_inv_def reception_inv_def has_reported_memberships_def)
  moreover have "phase_inv ?g" using assms(1,2) by (simp add: restart_discovery_def Let_def phase_inv_def)
  ultimately show ?thesis by (simp add: gateway_inv_def)
qed

lemma gateway_inv_candidates:
  assumes "gateway_inv g"
  shows "gateway_inv (snd (replace_relay_candidates relays g))"
proof -
  let ?P = "\<lambda>x. same_family (sock_ip x) (sock_ip (gc_relay (gw_config g)))"
  define cs where "cs = fold (\<lambda>x acc. if ?P x \<and> x \<notin> set acc then acc @ [x] else acc) relays []"
  have cs: "distinct cs" "\<forall>c \<in> set cs. ?P c"
    unfolding cs_def using collect_distinct[where acc = "[]" and P = ?P and xs = relays] by auto
  let ?g = "g\<lparr>gw_relay_candidates := cs, gw_config := (gw_config g)\<lparr>gc_fallback_relays :=
    filter (\<lambda>c. c \<noteq> gc_relay (gw_config g)) cs\<rparr>\<rparr>"
  have "phase_inv g" using assms by (simp add: gateway_inv_def)
  then have "phase_inv ?g"
    by (simp add: phase_inv_def)
  moreover have "relays_inv ?g" if "cs \<noteq> []" using cs that by (auto simp: relays_inv_def)
  ultimately have "gateway_inv ?g" if "cs \<noteq> []" using assms that by (simp add: gateway_inv_def)
  then show ?thesis
    using assms unfolding replace_relay_candidates_def cs_def[symmetric] Let_def
    by (cases "cs = [] \<or> cs = gw_relay_candidates g") auto
qed

lemma membership_update_snd:
  obtains (failed) "snd (membership_update rp g) = g" "\<not> is_ok (fst (membership_update rp g))"
  | (sent) relay session packet where "gw_relay_endpoint g = Some relay" "gw_session g = Some session"
    "build_membership_report rp = Ok packet"
    "fst (membership_update rp g) =
       Ok (GwSend relay (encode (MembershipUpdate (gs_response_mac session) (gs_request_nonce session) packet)))"
    "snd (membership_update rp g) =
       g\<lparr>gw_reception_state := snd (apply_report (gw_reception_state g) RECEPTION_STATE_ENDPOINT rp),
         gw_session := Some (session\<lparr>gs_reported_memberships := endpoint_has_interests
           (snd (apply_report (gw_reception_state g) RECEPTION_STATE_ENDPOINT rp)) RECEPTION_STATE_ENDPOINT\<rparr>)\<rparr>"
proof (cases "is_ok (fst (membership_update rp g))")
  case True
  then obtain relay session packet where *: "gw_relay_endpoint g = Some relay" "gw_session g = Some session"
    "build_membership_report rp = Ok packet"
    by (cases "gw_relay_endpoint g"; cases "gw_session g"; cases "build_membership_report rp")
       (auto simp: membership_update_def Let_def)
  then show ?thesis by (intro sent[of relay session packet]) (simp_all add: membership_update_def Let_def)
next
  case False
  then have "snd (membership_update rp g) = g"
    by (cases "gw_relay_endpoint g"; cases "gw_session g"; cases "build_membership_report rp")
       (auto simp: membership_update_def Let_def)
  with False show ?thesis by (intro failed)
qed

lemma only_endpoint_apply_report:
  "only_endpoint st e \<Longrightarrow> only_endpoint (snd (apply_report st e rp)) e"
proof (cases "rp_records rp = []")
  case False
  then show "only_endpoint st e \<Longrightarrow> only_endpoint (snd (apply_report st e rp)) e"
    by (auto simp: only_endpoint_def apply_report_endpoints split: if_splits)
qed (simp add: apply_report_def)

lemma gateway_inv_update:
  assumes "gateway_inv g"
  shows "gateway_inv (snd (membership_update rp g))"
proof (cases rule: membership_update_snd[of rp g])
  case (sent relay session packet)
  have "phase_inv (snd (membership_update rp g))"
    using assms sent(2) unfolding sent(5) gateway_inv_def phase_inv_def by (cases "gw_phase g") simp_all
  moreover have "reception_inv (snd (membership_update rp g))"
    using assms only_endpoint_apply_report[of "gw_reception_state g" RECEPTION_STATE_ENDPOINT rp]
    unfolding sent(5) gateway_inv_def reception_inv_def by (simp add: has_reported_memberships_def state_inv_apply_report)
  moreover have "relays_inv (snd (membership_update rp g))"
    using assms unfolding sent(5) gateway_inv_def by simp
  ultimately show ?thesis by (simp add: gateway_inv_def)
qed (use assms in simp)

lemma replace_memberships_snd: "\<exists>rp. snd (replace_memberships rp' g) = g \<or> snd (replace_memberships rp' g) = snd (membership_update rp g)"
  by (auto simp: replace_memberships_def Let_def case_prod_unfold)

lemma gateway_inv_step: "gateway_step g g' \<Longrightarrow> gateway_inv g \<Longrightarrow> gateway_inv g'"
proof (induction rule: gateway_step.induct)
  case (replace g rp)
  then show ?case using replace_memberships_snd[of rp g] gateway_inv_update by metis
qed (simp_all add: gateway_inv_datagram gateway_inv_query_cycle gateway_inv_restart gateway_inv_candidates
       gateway_inv_update)

lemma gateway_reachable_inv: "gateway_reachable g \<Longrightarrow> gateway_inv g"
  by (induction rule: gateway_reachable.induct) (simp_all add: gateway_inv_new gateway_inv_step)

section \<open>Panic freedom\<close>

lemma no_panic_expected_query_nonce [simp]: "no_panic (expected_query_nonce g)"
  by (simp add: expected_query_nonce_def split: gateway_phase.split option.split)

lemma no_panic_handle_query: "no_panic (fst (handle_query g mac nonce limit gateway q))"
proof -
  have "no_panic (bnd (ok_or (gw_relay_endpoint g) GwMissingRelayEndpoint) (\<lambda>relay.
        bnd (expected_query_nonce g) (\<lambda>expected_nonce.
        bnd (if nonce \<noteq> expected_nonce
             then Err (GwUnexpectedRequestNonce expected_nonce nonce) else Ok ()) (\<lambda>_.
        bnd (map_err GwInvalidGeneralQuery
               (validated_general_query (gc_protocol (gw_config g)) q)) (\<lambda>(interval, query).
        Ok (relay, interval, query))))))"
    by (intro no_panic_bnd) (auto simp: no_panic_validated_general_query)
  then show ?thesis by (auto simp: handle_query_def Let_def no_panic_iff split: res.split)
qed

lemma no_panic_handle_multicast_data: "no_panic (handle_multicast_data g outer packet)"
  by (auto simp: handle_multicast_data_def Let_def no_panic_parse_multicast_packet no_panic_decapsulate_ecn
      intro!: no_panic_bnd)

lemma no_panic_handle_datagram: "no_panic (fst (handle_datagram_with_ecn g peer d outer))"
proof -
  have "map_err GwDecode (decode d) \<noteq> Panic" using no_panic_decode[of d] by (cases "decode d") simp_all
  then show ?thesis
    by (simp add: handle_datagram_with_ecn_def Let_def handle_advertisement_def no_panic_handle_query
        no_panic_handle_multicast_data split: res.split message.split)
qed

lemma no_panic_membership_update: "no_panic (fst (membership_update rp g))"
  using no_panic_build_membership_report[of rp]
  by (cases "gw_relay_endpoint g"; cases "gw_session g"; cases "build_membership_report rp")
     (simp_all add: membership_update_def Let_def)

section \<open>Forwarded data and failover\<close>

lemma handle_multicast_data_forwards:
  assumes "handle_multicast_data g outer packet = Ok (GwMulticastData out ecn)"
  shows "\<exists>m. parse_multicast_packet packet = Ok m \<and> parse_multicast_packet out = Ok m \<and>
    wanted (gw_reception_state g) RECEPTION_STATE_ENDPOINT (mp_group m) (mp_source m) \<and> gw_session g \<noteq> None"
proof -
  from assms obtain m where m: "parse_multicast_packet packet = Ok m"
    "wanted (gw_reception_state g) RECEPTION_STATE_ENDPOINT (mp_group m) (mp_source m)" "gw_session g \<noteq> None"
    and out: "out = packet \<or> (\<exists>e. decapsulate_ecn packet outer = Ok (out, e))"
    by (auto simp: handle_multicast_data_def Let_def bnd_eq_Ok wanted_def split: if_splits option.splits)
  have "parse_multicast_packet out = Ok m"
    using out m(1) decapsulate_ecn_raw[OF m(1), of outer] by auto
  with m show ?thesis by blast
qed

fun restarts :: "(u32 \<times> u32) list \<Rightarrow> gateway \<Rightarrow> gateway" where
  "restarts [] g = g"
| "restarts ((fresh1, fresh2) # ns) g = restarts ns (snd (restart_discovery fresh1 fresh2 g))"

lemma restart_relays:
  "gc_relay (gw_config (snd (restart_discovery f1 f2 g))) =
     (case gc_fallback_relays (gw_config g) of [] \<Rightarrow> gc_relay (gw_config g) | c # _ \<Rightarrow> c)"
  "\<exists>tail. gc_fallback_relays (gw_config (snd (restart_discovery f1 f2 g))) =
     tl (gc_fallback_relays (gw_config g)) @ tail"
  by (auto simp: restart_discovery_def Let_def rotate_relay_def split: list.split)

lemma restarts_relay:
  assumes "k < length fs" "prefix fs (gc_fallback_relays (gw_config g))" "length ns = Suc k"
  shows "gc_relay (gw_config (restarts ns g)) = fs ! k"
  using assms
proof (induction ns arbitrary: g fs k)
  case (Cons n ns)
  obtain f1 f2 where n: "n = (f1, f2)" by fastforce
  obtain c cs where fs: "fs = c # cs" using Cons.prems(1) by (cases fs) auto
  then obtain rest where fb: "gc_fallback_relays (gw_config g) = c # cs @ rest"
    using Cons.prems(2) by (auto simp: prefix_def)
  let ?g = "snd (restart_discovery f1 f2 g)"
  from restart_relays[of f1 f2 g] fb have g: "gc_relay (gw_config ?g) = c"
    "prefix cs (gc_fallback_relays (gw_config ?g))" by (auto simp: prefix_def)
  show ?case
  proof (cases k)
    case 0
    then show ?thesis using Cons.prems(3) g(1) by (simp add: n fs)
  next
    case (Suc k')
    with Cons.IH[of k' cs ?g] Cons.prems g(2) show ?thesis by (simp add: n fs)
  qed
qed simp

text \<open>Replacing memberships: every group is named by the report or by an added leave.\<close>

definition replaces :: "membership_record_kind \<Rightarrow> bool" where
  "replaces k \<longleftrightarrow> k \<in> {ModeIsInclude, ModeIsExclude, ChangeToInclude, ChangeToExclude}"

lemma record_meaning_replaces: "replaces k \<Longrightarrow> record_meaning k S W = record_meaning k S {}"
  by (cases k) (simp_all add: replaces_def)

lemma sources_after_replaces:
  assumes "\<forall>r \<in> set rs. replaces (mr_kind r)" "distinct (map mr_group rs)"
  shows "sources_after rs grp W =
    (case find (\<lambda>r. mr_group r = grp) rs of None \<Rightarrow> W | Some r \<Rightarrow> record_meaning (mr_kind r) (set (mr_sources r)) {})"
  using assms
proof (induction rs arbitrary: W)
  case Nil
  then show ?case by (simp add: sources_after_def)
next
  case (Cons r rs)
  have sa: "sources_after (r # rs) grp W = sources_after rs grp
      (if grp = mr_group r then record_meaning (mr_kind r) (set (mr_sources r)) W else W)"
    by (simp add: sources_after_def)
  show ?case
  proof (cases "grp = mr_group r")
    case True
    with Cons.prems(2) have "find (\<lambda>r. mr_group r = grp) rs = None"
      unfolding find_None_iff by (metis distinct.simps(2) image_eqI list.set_map list.simps(9))
    moreover have "record_meaning (mr_kind r) S W = record_meaning (mr_kind r) S {}" for S
      using Cons.prems(1) by (intro record_meaning_replaces) simp
    ultimately show ?thesis using True Cons.IH Cons.prems unfolding sa by simp
  next
    case False
    with Cons show ?thesis by (simp add: sa)
  qed
qed

lemma aggregate_group_wanted:
  assumes "state_inv st" and "wanted st e grp s"
  shows "grp \<in> fst ` set (aggregate_interests st)"
proof -
  have st_eq: "rebuild_indexes st = st" using assms(1) by (simp add: state_inv_def)
  from indexes_correct(3)[OF st_eq] assms(2) obtain i where "fmlookup (rs_aggregate st) grp = Some i"
    by (fastforce split: option.splits)
  then have "(grp, i) \<in> set (aggregate_interests st)" by (simp add: aggregate_interests_def map_iter_get)
  then show ?thesis by force
qed

lemma missing_leaves_props:
  "\<forall>r \<in> set (missing_leaves g rp). mr_kind r = ChangeToInclude \<and> mr_sources r = [] \<and> mr_group r \<notin> mr_group ` set (rp_records rp)"
  "mr_group ` set (missing_leaves g rp) = fst ` set (aggregate_interests (gw_reception_state g)) - mr_group ` set (rp_records rp)"
  "distinct (map mr_group (missing_leaves g rp))"
proof -
  show "\<forall>r \<in> set (missing_leaves g rp). mr_kind r = ChangeToInclude \<and> mr_sources r = [] \<and> mr_group r \<notin> mr_group ` set (rp_records rp)"
    by (auto simp: missing_leaves_def Let_def fset_of_list_elem)
  show "mr_group ` set (missing_leaves g rp) = fst ` set (aggregate_interests (gw_reception_state g)) - mr_group ` set (rp_records rp)"
    by (force simp: missing_leaves_def Let_def fset_of_list_elem)
  have "map mr_group (missing_leaves g rp) = filter (\<lambda>grp. grp |\<notin>| fset_of_list (map mr_group (rp_records rp)))
      (map fst (aggregate_interests (gw_reception_state g)))"
    by (simp add: missing_leaves_def Let_def comp_def case_prod_unfold filter_map)
  then show "distinct (map mr_group (missing_leaves g rp))"
    using btree.iter_distinct[of "rs_aggregate (gw_reception_state g)"] by (simp add: aggregate_interests_def)
qed

lemma find_append: "find P (xs @ ys) = (case find P xs of None \<Rightarrow> find P ys | Some x \<Rightarrow> Some x)"
  by (induction xs) simp_all

lemma find_missing_leaf:
  assumes "state_inv (gw_reception_state g)" and "find (\<lambda>r. mr_group r = grp) (rp_records rp) = None"
  shows "(case find (\<lambda>r. mr_group r = grp) (missing_leaves g rp) of
      None \<Rightarrow> {s. wanted (gw_reception_state g) RECEPTION_STATE_ENDPOINT grp s}
    | Some r \<Rightarrow> record_meaning (mr_kind r) (set (mr_sources r)) {}) = {}"
proof (cases "find (\<lambda>r. mr_group r = grp) (missing_leaves g rp)")
  case None
  then have "grp \<notin> mr_group ` set (missing_leaves g rp)" by (auto simp: find_None_iff)
  moreover have "grp \<notin> mr_group ` set (rp_records rp)" using assms(2) by (auto simp: find_None_iff)
  ultimately have "grp \<notin> fst ` set (aggregate_interests (gw_reception_state g))"
    using missing_leaves_props(2)[of g rp] by blast
  then have "\<not> wanted (gw_reception_state g) RECEPTION_STATE_ENDPOINT grp s" for s
    using aggregate_group_wanted[OF assms(1)] by blast
  then show ?thesis using None by simp
next
  case (Some r)
  then have "r \<in> set (missing_leaves g rp)" by (auto simp: find_Some_iff)
  with missing_leaves_props(1)[of g rp] Some show ?thesis by simp
qed

lemma replace_memberships_eq:
  fixes g rp
  defines "rp' \<equiv> rp\<lparr>rp_records := rp_records rp @ missing_leaves g rp\<rparr>"
  shows "rp_records rp' \<noteq> [] \<Longrightarrow> snd (replace_memberships rp g) = snd (membership_update rp' g)"
    and "rp_records rp' \<noteq> [] \<Longrightarrow> is_ok (fst (replace_memberships rp g)) = is_ok (fst (membership_update rp' g))"
    and "rp_records rp' = [] \<Longrightarrow> snd (replace_memberships rp g) = g"
proof -
  have r: "replace_memberships rp g = (if rp_records rp' = [] then (Ok None, g)
      else (bnd (fst (membership_update rp' g)) (\<lambda>a. Ok (Some a)), snd (membership_update rp' g)))"
    by (simp add: replace_memberships_def rp'_def Let_def case_prod_unfold)
  show "rp_records rp' \<noteq> [] \<Longrightarrow> snd (replace_memberships rp g) = snd (membership_update rp' g)"
    "rp_records rp' = [] \<Longrightarrow> snd (replace_memberships rp g) = g" by (simp_all add: r)
  show "rp_records rp' \<noteq> [] \<Longrightarrow> is_ok (fst (replace_memberships rp g)) = is_ok (fst (membership_update rp' g))"
    by (cases "fst (membership_update rp' g)") (simp_all add: r)
qed

lemma replace_memberships_raw:
  assumes inv: "gateway_inv g" and ok: "is_ok (fst (replace_memberships rp g))"
    and rs: "\<forall>r \<in> set (rp_records rp). replaces (mr_kind r)" "distinct (map mr_group (rp_records rp))"
  shows "{s. wanted (gw_reception_state (snd (replace_memberships rp g))) RECEPTION_STATE_ENDPOINT grp s} =
    (case find (\<lambda>r. mr_group r = grp) (rp_records rp) of None \<Rightarrow> {}
     | Some r \<Rightarrow> record_meaning (mr_kind r) (set (mr_sources r)) {})"
proof -
  define all where "all = rp_records rp @ missing_leaves g rp"
  define W where "W = {s. wanted (gw_reception_state g) RECEPTION_STATE_ENDPOINT grp s}"
  note ml = missing_leaves_props[of g rp]
  have "\<forall>r \<in> set (missing_leaves g rp). replaces (mr_kind r)" using ml(1) by (simp add: replaces_def)
  moreover have "set (map mr_group (rp_records rp)) \<inter> set (map mr_group (missing_leaves g rp)) = {}"
    using ml(2) by (metis Diff_disjoint list.set_map)
  ultimately have all: "\<forall>r \<in> set all. replaces (mr_kind r)" "distinct (map mr_group all)"
    using rs ml(3) by (auto simp: all_def)
  have st: "state_inv (gw_reception_state g)" using inv by (simp add: gateway_inv_def reception_inv_def)
  have after: "sources_after all grp W = (case find (\<lambda>r. mr_group r = grp) (rp_records rp) of None \<Rightarrow> {}
     | Some r \<Rightarrow> record_meaning (mr_kind r) (set (mr_sources r)) {})"
    using find_missing_leaf[OF st, of grp rp] unfolding sources_after_replaces[OF all] W_def
    by (simp add: all_def find_append split: option.split)
  note eq = replace_memberships_eq[of rp g, folded all_def]
  show ?thesis
  proof (cases "all = []")
    case True
    then have "sources_after all grp W = W" by (simp add: sources_after_def)
    with after eq(3) True show ?thesis by (simp add: W_def)
  next
    case False
    show ?thesis
    proof (cases rule: membership_update_snd[of "rp\<lparr>rp_records := all\<rparr>" g])
      case (sent relay session packet)
      have "gw_reception_state (snd (replace_memberships rp g)) =
          snd (apply_report (gw_reception_state g) RECEPTION_STATE_ENDPOINT (rp\<lparr>rp_records := all\<rparr>))"
        using eq(1) False sent(5) by simp
      then show ?thesis using after by (simp add: wanted_apply_report W_def)
    qed (use ok eq(2) False in simp)
  qed
qed

section \<open>Properties of the gateway\<close>

text \<open>C24: the nonce loop.  If the source yields some nonzero word and does not fail before it, the
  loop returns that word, the first nonzero one; the loop never returns zero.\<close>

theorem random_nonce_returns:
  assumes "rnd (i + k) = Some nonce" "nonce \<noteq> 0" "\<forall>j < k. rnd (i + j) = Some 0"
  shows "random_nonce rnd i = Some (Ok nonce :: ('e, u32) res)"
  using assms
proof (induction k arbitrary: i)
  case 0
  then show ?case by (subst random_nonce.simps) simp
next
  case (Suc k)
  have "rnd i = Some 0" using Suc.prems(3)[rule_format, of 0] by simp
  moreover have "random_nonce rnd (Suc i) = Some (Ok nonce :: ('e, u32) res)"
  proof (rule Suc.IH)
    show "\<forall>j < k. rnd (Suc i + j) = Some 0" using Suc.prems(3) by (auto simp: less_Suc_eq_0_disj)
  qed (use Suc.prems in simp_all)
  ultimately show ?case by (subst random_nonce.simps) simp
qed

theorem random_nonce_returns_witness:
  "random_nonce (\<lambda>i. if i < 3 then Some 0 else Some 0xCAFE) 0 = Some (Ok 0xCAFE)"
  by (rule random_nonce_returns[where k = 3]) simp_all

text \<open>C7: in every reachable state of the gateway, the phase matches what is known (no relay and
  no session while discovering, a relay while awaiting a query, both once established), the relay
  endpoint is a usable unicast address of the configured family and port, nonces are nonzero, the
  fallback relays are exactly the other candidates, without repetition and of one family, and a
  session is marked as having reported memberships only if there are some; and neither a datagram
  nor a membership update can make it panic.\<close>

theorem gateway_reachable_invariant:
  assumes "gateway_reachable g"
  shows "gateway_inv g \<and> no_panic (fst (handle_datagram_with_ecn g peer d outer)) \<and>
    no_panic (fst (membership_update rp g))"
  using gateway_reachable_inv[OF assms] by (simp add: no_panic_handle_datagram no_panic_membership_update)

definition sample_gateway_config :: gateway_config where
  "sample_gateway_config = with_fallback_relays [SockV4 0xC0000265 2268, SockV4 0xC0000264 2268, SockV6 1 2268 0 0]
     (gateway_config_new 7 9 (SockV4 0xC0000264 2268) Igmpv3)"

definition sample_gateway_state :: gateway where
  "sample_gateway_state = gateway_new 7 9 sample_gateway_config"

lemma sample_gateway_reachable: "gateway_reachable sample_gateway_state"
  unfolding sample_gateway_state_def sample_gateway_config_def by (rule gateway_reachable.initial) simp_all

theorem gateway_reachable_invariant_witness:
  "gateway_inv (snd (handle_datagram_with_ecn sample_gateway_state (SockV4 0xC0000264 2268)
     (encode (RelayAdvertisement 7 (V4 0xC0000266))) NotEct))"
  using gateway_reachable_invariant[OF gateway_reachable.step[OF sample_gateway_reachable gateway_step.datagram]]
  by blast

text \<open>C9: the gateway is moved only by answers to its own questions.  When a datagram changes its
  state, it came from the relay the gateway is talking to, and is either a Relay Advertisement
  with the current discovery nonce, naming a usable unicast address of the relay's family, while
  discovering, or a Membership Query that carries a valid General Query and the nonce of the
  outstanding Request (of the session, when established).\<close>

theorem gateway_moved_by_answers:
  assumes "snd (handle_datagram_with_ecn g peer d outer) \<noteq> g"
  shows "peer = (case gw_relay_endpoint g of None \<Rightarrow> gc_relay (gw_config g) | Some relay \<Rightarrow> relay) \<and>
    ((\<exists>a. decode d = Ok (RelayAdvertisement (gc_discovery_nonce (gw_config g)) a) \<and> gw_phase g = Discovering \<and>
        is_usable_unicast a \<and> same_family a (sock_ip peer)) \<or>
     (\<exists>mac nonce limit gateway q query interval. decode d = Ok (MembershipQuery mac nonce limit gateway q) \<and>
        expected_query_nonce g = Ok nonce \<and>
        validated_general_query (gc_protocol (gw_config g)) q = Ok (interval, query)))"
proof -
  from assms have peer: "peer = (case gw_relay_endpoint g of None \<Rightarrow> gc_relay (gw_config g) | Some relay \<Rightarrow> relay)"
    by (rule contrapos_np) (simp add: handle_datagram_with_ecn_def)
  then have "snd (case map_err GwDecode (decode d) of
        Err e \<Rightarrow> (Err e, g)
      | Panic \<Rightarrow> (Panic, g)
      | Ok (RelayAdvertisement n a) \<Rightarrow> handle_advertisement g peer n a
      | Ok (MembershipQuery mac n l gw q) \<Rightarrow> handle_query g mac n l gw q
      | Ok (MulticastData p) \<Rightarrow> (handle_multicast_data g outer p, g)
      | Ok _ \<Rightarrow> (Ok GwIgnored, g)) \<noteq> g"
    using assms unfolding handle_datagram_with_ecn_def Let_def peer[symmetric]
    by (simp split: res.splits message.splits)
  then consider (advertisement) n a where "decode d = Ok (RelayAdvertisement n a)"
      "snd (handle_advertisement g peer n a) \<noteq> g"
    | (query) mac n l gw q where "decode d = Ok (MembershipQuery mac n l gw q)"
      "snd (handle_query g mac n l gw q) \<noteq> g"
    by (cases "decode d"; simp split: message.splits)
  then show ?thesis
  proof cases
    case (advertisement n a)
    then have "n = gc_discovery_nonce (gw_config g)" "gw_phase g = Discovering" "is_usable_unicast a"
      "same_family a (sock_ip peer)"
      by (auto simp: handle_advertisement_def split: if_splits)
    with advertisement(1) peer show ?thesis by blast
  next
    case (query mac n l gw q)
    with handle_query_snd[of g mac n l gw q] peer show ?thesis by blast
  qed
qed

theorem gateway_moved_by_answers_witness:
  "\<exists>a. decode (encode (RelayAdvertisement 7 (V4 0xC0000266))) = Ok (RelayAdvertisement 7 a) \<and> is_usable_unicast a"
proof -
  have c: "gw_config sample_gateway_state = sample_gateway_config" "gw_phase sample_gateway_state = Discovering"
      "gw_relay_endpoint sample_gateway_state = None" "gc_discovery_nonce sample_gateway_config = 7"
      "gc_relay sample_gateway_config = SockV4 0xC0000264 2268"
    by (simp_all add: sample_gateway_state_def sample_gateway_config_def gateway_new_def nonzero_or_random_def
        gateway_config_new_def with_fallback_relays_def)
  have "gw_phase (snd (handle_datagram_with_ecn sample_gateway_state (SockV4 0xC0000264 2268)
     (encode (RelayAdvertisement 7 (V4 0xC0000266))) NotEct)) = AwaitingMembershipQuery"
    by (simp add: handle_datagram_with_ecn_def Let_def c decode_encode_raw handle_advertisement_def eval_simps)
  then have "snd (handle_datagram_with_ecn sample_gateway_state (SockV4 0xC0000264 2268)
     (encode (RelayAdvertisement 7 (V4 0xC0000266))) NotEct) \<noteq> sample_gateway_state"
    using c(2) by auto
  from gateway_moved_by_answers[OF this] show ?thesis by (auto simp: c decode_encode_raw)
qed

text \<open>C8: what the gateway hands to the local network.  Data is passed on only if it came in
  Multicast Data from the relay of a running session, is a well-formed multicast datagram whose
  source the gateway's own memberships want in that group, and, with ECN processing, still parses
  to the same source, group, protocol and length.\<close>

theorem forwarded_data_wanted:
  assumes "fst (handle_datagram_with_ecn g peer d outer) = Ok (GwMulticastData out ecn)"
  shows "\<exists>packet m. decode d = Ok (MulticastData packet) \<and> gw_relay_endpoint g = Some peer \<and> gw_session g \<noteq> None \<and>
    parse_multicast_packet packet = Ok m \<and> parse_multicast_packet out = Ok m \<and>
    wanted (gw_reception_state g) RECEPTION_STATE_ENDPOINT (mp_group m) (mp_source m)"
proof -
  let ?expected = "case gw_relay_endpoint g of None \<Rightarrow> gc_relay (gw_config g) | Some relay \<Rightarrow> relay"
  have adv: "fst (handle_advertisement g peer n a) \<noteq> Ok (GwMulticastData out ecn)" for n a
    by (simp add: handle_advertisement_def Let_def)
  have query: "fst (handle_query g mac n l gw q) \<noteq> Ok (GwMulticastData out ecn)" for mac n l gw q
    by (auto simp: handle_query_def Let_def split: res.split)
  have peer: "peer = ?expected"
    using assms by (rule contrapos_pp) (simp add: handle_datagram_with_ecn_def)
  then have "fst (case map_err GwDecode (decode d) of
        Err e \<Rightarrow> (Err e, g)
      | Panic \<Rightarrow> (Panic, g)
      | Ok (RelayAdvertisement n a) \<Rightarrow> handle_advertisement g peer n a
      | Ok (MembershipQuery mac n l gw q) \<Rightarrow> handle_query g mac n l gw q
      | Ok (MulticastData p) \<Rightarrow> (handle_multicast_data g outer p, g)
      | Ok _ \<Rightarrow> (Ok GwIgnored, g)) = Ok (GwMulticastData out ecn)"
    using assms unfolding handle_datagram_with_ecn_def Let_def peer[symmetric]
    by (simp split: res.splits message.splits)
  then obtain packet where p: "decode d = Ok (MulticastData packet)"
      "handle_multicast_data g outer packet = Ok (GwMulticastData out ecn)"
    using adv query by (cases "decode d"; simp split: message.splits)
  have "gw_relay_endpoint g \<noteq> None"
    using p(2) by (rule contrapos_pn) (simp add: handle_multicast_data_def)
  with peer p(1) handle_multicast_data_forwards[OF p(2)] show ?thesis by auto
qed

definition sample_session :: gateway where
  "sample_session = sample_gateway_state\<lparr>gw_config := (gw_config sample_gateway_state)\<lparr>gc_ecn := True\<rparr>,
     gw_phase := Established, gw_relay_endpoint := Some (SockV4 0xC0000264 2268),
     gw_session := Some \<lparr>gs_response_mac = 1, gs_request_nonce = 9, gs_gateway_endpoint = None, gs_reported_memberships = True\<rparr>,
     gw_reception_state := snd (apply_report empty_state RECEPTION_STATE_ENDPOINT \<lparr>rp_protocol = Igmpv3, rp_records =
       [\<lparr>mr_kind = AllowNewSources, mr_group = V4 0xEF010203, mr_sources = [V4 0xC0000201]\<rparr>]\<rparr>)\<rparr>"

lemma sample_session_wanted:
  "wanted (gw_reception_state sample_session) RECEPTION_STATE_ENDPOINT (V4 0xEF010203) (V4 0xC0000201)"
proof -
  have "{s. wanted (gw_reception_state sample_session) RECEPTION_STATE_ENDPOINT (V4 0xEF010203) s} =
      {s. wanted empty_state RECEPTION_STATE_ENDPOINT (V4 0xEF010203) s} \<union> {V4 0xC0000201}"
    by (simp add: sample_session_def wanted_apply_report sources_after_def)
  then show ?thesis by blast
qed

theorem forwarded_data_wanted_witness:
  "\<exists>out ecn. fst (handle_datagram_with_ecn sample_session (SockV4 0xC0000264 2268) (encode (MulticastData sample_ect0)) Ect0) =
     Ok (GwMulticastData out ecn) \<and> is_ok (parse_multicast_packet out)"
proof -
  obtain out ecn where e: "decapsulate_ecn sample_ect0 Ect0 = Ok (out, ecn)" "\<not> ecn_is_drop ecn"
    using decapsulate_ecn_raw[OF parse_sample_ect0, of Ect0] decapsulation_drop_iff[of _ Ect0]
    by (auto simp: ecn_is_drop_def)
  have "gw_relay_endpoint sample_session = Some (SockV4 0xC0000264 2268)" "gw_session sample_session \<noteq> None"
    "gc_ecn (gw_config sample_session)" by (simp_all add: sample_session_def)
  then have h: "fst (handle_datagram_with_ecn sample_session (SockV4 0xC0000264 2268) (encode (MulticastData sample_ect0)) Ect0) =
     Ok (GwMulticastData out (Some ecn))"
    using sample_session_wanted e
    by (simp add: handle_datagram_with_ecn_def decode_encode_raw handle_multicast_data_def parse_sample_ect0
        flip: wanted_def)
  from forwarded_data_wanted[OF this] h show ?thesis by (auto simp: is_ok_iff)
qed

text \<open>C23: failover tries every relay.  Whatever nonces are drawn, each candidate is the relay being
  contacted now or after at most as many discovery restarts as there are fallback relays.\<close>

theorem failover_reaches_every_candidate:
  assumes "gateway_reachable g" and "relay \<in> set (gw_relay_candidates g)"
  shows "\<exists>k \<le> length (gc_fallback_relays (gw_config g)).
    \<forall>nonces. length nonces = k \<longrightarrow> gc_relay (gw_config (restarts nonces g)) = relay"
proof (cases "relay = gc_relay (gw_config g)")
  case False
  with gateway_reachable_inv[OF assms(1)] assms(2) have "relay \<in> set (gc_fallback_relays (gw_config g))"
    by (simp add: gateway_inv_def relays_inv_def)
  then obtain k where k: "k < length (gc_fallback_relays (gw_config g))" "gc_fallback_relays (gw_config g) ! k = relay"
    by (auto simp: in_set_conv_nth)
  then show ?thesis
    using restarts_relay[of k "gc_fallback_relays (gw_config g)" g] by (intro exI[of _ "Suc k"]) auto
qed (auto intro!: exI[of _ 0])

theorem failover_reaches_every_candidate_witness:
  "\<exists>k \<le> 1. \<forall>nonces. length nonces = k \<longrightarrow>
     gc_relay (gw_config (restarts nonces sample_gateway_state)) = SockV4 0xC0000265 2268"
  using failover_reaches_every_candidate[OF sample_gateway_reachable, of "SockV4 0xC0000265 2268"]
  by (simp add: sample_gateway_state_def sample_gateway_config_def gateway_new_def gateway_config_new_def
      with_fallback_relays_def)



end
