(* ===== verification/Session.thy ===== *)
theory Session
  imports Relay Gateway
begin

text \<open>
  The relay of \<open>relay.rs\<close> and the gateway of \<open>gateway.rs\<close> talking to each other: the messages one
  side sends are the datagrams the other handles.  The theory follows a session from discovery
  to forwarded data; the network between the two, which may delay or lose messages, is
  represented by the choice of which datagram is delivered when.
\<close>

section \<open>The relay answers the gateway\<close>

lemma handle_discovery:
  "nonce \<noteq> 0 \<Longrightarrow> handle_datagram hmac fresh now r peer (encode (RelayDiscovery nonce)) =
     (let r' = rotate_secret_if_due fresh now r
      in (Ok (Send (encode (RelayAdvertisement nonce (advertised_addr_for (r_config r') peer)))), r'))"
  by (simp add: handle_datagram_def prepare_datagram_def prepare_message_def prepare_discovery_def
      decode_encode_raw Let_def)

lemma advertised_rotate [simp]:
  "advertised_addr_for (r_config (rotate_secret_if_due fresh now r)) peer = advertised_addr_for (r_config r) peer"
  by (cases rule: rotate_secret_cases[of fresh now r]; cases peer) simp_all

text \<open>Admission depends on state, limits and the limit flag only.\<close>

lemma refusing_cong:
  "r_state r' = r_state r \<Longrightarrow> rc_limits (r_config r') = rc_limits (r_config r) \<Longrightarrow>
   rc_limit (r_config r') = rc_limit (r_config r) \<Longrightarrow> refusing_new_endpoint r' = refusing_new_endpoint r"
  by (rule ext) (simp add: refusing_new_endpoint_def)

lemma rc_limit_rotate [simp]: "rc_limit (r_config (rotate_secret_if_due fresh now r)) = rc_limit (r_config r)"
  by (cases rule: rotate_secret_cases[of fresh now r]) simp_all

text \<open>The parser limits the relay derives from its own.\<close>

definition relay_parse_limits :: "relay_limits \<Rightarrow> membership_parse_limits" where
  "relay_parse_limits limits = \<lparr>max_records = max_records_per_report limits,
     max_sources_per_record = max_sources_per_group limits\<rparr>"

lemma buildable_records:
  assumes "build_membership_report rp = Ok packet" and "r \<in> set (rp_records rp)"
  shows "is_amt_forwardable_group (mr_group r)"
proof -
  have "\<exists>u. validate_build_records (rp_protocol rp) (rp_records rp) = Ok u"
    using assms(1)
    by (cases "rp_protocol rp")
       (auto simp: build_membership_report_def build_igmpv3_membership_report_def
          build_mldv2_membership_report_def bnd_eq_Ok)
  with assms(2) show ?thesis by (auto simp: validate_build_records_Ok buildable_def)
qed

lemma prepare_built_update:
  assumes inv: "state_inv (r_state r)"
    and mac: "valid_response_mac hmac now r mac (sock_ip peer) (sock_port peer) nonce"
    and build: "build_membership_report rp = Ok packet"
    and lim: "within_limits (relay_parse_limits (rc_limits (r_config r))) (rp_records rp)"
    and adm: "contains_endpoint (r_state r) peer \<or> \<not> refusing_new_endpoint r (sock_ip peer)"
    and ok: "is_ok (fst (apply_report_limited (r_state r) peer rp (rc_limits (r_config r))))"
  shows "\<exists>n subs st. prepare_update hmac now r peer mac nonce packet =
      Ok (AcceptedMembershipUpdate (rp_protocol rp) (length packet) n subs, st) \<and>
    (case st of None \<Rightarrow> rs_endpoints (r_state r) = rs_endpoints (snd (apply_report (r_state r) peer rp))
     | Some st \<Rightarrow> st = snd (apply_report (r_state r) peer rp))"
proof -
  have parse: "parse_membership_report_with_limits packet (relay_parse_limits (rc_limits (r_config r))) = Ok rp"
    using parse_built_report_raw[OF build lim, of "[]"] by simp
  have fwd: "find (\<lambda>grp. \<not> is_amt_forwardable_group grp) (map mr_group (rp_records rp)) = None"
    using buildable_records[OF build] by (auto simp: find_None_iff)
  obtain n st' where ap: "apply_report_limited (r_state r) peer rp (rc_limits (r_config r)) = (Ok n, st')"
      "apply_report (r_state r) peer rp = (n, st')"
    using inv by (cases rule: apply_report_limited_cases[of "r_state r" peer rp "rc_limits (r_config r)"])
      (use ok in auto)
  have pu: "prepare_update hmac now r peer mac nonce packet =
    (case preview_report (r_state r) peer rp of (applied, changed) \<Rightarrow>
       if \<not> changed then Ok (AcceptedMembershipUpdate (rp_protocol rp) (length packet) applied
           (upstream_subscriptions (r_state r)), None)
       else Ok (AcceptedMembershipUpdate (rp_protocol rp) (length packet) applied (upstream_subscriptions st'), Some st'))"
    using mac adm parse fwd ap(1) by (auto simp: prepare_update_def relay_parse_limits_def case_prod_unfold)
  show ?thesis
    using preview_report_raw[OF inv, of peer rp] ap(2)
    unfolding pu by (auto simp: case_prod_unfold)
qed

text \<open>The sources wanted depend on the stored interests only.\<close>

lemma wanted_cong: "rs_endpoints st = rs_endpoints st' \<Longrightarrow> wanted st e grp s = wanted st' e grp s"
  by (simp add: wanted_def endpoint_interest_def)

definition agree :: "relay \<Rightarrow> socket_addr \<Rightarrow> gateway \<Rightarrow> bool" where
  "agree r peer g \<longleftrightarrow> (\<forall>grp s. wanted (r_state r) peer grp s \<longleftrightarrow>
     wanted (gw_reception_state g) RECEPTION_STATE_ENDPOINT grp s)"

lemma agree_apply_report:
  assumes "agree r peer g"
  shows "wanted (snd (apply_report (r_state r) peer rp)) peer grp s \<longleftrightarrow>
    wanted (snd (apply_report (gw_reception_state g) RECEPTION_STATE_ENDPOINT rp)) RECEPTION_STATE_ENDPOINT grp s"
proof -
  have "{s. wanted (r_state r) peer grp s} = {s. wanted (gw_reception_state g) RECEPTION_STATE_ENDPOINT grp s}"
    using assms by (simp add: agree_def)
  then have "{s. wanted (snd (apply_report (r_state r) peer rp)) peer grp s} =
      {s. wanted (snd (apply_report (gw_reception_state g) RECEPTION_STATE_ENDPOINT rp)) RECEPTION_STATE_ENDPOINT grp s}"
    by (simp add: wanted_apply_report)
  then show ?thesis by blast
qed

section \<open>A session on a network that delivers\<close>

text \<open>One request and its answer each: discovery and request, then an update.  At every step the
  relay may draw a fresh secret; \<open>None\<close> if some answer is not the expected one.\<close>

type_synonym call = "relay_secret option \<times> instant"

definition handshake :: "hmac_fun \<Rightarrow> call \<Rightarrow> call \<Rightarrow> relay \<Rightarrow> socket_addr \<Rightarrow> gateway \<Rightarrow> (relay \<times> gateway) option" where
  "handshake hmac at1 at2 r peer g =
     (case discovery g of GwSend relay d1 \<Rightarrow>
       (case handle_datagram hmac (fst at1) (snd at1) r peer d1 of (Ok (Send advertisement), r1) \<Rightarrow>
       (case gateway_handle_datagram g relay advertisement of (Ok (GwSend endpoint d2), g1) \<Rightarrow>
       (case handle_datagram hmac (fst at2) (snd at2) r1 peer d2 of (Ok (Send query), r2) \<Rightarrow>
       (case gateway_handle_datagram g1 endpoint query of (Ok (GwMembershipQuery _ _ _ _ _ _), g2) \<Rightarrow> Some (r2, g2)
        | _ \<Rightarrow> None) | _ \<Rightarrow> None) | _ \<Rightarrow> None) | _ \<Rightarrow> None) | _ \<Rightarrow> None)"

definition report_update :: "hmac_fun \<Rightarrow> call \<Rightarrow> socket_addr \<Rightarrow> membership_report \<Rightarrow> relay \<times> gateway \<Rightarrow> (relay \<times> gateway) option" where
  "report_update hmac at peer rp = (\<lambda>(r, g).
     case membership_update rp g of (Ok (GwSend _ d), g') \<Rightarrow>
       (case handle_datagram hmac (fst at) (snd at) r peer d of (Ok (AcceptedMembershipUpdate _ _ _ _), r') \<Rightarrow> Some (r', g')
        | _ \<Rightarrow> None)
     | _ \<Rightarrow> None)"

lemma gateway_takes_advertisement:
  assumes "gateway_inv g" "gw_phase g = Discovering" "is_usable_unicast a" "same_family a (sock_ip (gc_relay (gw_config g)))"
  shows "gateway_handle_datagram g (gc_relay (gw_config g))
      (encode (RelayAdvertisement (gc_discovery_nonce (gw_config g)) a)) =
    (let endpoint = socket_new a (sock_port (gc_relay (gw_config g)))
     in (Ok (GwSend endpoint (encode (request_message (gw_config g)))),
         g\<lparr>gw_relay_endpoint := Some endpoint, gw_phase := AwaitingMembershipQuery\<rparr>))"
  using assms
  by (simp add: gateway_handle_datagram_def handle_datagram_with_ecn_def decode_encode_raw handle_advertisement_def
      gateway_inv_def phase_inv_def Let_def)

lemma gateway_takes_query:
  assumes "gw_relay_endpoint g = Some endpoint" "gw_phase g = AwaitingMembershipQuery"
    "query_source_ok (gc_protocol (gw_config g)) c"
  shows "gateway_handle_datagram g endpoint (encode (MembershipQuery mac (gc_request_nonce (gw_config g)) limit gateway
      (build_general_query (gc_protocol (gw_config g)) c))) =
    (Ok (GwMembershipQuery mac limit gateway (build_general_query (gc_protocol (gw_config g)) c)
        (query_interval (query_interval_code c)) (previous_teardown_of endpoint (gw_session g) gateway)),
     g\<lparr>gw_session := Some \<lparr>gs_response_mac = mac, gs_request_nonce = gc_request_nonce (gw_config g),
          gs_gateway_endpoint = gateway,
          gs_reported_memberships = (case gw_session g of None \<Rightarrow> False
            | Some session \<Rightarrow> gs_gateway_endpoint session = gateway \<and> gs_reported_memberships session)\<rparr>,
        gw_phase := Established\<rparr>)"
proof -
  have "validated_general_query (gc_protocol (gw_config g)) (build_general_query (gc_protocol (gw_config g)) c) =
      Ok (query_interval (query_interval_code c), build_general_query (gc_protocol (gw_config g)) c)"
    using validated_built_query[OF assms(3), of "[]"] by simp
  then show ?thesis
    using assms(1,2)
    by (simp add: gateway_handle_datagram_def handle_datagram_with_ecn_def decode_encode_raw handle_query_def
        expected_query_nonce_def)
qed

text \<open>The relay accepts an update whose MAC it issued, and both sides then agree.\<close>

lemma update_agrees:
  assumes inv: "relay_inv r" and ag: "agree r peer g"
    and mac: "valid_response_mac hmac now (rotate_secret_if_due fresh now r) (gs_response_mac session)
      (sock_ip peer) (sock_port peer) (gs_request_nonce session)"
    and build: "build_membership_report rp = Ok packet"
    and lim: "within_limits (relay_parse_limits (rc_limits (r_config r))) (rp_records rp)"
    and adm: "\<not> refusing_new_endpoint r (sock_ip peer)"
    and ok: "is_ok (fst (apply_report_limited (r_state r) peer rp (rc_limits (r_config r))))"
    and gw: "gw_relay_endpoint g = Some endpoint" "gw_session g = Some session"
  shows "\<exists>g' d p n k subs r'. membership_update rp g = (Ok (GwSend endpoint d), g') \<and>
    handle_datagram hmac fresh now r peer d = (Ok (AcceptedMembershipUpdate p n k subs), r') \<and> agree r' peer g' \<and>
    gw_phase g' = gw_phase g \<and> gw_relay_endpoint g' = Some endpoint \<and> gw_session g' \<noteq> None \<and> gw_config g' = gw_config g"
proof -
  let ?r = "rotate_secret_if_due fresh now r" and ?g = "snd (membership_update rp g)"
  let ?d = "encode (MembershipUpdate (gs_response_mac session) (gs_request_nonce session) packet)"
  have g: "fst (membership_update rp g) = Ok (GwSend endpoint ?d)" "gw_phase ?g = gw_phase g" "gw_config ?g = gw_config g"
    "gw_relay_endpoint ?g = Some endpoint" "gw_session ?g \<noteq> None"
    "gw_reception_state ?g = snd (apply_report (gw_reception_state g) RECEPTION_STATE_ENDPOINT rp)"
    using gw build by (simp_all add: membership_update_def Let_def)
  have "refusing_new_endpoint ?r = refusing_new_endpoint r" by (rule refusing_cong) simp_all
  then have "\<exists>n subs st. prepare_update hmac now ?r peer (gs_response_mac session) (gs_request_nonce session) packet =
      Ok (AcceptedMembershipUpdate (rp_protocol rp) (length packet) n subs, st) \<and>
    (case st of None \<Rightarrow> rs_endpoints (r_state r) = rs_endpoints (snd (apply_report (r_state r) peer rp))
     | Some st \<Rightarrow> st = snd (apply_report (r_state r) peer rp))"
    using prepare_built_update[of ?r hmac now "gs_response_mac session" peer "gs_request_nonce session" rp packet,
        unfolded rotate_secret_keeps]
      inv mac build lim adm ok by (simp add: relay_inv_def)
  then obtain n subs st where u: "prepare_update hmac now ?r peer (gs_response_mac session) (gs_request_nonce session) packet =
      Ok (AcceptedMembershipUpdate (rp_protocol rp) (length packet) n subs, st)"
    "case st of None \<Rightarrow> rs_endpoints (r_state r) = rs_endpoints (snd (apply_report (r_state r) peer rp))
     | Some st \<Rightarrow> st = snd (apply_report (r_state r) peer rp)" by blast
  define r' where "r' = (case st of None \<Rightarrow> ?r | Some st \<Rightarrow> ?r\<lparr>r_state := st\<rparr>)"
  have h: "handle_datagram hmac fresh now r peer ?d =
      (Ok (AcceptedMembershipUpdate (rp_protocol rp) (length packet) n subs), r')"
    using u(1) by (simp add: handle_update r'_def split: option.split)
  have "wanted (r_state r') peer grp s = wanted (snd (apply_report (r_state r) peer rp)) peer grp s" for grp s
    using u(2) wanted_cong[of "r_state r" "snd (apply_report (r_state r) peer rp)"] by (simp add: r'_def split: option.splits)
  then have "agree r' peer ?g"
    using agree_apply_report[OF ag, of rp] by (simp add: agree_def g(6))
  with g h show ?thesis
    by (intro exI[of _ ?g] exI[of _ ?d] exI[of _ "rp_protocol rp"] exI[of _ "length packet"] exI[of _ n]
        exI[of _ subs] exI[of _ r']) (simp add: prod_eq_iff)
qed

text \<open>The hypotheses under which a session comes about: the relay advertises a usable address of
  the gateway's family and a legal query source, admits the gateway, and has room for the report;
  the gateway is discovering, its report is well formed, and the update arrives while the query's
  MAC is valid.\<close>

definition session_possible :: "relay \<Rightarrow> socket_addr \<Rightarrow> gateway \<Rightarrow> membership_report \<Rightarrow> bool" where
  "session_possible r peer g rp \<longleftrightarrow>
     is_usable_unicast (advertised_addr_for (r_config r) peer) \<and>
     same_family (advertised_addr_for (r_config r) peer) (sock_ip (gc_relay (gw_config g))) \<and>
     query_source_ok (gc_protocol (gw_config g)) (rc_general_query (r_config r)) \<and>
     \<not> refusing_new_endpoint r (sock_ip peer) \<and>
     is_ok (fst (apply_report_limited (r_state r) peer rp (rc_limits (r_config r)))) \<and>
     within_limits (relay_parse_limits (rc_limits (r_config r))) (rp_records rp) \<and>
     is_ok (build_membership_report rp) \<and> gw_phase g = Discovering"

text \<open>After the handshake the gateway holds a MAC that the relay's secret gives for it.\<close>

definition session_open :: "hmac_fun \<Rightarrow> instant \<Rightarrow> relay \<Rightarrow> socket_addr \<Rightarrow> socket_addr \<Rightarrow> gateway \<Rightarrow> bool" where
  "session_open hmac t r peer endpoint g \<longleftrightarrow> gw_phase g = Established \<and> gw_relay_endpoint g = Some endpoint \<and>
     (\<exists>session. gw_session g = Some session \<and> gs_response_mac session =
        response_mac_with_secret hmac (rc_secret (r_config r)) (sock_ip peer) (sock_port peer) (gs_request_nonce session))"

lemma handshake_succeeds:
  assumes inv: "relay_inv r" "gateway_inv g" and ps: "session_possible r peer g rp"
  shows "\<exists>r' g'. handshake hmac (f1, t1) (f2, t2) r peer g = Some (r', g') \<and> relay_inv r' \<and>
    r_state r' = r_state r \<and> rc_limits (r_config r') = rc_limits (r_config r) \<and> rc_limit (r_config r') = rc_limit (r_config r) \<and>
    grace (r_config r') = grace (r_config r) \<and>
    session_open hmac t2 r' peer (socket_new (advertised_addr_for (r_config r) peer) (sock_port (gc_relay (gw_config g)))) g' \<and>
    gw_config g' = gw_config g \<and> gw_reception_state g' = gw_reception_state g"
proof -
  let ?c = "gw_config g" and ?a = "advertised_addr_for (r_config r) peer"
  let ?e = "socket_new ?a (sock_port (gc_relay ?c))"
  from inv(2) ps have n: "gc_discovery_nonce ?c \<noteq> 0" and none: "gw_session g = None"
    by (simp_all add: gateway_inv_def phase_inv_def session_possible_def)
  define r1 where "r1 = rotate_secret_if_due f1 t1 r"
  have s1: "handle_datagram hmac f1 t1 r peer (encode (RelayDiscovery (gc_discovery_nonce ?c))) =
      (Ok (Send (encode (RelayAdvertisement (gc_discovery_nonce ?c) ?a))), r1)"
    using handle_discovery[OF n] by (simp add: r1_def Let_def)
  define g1 where "g1 = g\<lparr>gw_relay_endpoint := Some ?e, gw_phase := AwaitingMembershipQuery\<rparr>"
  have s2: "gateway_handle_datagram g (gc_relay ?c) (encode (RelayAdvertisement (gc_discovery_nonce ?c) ?a)) =
      (Ok (GwSend ?e (encode (request_message ?c))), g1)"
    using gateway_takes_advertisement[OF inv(2), of ?a] ps by (simp add: g1_def session_possible_def Let_def)
  define r2 where "r2 = remember_gateway_ecn_capability t2 peer (gc_ecn ?c) (rotate_secret_if_due f2 t2 r1)"
  let ?mac = "response_mac_with_secret hmac (rc_secret (r_config r2)) (sock_ip peer) (sock_port peer) (gc_request_nonce ?c)"
  define q where "q = rc_general_query (r_config r)"
  obtain limit gateway where s3: "handle_datagram hmac f2 t2 r1 peer (encode (request_message ?c)) =
      (Ok (Send (encode (MembershipQuery ?mac (gc_request_nonce ?c) limit gateway (build_general_query (gc_protocol ?c) q)))), r2)"
    unfolding request_message_def handle_request Let_def
    by (simp add: r2_def r1_def q_def response_mac_of_def)
  define g2 where "g2 = g1\<lparr>gw_session := Some \<lparr>gs_response_mac = ?mac, gs_request_nonce = gc_request_nonce ?c,
      gs_gateway_endpoint = gateway, gs_reported_memberships = False\<rparr>, gw_phase := Established\<rparr>"
  have s4: "gateway_handle_datagram g1 ?e (encode (MembershipQuery ?mac (gc_request_nonce ?c) limit gateway
      (build_general_query (gc_protocol ?c) q))) =
      (Ok (GwMembershipQuery ?mac limit gateway (build_general_query (gc_protocol ?c) q)
        (query_interval (query_interval_code q)) None), g2)"
    using gateway_takes_query[of g1 ?e q ?mac limit gateway] ps none
    by (simp add: g1_def g2_def q_def session_possible_def previous_teardown_of_def)
  have "relay_inv r2"
    using relay_inv_handle[OF relay_inv_handle[OF inv(1), of hmac f1 t1 peer "encode (RelayDiscovery (gc_discovery_nonce ?c))"],
        of hmac f2 t2 peer "encode (request_message ?c)"] by (simp add: s1 s3)
  moreover have "handshake hmac (f1, t1) (f2, t2) r peer g = Some (r2, g2)"
    by (simp add: handshake_def discovery_def s1 s2 s3 s4)
  moreover have "session_open hmac t2 r2 peer ?e g2" by (simp add: session_open_def g2_def g1_def)
  ultimately show ?thesis
    by (intro exI[of _ r2] exI[of _ g2]) (simp add: r2_def r1_def grace_def g2_def g1_def)
qed

lemma report_update_succeeds:
  assumes inv: "relay_inv r" and open_: "session_open hmac t r peer endpoint g" and ag: "agree r peer g"
    and lim: "within_limits (relay_parse_limits (rc_limits (r_config r))) (rp_records rp)" "is_ok (build_membership_report rp)"
    and adm: "\<not> refusing_new_endpoint r (sock_ip peer)"
    and ok: "is_ok (fst (apply_report_limited (r_state r) peer rp (rc_limits (r_config r))))"
    and t: "t \<le> t'" "t' \<le> t + grace (r_config r)"
  shows "\<exists>r' g'. report_update hmac (fresh, t') peer rp (r, g) = Some (r', g') \<and> relay_inv r' \<and> agree r' peer g' \<and>
    is_established g' \<and> gw_relay_endpoint g' = Some endpoint \<and> gw_config g' = gw_config g"
proof -
  from lim(2) obtain packet where packet: "build_membership_report rp = Ok packet" by (auto simp: is_ok_iff)
  from open_ obtain session where s: "gw_phase g = Established" "gw_relay_endpoint g = Some endpoint" "gw_session g = Some session"
    "gs_response_mac session =
       response_mac_with_secret hmac (rc_secret (r_config r)) (sock_ip peer) (sock_port peer) (gs_request_nonce session)"
    by (auto simp: session_open_def)
  have v: "valid_response_mac hmac t' (rotate_secret_if_due fresh t' r) (gs_response_mac session)
      (sock_ip peer) (sock_port peer) (gs_request_nonce session)"
    unfolding s(4)
  proof (rule secret_known_valid)
    show "secret_known (rc_secret (r_config r)) t t' (rotate_secret_if_due fresh t' r)"
      by (rule secret_known_rotate[OF _ order_refl t(1)]) (simp add: secret_known_def)
    show "t' \<le> t + grace (r_config (rotate_secret_if_due fresh t' r))" using t(2) by (simp add: grace_def)
  qed
  obtain g' d p n k subs r' where u: "membership_update rp g = (Ok (GwSend endpoint d), g')"
    "handle_datagram hmac fresh t' r peer d = (Ok (AcceptedMembershipUpdate p n k subs), r')" "agree r' peer g'"
    "gw_phase g' = gw_phase g" "gw_relay_endpoint g' = Some endpoint" "gw_session g' \<noteq> None" "gw_config g' = gw_config g"
    using update_agrees[OF inv ag v packet lim(1) adm ok s(2,3)] by blast
  have "relay_inv r'" using relay_inv_handle[OF inv, of hmac fresh t' peer d] by (simp add: u(2))
  with u s(1) show ?thesis by (simp add: report_update_def is_established_def)
qed

section \<open>Properties of a session\<close>

text \<open>The gateway passes on exactly what its memberships want.\<close>

lemma gateway_passes_iff:
  assumes "is_established g" "gw_relay_endpoint g = Some endpoint" "\<not> gc_ecn (gw_config g)"
    "parse_multicast_packet packet = Ok m"
  shows "fst (gateway_handle_datagram g endpoint (encode (MulticastData packet))) = Ok (GwMulticastData packet None) \<longleftrightarrow>
    wanted (gw_reception_state g) RECEPTION_STATE_ENDPOINT (mp_group m) (mp_source m)"
  using assms
  by (simp add: gateway_handle_datagram_def handle_datagram_with_ecn_def decode_encode_raw handle_multicast_data_def
      is_established_def flip: wanted_def)


lemma sample_subscriptions: "fcard (rs_subscriptions sample_state) \<le> 1"
proof -
  have "x = ssm (V4 0xE8010203) (V4 0xC0000201)" if x: "x |\<in>| rs_subscriptions sample_state" for x
  proof (cases x)
    case (UpstreamSubscription grp src)
    show ?thesis
    proof (cases src)
      case None
      then have "asm grp |\<in>| rs_subscriptions sample_state" using x UpstreamSubscription by (simp add: asm_def)
      then show ?thesis
        using subscriptions_raw(3)[OF sample_state_inv, of grp]
        by (auto simp: endpoint_interest_def sample_state_endpoints split: if_splits)
    next
      case (Some s)
      then have "ssm grp s |\<in>| rs_subscriptions sample_state" using x UpstreamSubscription by (simp add: ssm_def)
      with subscriptions_raw(2)[OF sample_state_inv] obtain e where "wanted sample_state e grp s" by blast
      then show ?thesis
        using UpstreamSubscription Some
        by (auto simp: wanted_def endpoint_interest_def sample_state_endpoints ssm_def wants_source_def split: if_splits)
    qed
  qed
  then have "rs_subscriptions sample_state |\<subseteq>| {|ssm (V4 0xE8010203) (V4 0xC0000201)|}" by blast
  from fcard_mono[OF this] show ?thesis by (simp add: fcard.rep_eq)
qed

lemma sample_join_accepted: "is_ok (fst (apply_report_limited empty_state sample_gateway sample_join default_relay_limits))"
proof -
  have st: "snd (apply_report empty_state sample_gateway sample_join) = sample_state" by (simp add: sample_state_def)
  have "max_group_sources (fmlookup (rs_endpoints sample_state) sample_gateway) \<le> 128"
    by (simp add: max_group_sources_def sample_state_endpoints sorted_list_of_fmap_def sorted_list_of_fset.rep_eq fcard.rep_eq)
  then have "check_state_limits sample_state sample_gateway default_relay_limits = Ok ()"
    using sample_state_limits sample_subscriptions
    by (auto simp: check_state_limits_def Let_def bnd_eq_Ok limits_inv_def endpoint_count_def endpoint_limits_def
        default_relay_limits_def sample_state_endpoints fcard.rep_eq)
  then show ?thesis
    by (simp add: apply_report_limited_def case_prod_unfold st check_limit_def sample_join_def[THEN arg_cong[of _ _ rp_records]]
        default_relay_limits_def)
qed

lemma sample_session_possible: "session_possible sample_relay sample_gateway sample_gateway_state sample_join"
proof -
  have c: "gw_config sample_gateway_state = sample_gateway_config" "gw_phase sample_gateway_state = Discovering"
      "gc_protocol sample_gateway_config = Igmpv3" "gc_relay sample_gateway_config = SockV4 0xC0000264 2268"
    by (simp_all add: sample_gateway_state_def sample_gateway_config_def gateway_new_def nonzero_or_random_def
        gateway_config_new_def with_fallback_relays_def)
  have r: "r_state sample_relay = empty_state" "rc_limits (r_config sample_relay) = default_relay_limits"
      "rc_general_query (r_config sample_relay) = for_amt" "rc_advertise_ipv4 (r_config sample_relay) = 0xC0000264"
      "\<not> rc_limit (r_config sample_relay)"
    by (simp_all add: sample_relay_def relay_new_def for_bind_def Let_def default_relay_config_def ipv4_is_unspecified_def)
  have "\<not> refusing_new_endpoint sample_relay (sock_ip sample_gateway)"
    by (simp add: refusing_new_endpoint_def r is_near_limits_def is_ip_near_endpoint_limit_def near_limit_def
        default_relay_limits_def empty_state_def endpoint_count_for_ip_def fcard.rep_eq)
  moreover have "is_ok (build_membership_report sample_join)"
  proof -
    have "buildable Igmpv3 r" if "r \<in> set (rp_records sample_join)" for r
      using that by (simp add: sample_join_def buildable_def encodable_def Let_def eval_simps)
    from build_igmpv3_report_closed[of "rp_records sample_join", OF _ _ this] show ?thesis
      by (simp add: build_membership_report_def sample_join_def Let_def enc_records_def enc_record_def enc_addrs_def)
  qed
  moreover have "within_limits (relay_parse_limits default_relay_limits) (rp_records sample_join)"
    by (simp add: within_limits_def relay_parse_limits_def default_relay_limits_def sample_join_def)
  ultimately show ?thesis
    unfolding session_possible_def using sample_join_accepted
    by (simp add: c r sample_gateway_def query_source_ok_def for_amt_def eval_simps)
qed


end
