(* ===== verification/Pmtu.thy ===== *)
theory Pmtu
  imports Mtu
begin

text \<open>
  Path MTU feedback for oversized source-specific datagrams, \<open>src/pmtu.rs\<close>: the limiter with
  its expiry queue, the two ICMP builders, the suppression of errors about errors, and the
  sender.  The raw IP context of the packet library is a parameter.  The limiter is shown
  to implement a sliding window over the history of what it allowed, the builders to
  produce well-formed ICMP messages, and the sender never to answer an ICMP error.
\<close>

section \<open>Constants and results\<close>

definition IPV4_HEADER_LEN :: nat where "IPV4_HEADER_LEN = 20"
definition ICMP_HEADER_LEN :: nat where "ICMP_HEADER_LEN = 8"
definition IPV4_MIN_REASSEMBLY_MTU :: nat where "IPV4_MIN_REASSEMBLY_MTU = 576"
definition IPV6_MIN_MTU :: nat where "IPV6_MIN_MTU = 1280"
definition ICMPV4_PROTOCOL :: u8 where "ICMPV4_PROTOCOL = 1"
definition PMTU_ICMPV6_PROTOCOL :: u8 where "PMTU_ICMPV6_PROTOCOL = 58"
definition DEFAULT_FEEDBACK_INTERVAL :: duration where "DEFAULT_FEEDBACK_INTERVAL = from_secs 1"
definition DEFAULT_TRACKED_FLOWS :: nat where "DEFAULT_TRACKED_FLOWS = 4096"

lemmas pmtu_consts = IPV4_HEADER_LEN_def ICMP_HEADER_LEN_def IPV4_MIN_REASSEMBLY_MTU_def
  IPV6_MIN_MTU_def ICMPV4_PROTOCOL_def PMTU_ICMPV6_PROTOCOL_def DEFAULT_FEEDBACK_INTERVAL_def
  DEFAULT_TRACKED_FLOWS_def

datatype pmtu_feedback_outcome = PmtuSent nat | PmtuRateLimited | PmtuSuppressed
  | PmtuAddressFamilyUnavailable

datatype 't pmtu_feedback_error = PmtuInvalidPacket ip_packet_error
  | PmtuInvalidLocalAddress ip_addr | PmtuInvalidMtu nat | PmtuTransport 't

section \<open>The limiter\<close>

type_synonym flow = "ip_addr \<times> ip_addr"

record feedback_rate_limiter =
  fl_last_feedback :: "(flow, instant) btree_map"
  fl_expirations :: "(flow \<times> instant) list"
  fl_minimum_interval :: duration
  fl_max_tracked_flows :: nat

definition limiter_new :: "duration \<Rightarrow> nat \<Rightarrow> feedback_rate_limiter" where
  "limiter_new minimum_interval max_tracked_flows =
     \<lparr>fl_last_feedback = fmempty, fl_expirations = [],
      fl_minimum_interval = minimum_interval, fl_max_tracked_flows = max_tracked_flows\<rparr>"

text \<open>The loop that pops expired entries off the front of the queue.\<close>

fun pop_expired :: "instant \<Rightarrow> duration \<Rightarrow> (flow \<times> instant) list \<Rightarrow> (flow, instant) btree_map
    \<Rightarrow> (flow \<times> instant) list \<times> (flow, instant) btree_map" where
  "pop_expired now interval [] seen = ([], seen)"
| "pop_expired now interval ((key, observed) # queue) seen =
     (if observed \<le> now \<and> interval \<le> now - observed
      then pop_expired now interval queue
             (if fmlookup seen key = Some observed then fmdrop key seen else seen)
      else ((key, observed) # queue, seen))"

definition limiter_allow ::
  "instant \<Rightarrow> ip_addr \<Rightarrow> ip_addr \<Rightarrow> feedback_rate_limiter \<Rightarrow> bool \<times> feedback_rate_limiter" where
  "limiter_allow now source grp self =
     (let (queue, seen) = pop_expired now (fl_minimum_interval self) (fl_expirations self) (fl_last_feedback self);
          key = (source, grp);
          self = self\<lparr>fl_expirations := queue, fl_last_feedback := seen\<rparr>
      in if fmlookup seen key \<noteq> None \<or> fl_max_tracked_flows self \<le> fcard (fmdom seen) then (False, self)
         else (True, self\<lparr>fl_last_feedback := fmupd key now seen, fl_expirations := queue @ [(key, now)]\<rparr>))"

section \<open>The messages\<close>

definition build_icmpv4_fragmentation_needed ::
  "ipv4 \<Rightarrow> ipv4 \<Rightarrow> bytes \<Rightarrow> nat \<Rightarrow> ('t pmtu_feedback_error, bytes) res" where
  "build_icmpv4_fragmentation_needed local destination invoking_packet tunnel_mtu =
     (if \<not> tunnel_mtu < 2 ^ 16 then Err (PmtuInvalidMtu tunnel_mtu) else
      let mtu = (of_nat tunnel_mtu :: u16);
          max_quote = IPV4_MIN_REASSEMBLY_MTU - IPV4_HEADER_LEN - ICMP_HEADER_LEN;
          quote_len = min (length invoking_packet) max_quote;
          total_len = IPV4_HEADER_LEN + ICMP_HEADER_LEN + quote_len;
          packet = replicate total_len 0;
          packet = write_at 0 [0x45] packet;
          packet = write_at 2 (be_bytes 2 (of_nat total_len :: u16)) packet;
          packet = write_at 8 [64] packet;
          packet = write_at 9 [ICMPV4_PROTOCOL] packet;
          packet = write_at 12 (octets4 local) packet;
          packet = write_at 16 (octets4 destination) packet;
          packet = write_at 20 [3] packet;
          packet = write_at 21 [4] packet;
          packet = write_at 26 (be_bytes 2 mtu) packet;
          packet = write_at 28 (take quote_len invoking_packet) packet;
          icmp_checksum = checksum (drop IPV4_HEADER_LEN packet);
          packet = write_at 22 (be_bytes 2 icmp_checksum) packet;
          header_checksum = checksum (take IPV4_HEADER_LEN packet)
      in Ok (write_at 10 (be_bytes 2 header_checksum) packet))"

definition build_icmpv6_packet_too_big ::
  "ipv6 \<Rightarrow> ipv6 \<Rightarrow> bytes \<Rightarrow> nat \<Rightarrow> ('t pmtu_feedback_error, bytes) res" where
  "build_icmpv6_packet_too_big local destination invoking_packet tunnel_mtu =
     (if \<not> tunnel_mtu < 2 ^ 32 then Err (PmtuInvalidMtu tunnel_mtu) else
      let mtu = (of_nat tunnel_mtu :: u32);
          max_quote = IPV6_MIN_MTU - IPV6_HEADER_LEN - ICMP_HEADER_LEN;
          quote_len = min (length invoking_packet) max_quote;
          payload_len = ICMP_HEADER_LEN + quote_len;
          packet = replicate (IPV6_HEADER_LEN + payload_len) 0;
          packet = write_at 0 [0x60] packet;
          packet = write_at 4 (be_bytes 2 (of_nat payload_len :: u16)) packet;
          packet = write_at 6 [PMTU_ICMPV6_PROTOCOL] packet;
          packet = write_at 7 [64] packet;
          packet = write_at 8 (octets6 local) packet;
          packet = write_at 24 (octets6 destination) packet;
          packet = write_at 40 [2] packet;
          packet = write_at 44 (be_bytes 4 mtu) packet;
          packet = write_at 48 (take quote_len invoking_packet) packet;
          icmp_checksum = icmpv6_checksum (octets6 local) (octets6 destination) PMTU_ICMPV6_PROTOCOL
            (drop IPV6_HEADER_LEN packet)
      in Ok (write_at 42 (be_bytes 2 icmp_checksum) packet))"

definition build_pmtu_feedback ::
  "ip_addr \<Rightarrow> bytes \<Rightarrow> nat \<Rightarrow> ('t pmtu_feedback_error, bytes) res" where
  "build_pmtu_feedback local_address invoking_packet tunnel_mtu =
     bnd (map_err PmtuInvalidPacket (parse_multicast_packet invoking_packet)) (\<lambda>parsed.
     case (local_address, mp_source parsed) of
       (V4 local, V4 source) \<Rightarrow> build_icmpv4_fragmentation_needed local source invoking_packet tunnel_mtu
     | (V6 local, V6 source) \<Rightarrow> build_icmpv6_packet_too_big local source invoking_packet tunnel_mtu
     | _ \<Rightarrow> Err (PmtuInvalidLocalAddress local_address))"

section \<open>Suppression\<close>

text \<open>The walk over at most \<open>n\<close> (sixteen) next-header values; running out of bytes or of
  iterations is \<open>None\<close>.\<close>

fun upper_layer_walk :: "nat \<Rightarrow> bytes \<Rightarrow> u8 \<Rightarrow> nat \<Rightarrow> (u8 \<times> nat) option" where
  "upper_layer_walk 0 packet next_header offset = None"
| "upper_layer_walk (Suc n) packet next_header offset =
     (let continue = (\<lambda>next_header offset.
            if length packet < offset then None else upper_layer_walk n packet next_header offset)
      in
      if next_header \<in> {0, 43, 60} then
        Option.bind (get_byte packet offset) (\<lambda>nh.
        Option.bind (get_byte packet (offset + 1)) (\<lambda>l.
        Option.bind (checked_mul_usize (unat l + 1) 8) (\<lambda>header_len.
        Option.bind (checked_add_usize offset header_len) (continue nh))))
      else if next_header = 44 then
        Option.bind (get_byte packet offset) (\<lambda>nh.
        Option.bind (get_byte packet (offset + 2)) (\<lambda>f0.
        Option.bind (get_byte packet (offset + 3)) (\<lambda>f1.
        if (from_be [f0, f1] :: u16) AND 0xfff8 \<noteq> 0 then None
        else Option.bind (checked_add_usize offset 8) (continue nh))))
      else if next_header = 51 then
        Option.bind (get_byte packet offset) (\<lambda>nh.
        Option.bind (get_byte packet (offset + 1)) (\<lambda>l.
        Option.bind (checked_mul_usize (unat l + 2) 4) (\<lambda>header_len.
        Option.bind (checked_add_usize offset header_len) (continue nh))))
      else if offset \<le> length packet then Some (next_header, offset) else None)"

definition ipv6_upper_layer :: "bytes \<Rightarrow> (u8 \<times> nat) option" where
  "ipv6_upper_layer packet =
     Option.bind (get_byte packet 6) (\<lambda>next_header. upper_layer_walk 16 packet next_header IPV6_HEADER_LEN)"

definition suppress_icmp_error :: "bytes \<Rightarrow> multicast_packet \<Rightarrow> ('e, bool) res" where
  "suppress_icmp_error packet parsed =
     (case mp_source parsed of
        V4 _ \<Rightarrow>
          if mp_ip_protocol parsed = ICMPV4_PROTOCOL then
            if mp_fragmented parsed then Ok True
            else bnd (byte_at packet 0) (\<lambda>b0.
              Ok (case get_byte packet (ihl_of b0) of
                    None \<Rightarrow> False
                  | Some kind \<Rightarrow> kind \<in> {3, 4, 5, 11, 12}))
          else Ok False
      | V6 _ \<Rightarrow> Ok (case ipv6_upper_layer packet of
          None \<Rightarrow> True
        | Some (protocol, offset) \<Rightarrow> protocol = PMTU_ICMPV6_PROTOCOL \<and>
            (case get_byte packet offset of None \<Rightarrow> True | Some kind \<Rightarrow> kind < 128)))"

section \<open>The sender\<close>

text \<open>The raw IP context \<open>'c\<close> and its publication id \<open>'p\<close> belong to the packet library: opening a
  publication and sending on it are the parameters \<open>add_publication\<close> and \<open>send_ip_datagram\<close>, which
  answer with an error or with the id, respectively the number of bytes sent.\<close>

record ('c, 'p) pmtu_feedback_sender =
  ps_context :: 'c
  ps_publication :: 'p
  ps_local_address :: ip_addr
  ps_limiter :: feedback_rate_limiter

definition pmtu_sender_new ::
  "('c \<Rightarrow> ip_addr \<Rightarrow> u32 option \<Rightarrow> ('t, 'p) res \<times> 'c) \<Rightarrow> 'c \<Rightarrow> ip_addr \<Rightarrow> u32 option
   \<Rightarrow> ('t pmtu_feedback_error, ('c, 'p) pmtu_feedback_sender) res" where
  "pmtu_sender_new add_publication new_context local_address interface_index =
     (if is_unspecified local_address \<or> is_multicast local_address
      then Err (PmtuInvalidLocalAddress local_address) else
      let (r, ctx) = add_publication new_context local_address interface_index in
      bnd (map_err PmtuTransport r) (\<lambda>publication.
      Ok \<lparr>ps_context = ctx, ps_publication = publication, ps_local_address = local_address,
          ps_limiter = limiter_new DEFAULT_FEEDBACK_INTERVAL DEFAULT_TRACKED_FLOWS\<rparr>))"

definition pmtu_send ::
  "('c \<Rightarrow> 'p \<Rightarrow> bytes \<Rightarrow> ('t, nat) res \<times> 'c) \<Rightarrow> instant \<Rightarrow> ('c, 'p) pmtu_feedback_sender \<Rightarrow> bytes \<Rightarrow> nat
   \<Rightarrow> ('t pmtu_feedback_error, pmtu_feedback_outcome) res \<times> ('c, 'p) pmtu_feedback_sender" where
  "pmtu_send send_ip_datagram now self invoking_packet tunnel_mtu =
     (case map_err PmtuInvalidPacket (parse_multicast_packet invoking_packet) of
        Err e \<Rightarrow> (Err e, self) | Panic \<Rightarrow> (Panic, self)
      | Ok parsed \<Rightarrow>
      if \<not> same_family (ps_local_address self) (mp_source parsed) then (Ok PmtuAddressFamilyUnavailable, self) else
      case suppress_icmp_error invoking_packet parsed of
        Err e \<Rightarrow> (Err e, self) | Panic \<Rightarrow> (Panic, self)
      | Ok True \<Rightarrow> (Ok PmtuSuppressed, self)
      | Ok False \<Rightarrow>
      let (allowed, limiter) = limiter_allow now (mp_source parsed) (mp_group parsed) (ps_limiter self);
          self = self\<lparr>ps_limiter := limiter\<rparr>
      in if \<not> allowed then (Ok PmtuRateLimited, self) else
      case build_pmtu_feedback (ps_local_address self) invoking_packet tunnel_mtu of
        Err e \<Rightarrow> (Err e, self) | Panic \<Rightarrow> (Panic, self)
      | Ok feedback \<Rightarrow>
      let (r, ctx) = send_ip_datagram (ps_context self) (ps_publication self) feedback;
          self = self\<lparr>ps_context := ctx\<rparr>
      in (bnd (map_err PmtuTransport r) (\<lambda>bytes_sent. Ok (PmtuSent bytes_sent)), self))"

section \<open>The limiter is a sliding window\<close>

text \<open>The specification keeps the history of all grants.  A request is granted when the flow
  has no grant, and all flows together fewer than the limit, within the last interval.\<close>

definition recent :: "duration \<Rightarrow> instant \<Rightarrow> (flow \<times> instant) list \<Rightarrow> (flow \<times> instant) list" where
  "recent interval now grants = filter (\<lambda>(key, t). now < t + interval) grants"

definition window_allow :: "duration \<Rightarrow> nat \<Rightarrow> (flow \<times> instant) list \<Rightarrow> instant \<Rightarrow> flow \<Rightarrow> bool" where
  "window_allow interval limit grants now key \<longleftrightarrow>
     key \<notin> fst ` set (recent interval now grants) \<and> length (recent interval now grants) < limit"

fun window_run :: "duration \<Rightarrow> nat \<Rightarrow> (flow \<times> instant) list \<Rightarrow> (instant \<times> flow) list \<Rightarrow> bool list" where
  "window_run interval limit grants [] = []"
| "window_run interval limit grants ((now, key) # requests) =
     (if window_allow interval limit grants now key
      then True # window_run interval limit (grants @ [(key, now)]) requests
      else False # window_run interval limit grants requests)"

fun limiter_run :: "feedback_rate_limiter \<Rightarrow> (instant \<times> flow) list \<Rightarrow> bool list" where
  "limiter_run l [] = []"
| "limiter_run l ((now, key) # requests) =
     (let (allowed, l) = limiter_allow now (fst key) (snd key) l in allowed # limiter_run l requests)"

text \<open>The queue holds the newest grants, at least those of the window, and the map is the
  queue as a map.\<close>

definition limiter_inv :: "(flow \<times> instant) list \<Rightarrow> instant \<Rightarrow> feedback_rate_limiter \<Rightarrow> bool" where
  "limiter_inv grants seen l \<longleftrightarrow>
     (\<exists>dropped. grants = dropped @ fl_expirations l \<and> (\<forall>(k, t) \<in> set dropped. t + fl_minimum_interval l \<le> seen)) \<and>
     sorted (map snd grants) \<and> (\<forall>(k, t) \<in> set grants. t \<le> seen) \<and>
     distinct (map fst (fl_expirations l)) \<and> fmlookup (fl_last_feedback l) = map_of (fl_expirations l)"

lemma limiter_inv_new: "limiter_inv [] now (limiter_new interval limit)"
  by (simp add: limiter_inv_def limiter_new_def fun_eq_iff)

lemma recent_append: "recent interval now (xs @ ys) = recent interval now xs @ recent interval now ys"
  by (simp add: recent_def)

lemma recent_old: "(\<And>k t. (k, t) \<in> set xs \<Longrightarrow> t + interval \<le> now) \<Longrightarrow> recent interval now xs = []"
  by (force simp: recent_def filter_empty_conv)

lemma recent_all: "(\<And>k t. (k, t) \<in> set xs \<Longrightarrow> now < t + interval) \<Longrightarrow> recent interval now xs = xs"
  by (force simp: recent_def filter_id_conv)

lemma pop_expired_window:
  assumes "sorted (map snd queue)" and "\<And>k t. (k, t) \<in> set queue \<Longrightarrow> t \<le> now"
    and "distinct (map fst queue)" and "fmlookup seen = map_of queue"
    and "pop_expired now interval queue seen = (queue', seen')"
  shows "\<exists>dropped. queue = dropped @ queue' \<and> (\<forall>(k, t) \<in> set dropped. t + interval \<le> now)"
    and "recent interval now queue = queue'" and "fmlookup seen' = map_of queue'"
  using assms
proof (induction now interval queue seen rule: pop_expired.induct)
  case (1 now interval seen)
  { case 1 then show ?case by simp }
  { case 2 then show ?case by (simp add: recent_def) }
  { case 3 then show ?case by simp }
next
  case (2 now interval key observed queue seen)
  let ?seen = "if fmlookup seen key = Some observed then fmdrop key seen else seen"
  have "fmlookup ?seen = map_of queue" if "distinct (map fst ((key, observed) # queue))"
    "fmlookup seen = map_of ((key, observed) # queue)"
    using that by (auto simp: fun_eq_iff) (metis map_of_eq_None_iff)
  note IH = "2.IH"[OF _ _ _ _ this]
  have fresh: "recent interval now ((key, observed) # queue) = (key, observed) # queue"
    if "sorted (map snd ((key, observed) # queue))" "now < observed + interval"
    by (rule recent_all) (use that in force)
  { case 1
    show ?case
    proof (cases "observed \<le> now \<and> interval \<le> now - observed")
      case True
      then have "\<exists>dropped. queue = dropped @ queue' \<and> (\<forall>(k, t) \<in> set dropped. t + interval \<le> now)"
        using 1 by (intro IH(1)) auto
      then obtain dropped where "queue = dropped @ queue'" "\<forall>(k, t) \<in> set dropped. t + interval \<le> now" by blast
      with True show ?thesis by (intro exI[of _ "(key, observed) # dropped"]) auto
    qed (use 1 in auto) }
  { case 2
    show ?case
    proof (cases "observed \<le> now \<and> interval \<le> now - observed")
      case True
      then have "recent interval now queue = queue'" using 2 by (intro IH(2)) auto
      with True show ?thesis by (auto simp: recent_def)
    qed (use 2 fresh in auto) }
  { case 3
    show ?case
    proof (cases "observed \<le> now \<and> interval \<le> now - observed")
      case True
      then show ?thesis using 3 by (intro IH(3)) auto
    qed (use 3 in auto) }
qed

lemma fcard_fmdom_map_of:
  assumes "distinct (map fst xs)" and "fmlookup m = map_of xs"
  shows "fcard (fmdom m) = length xs"
proof -
  have "fset (fmdom m) = fst ` set xs" using assms(2) by (simp add: fmdom.rep_eq dom_map_of_conv_image_fst)
  then show ?thesis using assms(1) by (metis distinct_card fcard.rep_eq length_map list.set_map)
qed

lemma limiter_allow_window:
  assumes inv: "limiter_inv grants seen l" and "seen \<le> now"
    and a: "limiter_allow now (fst key) (snd key) l = (allowed, l')"
  shows "allowed = window_allow (fl_minimum_interval l) (fl_max_tracked_flows l) grants now key"
    and "limiter_inv (if allowed then grants @ [(key, now)] else grants) now l'"
    and "fl_minimum_interval l' = fl_minimum_interval l" and "fl_max_tracked_flows l' = fl_max_tracked_flows l"
proof -
  let ?i = "fl_minimum_interval l"
  obtain dropped where d: "grants = dropped @ fl_expirations l" "\<And>k t. (k, t) \<in> set dropped \<Longrightarrow> t + ?i \<le> seen"
    using inv by (force simp: limiter_inv_def)
  have g: "sorted (map snd grants)" "\<And>k t. (k, t) \<in> set grants \<Longrightarrow> t \<le> seen" "distinct (map fst (fl_expirations l))"
    "fmlookup (fl_last_feedback l) = map_of (fl_expirations l)" using inv by (auto simp: limiter_inv_def)
  obtain q m where p: "pop_expired now ?i (fl_expirations l) (fl_last_feedback l) = (q, m)" by fastforce
  have "sorted (map snd (fl_expirations l))" using g(1) d(1) by (simp add: sorted_append)
  moreover have "t \<le> now" if "(k, t) \<in> set (fl_expirations l)" for k t
    using g(2)[of k t] that d(1) \<open>seen \<le> now\<close> by simp
  ultimately have w: "\<exists>dropped. fl_expirations l = dropped @ q \<and> (\<forall>(k, t) \<in> set dropped. t + ?i \<le> now)"
    "recent ?i now (fl_expirations l) = q" "fmlookup m = map_of q"
    using pop_expired_window[OF _ _ g(3,4) p] by blast+
  then obtain dropped' where d': "fl_expirations l = dropped' @ q" "\<And>k t. (k, t) \<in> set dropped' \<Longrightarrow> t + ?i \<le> now" by force
  have "recent ?i now dropped = []" by (rule recent_old) (use d(2) \<open>seen \<le> now\<close> in force)
  then have rec: "recent ?i now grants = q" using w(2) d(1) by (simp add: recent_append)
  have dq: "distinct (map fst q)" using g(3) d'(1) by simp
  have al: "allowed \<longleftrightarrow> map_of q key = None \<and> length q < fl_max_tracked_flows l"
    using a by (auto simp: limiter_allow_def p w(3) Let_def fcard_fmdom_map_of[OF dq w(3)] split: if_splits)
  then show "allowed = window_allow ?i (fl_max_tracked_flows l) grants now key"
    by (simp add: window_allow_def rec map_of_eq_None_iff)
  have l': "l' = (if allowed then l\<lparr>fl_expirations := q @ [(key, now)], fl_last_feedback := fmupd key now m\<rparr>
      else l\<lparr>fl_expirations := q, fl_last_feedback := m\<rparr>)"
    using a by (auto simp: limiter_allow_def p Let_def split: if_splits)
  then show "fl_minimum_interval l' = ?i" "fl_max_tracked_flows l' = fl_max_tracked_flows l" by simp_all
  have all: "t \<le> now" if "(k, t) \<in> set grants" for k t using g(2)[OF that] \<open>seen \<le> now\<close> by simp
  have "\<forall>(k, t) \<in> set (dropped @ dropped'). t + ?i \<le> now" using d(2) d'(2) \<open>seen \<le> now\<close> by force
  moreover have "grants = (dropped @ dropped') @ q" using d(1) d'(1) by simp
  ultimately have "\<exists>dr. grants = dr @ q \<and> (\<forall>(k, t) \<in> set dr. t + ?i \<le> now)" by blast
  moreover have "sorted (map snd (grants @ [(key, now)]))" using g(1) all by (auto simp: sorted_append)
  moreover have "fmlookup (fmupd key now m) = map_of (q @ [(key, now)])" if "map_of q key = None"
    using that by (auto simp: fun_eq_iff w(3) map_add_def split: option.split)
  ultimately show "limiter_inv (if allowed then grants @ [(key, now)] else grants) now l'"
    unfolding l' limiter_inv_def using al all g(1) dq w(3)
    by (auto simp: map_of_eq_None_iff rev_image_eqI simp del: map_of_append)
qed

lemma limiter_run_window:
  assumes "limiter_inv grants seen l" and "sorted (seen # map fst requests)"
  shows "limiter_run l requests = window_run (fl_minimum_interval l) (fl_max_tracked_flows l) grants requests"
  using assms
proof (induction requests arbitrary: grants seen l)
  case (Cons r requests)
  obtain now key where r: "r = (now, key)" by (rule prod.exhaust)
  obtain allowed l' where a: "limiter_allow now (fst key) (snd key) l = (allowed, l')" by fastforce
  have "seen \<le> now" using Cons.prems(2) r by simp
  note w = limiter_allow_window[OF Cons.prems(1) this a]
  have "sorted (now # map fst requests)" using Cons.prems(2) r by simp
  from Cons.IH[OF w(2) this] show ?case by (simp add: r a w(1)[symmetric] w(3,4))
qed simp

section \<open>The messages are well formed\<close>

text \<open>What a receiver checks of an ICMP error that reports the tunnel MTU for an invoking packet.\<close>

definition fragmentation_needed_for :: "ipv4 \<Rightarrow> ipv4 \<Rightarrow> nat \<Rightarrow> bytes \<Rightarrow> bytes \<Rightarrow> bool" where
  "fragmentation_needed_for local destination mtu invoking p \<longleftrightarrow>
     length p = 28 + min (length invoking) 548 \<and> length p \<le> 576 \<and>
     p ! 0 = 0x45 \<and> unat (from_be [p ! 2, p ! 3] :: u16) = length p \<and> p ! 9 = 1 \<and>
     take 4 (drop 12 p) = octets4 local \<and> take 4 (drop 16 p) = octets4 destination \<and>
     ones_complement_sum (take 20 p) = 0xffff \<and>
     p ! 20 = 3 \<and> p ! 21 = 4 \<and> unat (from_be [p ! 26, p ! 27] :: u16) = mtu \<and>
     ones_complement_sum (drop 20 p) = 0xffff \<and> drop 28 p = take 548 invoking"

definition packet_too_big_for :: "ipv6 \<Rightarrow> ipv6 \<Rightarrow> nat \<Rightarrow> bytes \<Rightarrow> bytes \<Rightarrow> bool" where
  "packet_too_big_for local destination mtu invoking p \<longleftrightarrow>
     length p = 48 + min (length invoking) 1232 \<and> length p \<le> 1280 \<and>
     p ! 0 = 0x60 \<and> 40 + unat (from_be [p ! 4, p ! 5] :: u16) = length p \<and> p ! 6 = 58 \<and>
     take 16 (drop 8 p) = octets6 local \<and> take 16 (drop 24 p) = octets6 destination \<and>
     p ! 40 = 2 \<and> p ! 41 = 0 \<and> unat (from_be (take 4 (drop 44 p)) :: u32) = mtu \<and>
     icmpv6_checksum (octets6 local) (octets6 destination) 58 (drop 40 p) = 0 \<and>
     drop 48 p = take 1232 invoking"

lemma write_at_end: "write_at 0 src (replicate (length src) x) = src"
  by (simp add: write_at_def)

lemma take_min_length: "take (min (length xs) n) xs = take n xs"
  by (cases "length xs \<le> n") (simp_all add: min_def)

lemma build_icmpv4_closed:
  fixes d :: bytes and local dst :: ipv4
  assumes "mtu < 65536"
  defines "q \<equiv> take 548 d"
  defines "icmp \<equiv> [3, 4] @ be_bytes 2 (checksum ([3, 4] @ [0, 0] @ [0, 0] @ be_bytes 2 (of_nat mtu :: u16) @ q))
     @ [0, 0] @ be_bytes 2 (of_nat mtu :: u16) @ q"
  defines "front \<equiv> [0x45, 0] @ be_bytes 2 (of_nat (28 + length q) :: u16) @ [0, 0, 0, 0, 64, 1]"
  defines "back \<equiv> octets4 local @ octets4 dst"
  shows "build_icmpv4_fragmentation_needed local dst d mtu =
    Ok (front @ be_bytes 2 (checksum (front @ [0, 0] @ back)) @ back @ icmp)"
proof -
  obtain l0 l1 l2 l3 where l: "octets4 local = [l0, l1, l2, l3]" by (simp add: be_bytes_unroll)
  obtain s0 s1 s2 s3 where s: "octets4 dst = [s0, s1, s2, s3]" by (simp add: be_bytes_unroll)
  have len: "min (length d) 548 = length q" by (simp add: q_def)
  have tk: "take (length q) d = q" by (simp add: q_def take_min_length)
  have rp: "replicate (28 + length q) (0::u8) = replicate 28 0 @ replicate (length q) 0" by (simp add: replicate_add)
  show ?thesis
    unfolding front_def back_def icmp_def
    by (simp add: build_icmpv4_fragmentation_needed_def assms(1) pmtu_consts Let_def len tk rp l s be_bytes_2
        replicate_unroll write_at_end)
qed

lemma build_icmpv6_closed:
  fixes d :: bytes and local dst :: ipv6
  assumes "mtu < 4294967296"
  defines "q \<equiv> take 1232 d"
  defines "rest \<equiv> be_bytes 4 (of_nat mtu :: u32) @ q"
  shows "build_icmpv6_packet_too_big local dst d mtu =
    Ok ([0x60, 0, 0, 0] @ be_bytes 2 (of_nat (8 + length q) :: u16) @ [58, 64] @ octets6 local @ octets6 dst @
      [2, 0] @ be_bytes 2 (icmpv6_checksum (octets6 local) (octets6 dst) 58 ([2, 0] @ [0, 0] @ rest)) @ rest)"
proof -
  obtain m0 m1 m2 m3 where m: "be_bytes 4 (of_nat mtu :: u32) = [m0, m1, m2, m3]" by (simp add: be_bytes_unroll)
  have len: "min (length d) 1232 = length q" by (simp add: q_def)
  have tk: "take (length q) d = q" by (simp add: q_def take_min_length)
  have rp: "replicate (48 + length q) (0::u8) = replicate 48 0 @ replicate (length q) 0" by (simp add: replicate_add)
  show ?thesis
    unfolding rest_def m
    by (simp add: build_icmpv6_packet_too_big_def assms(1) pmtu_consts ip_consts Let_def len tk rp m be_bytes_2
        replicate_unroll write_at_end write_at_prefix[of "octets6 _"])
qed

lemma length_take_octets: "length (take 548 d) \<le> 548" "length (take 1232 d) \<le> 1232"
  by simp_all

lemma build_icmpv4_wellformed:
  assumes "mtu < 65536"
  shows "\<exists>p. build_icmpv4_fragmentation_needed local dst d mtu = Ok p \<and> fragmentation_needed_for local dst mtu d p"
proof -
  obtain l0 l1 l2 l3 where l: "octets4 local = [l0, l1, l2, l3]" by (simp add: be_bytes_unroll)
  obtain s0 s1 s2 s3 where s: "octets4 dst = [s0, s1, s2, s3]" by (simp add: be_bytes_unroll)
  let ?q = "take 548 d" and ?m = "be_bytes 2 (of_nat mtu :: u16)"
  let ?icmp = "[3, 4] @ be_bytes 2 (checksum ([3, 4] @ [0, 0] @ [0, 0] @ ?m @ ?q)) @ [0, 0] @ ?m @ ?q"
  let ?front = "[0x45, 0] @ be_bytes 2 (of_nat (28 + length ?q) :: u16) @ [0, 0, 0, 0, 64, 1]"
  let ?hdr = "?front @ be_bytes 2 (checksum (?front @ [0, 0] @ octets4 local @ octets4 dst)) @ octets4 local @ octets4 dst"
  have sums: "ones_complement_sum ?icmp = 0xffff" "ones_complement_sum ?hdr = 0xffff"
    by (rule ones_complement_sum_with_checksum; simp)+
  have n: "unat (of_nat (28 + length ?q) :: u16) = 28 + length ?q"
    using length_take_octets(1)[of d] by (intro unat_of_nat_u16) simp
  have len: "unat (from_be (be_bytes 2 (of_nat (28 + length ?q) :: u16)) :: u16) = 28 + length ?q"
    unfolding from_be_be_bytes[where 'a = 16 and n = 2, simplified] by (rule n)
  have mt: "unat (from_be ?m :: u16) = mtu"
    by (simp only: from_be_be_bytes[where 'a = 16 and n = 2, simplified] unat_of_nat_u16[OF assms])
  have "fragmentation_needed_for local dst mtu d (?hdr @ ?icmp)"
    unfolding fragmentation_needed_for_def
    using sums len mt by (simp add: l s be_bytes_2 min.commute)
  then show ?thesis using build_icmpv4_closed[OF assms, of local dst d] by auto
qed

lemma build_icmpv6_wellformed:
  assumes "mtu < 4294967296"
  shows "\<exists>p. build_icmpv6_packet_too_big local dst d mtu = Ok p \<and> packet_too_big_for local dst mtu d p"
proof -
  let ?q = "take 1232 d"
  let ?rest = "be_bytes 4 (of_nat mtu :: u32) @ ?q"
  let ?icmp = "[2, 0] @ be_bytes 2 (icmpv6_checksum (octets6 local) (octets6 dst) 58 ([2, 0] @ [0, 0] @ ?rest)) @ ?rest"
  let ?hdr = "[0x60, 0, 0, 0] @ be_bytes 2 (of_nat (8 + length ?q) :: u16) @ [58, 64] @ octets6 local @ octets6 dst"
  have sum: "icmpv6_checksum (octets6 local) (octets6 dst) 58 ?icmp = 0"
    by (rule icmpv6_checksum_with_checksum) simp_all
  have n: "unat (of_nat (8 + length ?q) :: u16) = 8 + length ?q"
    using length_take_octets(2)[of d] by (intro unat_of_nat_u16) simp
  have len: "unat (from_be (be_bytes 2 (of_nat (8 + length ?q) :: u16)) :: u16) = 8 + length ?q"
    unfolding from_be_be_bytes[where 'a = 16 and n = 2, simplified] by (rule n)
  have mt: "unat (from_be (be_bytes 4 (of_nat mtu :: u32)) :: u32) = mtu"
    using assms by (simp add: from_be_be_bytes unsigned_of_nat take_bit_nat_eq_self_iff)
  have "packet_too_big_for local dst mtu d (?hdr @ ?icmp)"
    unfolding packet_too_big_for_def
    using sum len mt by (simp add: be_bytes_2 min.commute nth_append)
  then show ?thesis using build_icmpv6_closed[OF assms, of local dst d] by auto
qed

section \<open>The extension header chain\<close>

text \<open>The chain of IPv6 extension headers from the header \<open>nh\<close> at \<open>off\<close>, with \<open>k\<close> extension headers
  up to the upper-layer protocol \<open>proto\<close> at \<open>upper\<close>; only a first fragment has one.\<close>

inductive header_chain :: "bytes \<Rightarrow> nat \<Rightarrow> u8 \<Rightarrow> nat \<Rightarrow> u8 \<Rightarrow> nat \<Rightarrow> bool" for d where
  upper: "nh \<notin> {0, 43, 60, 44, 51} \<Longrightarrow> off \<le> length d \<Longrightarrow> header_chain d 0 nh off nh off"
| options: "nh \<in> {0, 43, 60} \<Longrightarrow> off + 1 < length d \<Longrightarrow> off' = off + (unat (d ! (off + 1)) + 1) * 8 \<Longrightarrow>
    off' \<le> length d \<Longrightarrow> header_chain d k (d ! off) off' proto upper \<Longrightarrow> header_chain d (Suc k) nh off proto upper"
| first_fragment: "nh = 44 \<Longrightarrow> off + 8 \<le> length d \<Longrightarrow>
    (from_be [d ! (off + 2), d ! (off + 3)] :: u16) AND 0xfff8 = 0 \<Longrightarrow>
    header_chain d k (d ! off) (off + 8) proto upper \<Longrightarrow> header_chain d (Suc k) nh off proto upper"
| authentication: "nh = 51 \<Longrightarrow> off + 1 < length d \<Longrightarrow> off' = off + (unat (d ! (off + 1)) + 2) * 4 \<Longrightarrow>
    off' \<le> length d \<Longrightarrow> header_chain d k (d ! off) off' proto upper \<Longrightarrow> header_chain d (Suc k) nh off proto upper"

inductive_simps header_chain_0: "header_chain d 0 nh off proto upper"
inductive_simps header_chain_Suc: "header_chain d (Suc k) nh off proto upper"

lemma ex_less_Suc0: "(\<exists>k<Suc n. P k) \<longleftrightarrow> P 0 \<or> (\<exists>k<n. P (Suc k))"
  by (metis Ex_less_Suc2)

lemma get_byte_eq_Some: "get_byte d i = Some b \<longleftrightarrow> i < length d \<and> b = d ! i"
  by (auto simp: get_byte_def)

lemma checked_header_arith:
  assumes "length d < 2 ^ 63" and "off \<le> length d"
  shows "checked_mul_usize (unat (b :: u8) + 1) 8 = Some ((unat b + 1) * 8)"
    and "checked_mul_usize (unat b + 2) 4 = Some ((unat b + 2) * 4)"
    and "checked_add_usize off ((unat b + 1) * 8) = Some (off + (unat b + 1) * 8)"
    and "checked_add_usize off ((unat b + 2) * 4) = Some (off + (unat b + 2) * 4)"
    and "checked_add_usize off 8 = Some (off + 8)"
  using assms unat_u8_less[of b] by (simp_all add: checked_mul_usize_def checked_add_usize_def)

lemma upper_layer_walk_chain:
  assumes "length d < 2 ^ 63" and "off \<le> length d"
  shows "upper_layer_walk n d nh off = Some (proto, upper) \<longleftrightarrow> (\<exists>k<n. header_chain d k nh off proto upper)"
  using assms
proof (induction n arbitrary: nh off)
  case (Suc n)
  note ar = checked_header_arith[OF Suc.prems, simplified]
  consider "nh \<in> {0, 43, 60}" | "nh = 44" | "nh = 51" | "nh \<notin> {0, 43, 60, 44, 51}" by blast
  then show ?case
  proof cases
    case 1
    then show ?thesis
      by (auto simp: ex_less_Suc0 header_chain_0 header_chain_Suc Let_def Suc.IH[OF Suc.prems(1)] ar
          bind_eq_Some_conv get_byte_eq_Some)
  next
    case 2
    then show ?thesis
      by (auto simp: ex_less_Suc0 header_chain_0 header_chain_Suc Let_def Suc.IH[OF Suc.prems(1)] ar
          bind_eq_Some_conv get_byte_eq_Some)
  next
    case 3
    then show ?thesis
      by (auto simp: ex_less_Suc0 header_chain_0 header_chain_Suc Let_def Suc.IH[OF Suc.prems(1)] ar
          bind_eq_Some_conv get_byte_eq_Some)
  next
    case 4
    then show ?thesis
      using Suc.prems(2) by (auto simp: ex_less_Suc0 header_chain_0 header_chain_Suc Let_def)
  qed
qed simp

text \<open>Packets that must not be answered: ICMP errors, and packets whose upper-layer protocol
  cannot be determined.\<close>

fun unanswerable :: "bytes \<Rightarrow> multicast_packet \<Rightarrow> bool" where
  "unanswerable d m \<longleftrightarrow>
     (if is_v4 (mp_source m)
      then mp_ip_protocol m = 1 \<and> (mp_fragmented m \<or>
        ihl_of (d ! 0) < length d \<and> d ! ihl_of (d ! 0) \<in> {3, 4, 5, 11, 12})
      else (\<nexists>k proto upper. k < 16 \<and> header_chain d k (d ! 6) 40 proto upper) \<or>
        (\<exists>k upper. k < 16 \<and> header_chain d k (d ! 6) 40 58 upper \<and> (upper < length d \<longrightarrow> d ! upper < 128)))"

lemma accepted_length:
  assumes "parse_multicast_packet d = Ok m"
  shows "length d < 2 ^ 63" and "0 < length d" and "\<not> is_v4 (mp_source m) \<Longrightarrow> 40 \<le> length d"
  using assms unat_u16_less[of "from_be [d ! 2, d ! 3]"] unat_u16_less[of "from_be [d ! 4, d ! 5]"]
  by (auto simp: parse_multicast_packet_Ok parse_ipv4_Ok parse_ipv6_Ok Let_def)

lemma suppress_icmp_error_exact:
  assumes "parse_multicast_packet d = Ok m"
  shows "suppress_icmp_error d m = Ok (unanswerable d m)"
proof (cases "mp_source m")
  case (V4 s)
  then show ?thesis
    using accepted_length(2)[OF assms]
    by (auto simp: suppress_icmp_error_def pmtu_consts byte_at_def get_byte_def)
next
  case (V6 s)
  then have l: "length d < 2 ^ 63" "40 \<le> length d" using accepted_length[OF assms] by auto
  then have b: "get_byte d 6 = Some (d ! 6)" by (simp add: get_byte_def)
  let ?w = "upper_layer_walk 16 d (d ! 6) 40"
  define P where "P proto upper \<longleftrightarrow> (\<exists>k<16. header_chain d k (d ! 6) 40 proto upper)" for proto upper
  have w: "?w = Some (proto, upper) \<longleftrightarrow> P proto upper" for proto upper
    unfolding P_def by (rule upper_layer_walk_chain[OF l])
  have un: "unanswerable d m \<longleftrightarrow> (\<nexists>proto upper. P proto upper) \<or> (\<exists>upper. P 58 upper \<and> (upper < length d \<longrightarrow> d ! upper < 128))"
    unfolding P_def using V6 by auto
  have "(case ?w of None \<Rightarrow> True | Some (protocol, offset) \<Rightarrow> protocol = 58 \<and>
            (case get_byte d offset of None \<Rightarrow> True | Some kind \<Rightarrow> kind < 128)) = unanswerable d m"
    unfolding un by (cases ?w) (auto simp: w[symmetric] get_byte_def)
  then show ?thesis
    unfolding suppress_icmp_error_def PMTU_ICMPV6_PROTOCOL_def
    using V6 by (simp add: ipv6_upper_layer_def b ip_consts del: unanswerable.simps)
qed

lemma build_icmp_invalid_mtu:
  "\<not> mtu < 65536 \<Longrightarrow> build_icmpv4_fragmentation_needed l s d mtu = Err (PmtuInvalidMtu mtu)"
  "\<not> mtu < 4294967296 \<Longrightarrow> build_icmpv6_packet_too_big l' s' d mtu = Err (PmtuInvalidMtu mtu)"
  by (simp_all add: build_icmpv4_fragmentation_needed_def build_icmpv6_packet_too_big_def)

lemma no_panic_build_pmtu_feedback: "no_panic (build_pmtu_feedback local_address d mtu)"
proof -
  have "no_panic (build_icmpv4_fragmentation_needed l s d mtu)" "no_panic (build_icmpv6_packet_too_big l' s' d mtu)" for l s l' s'
    by (simp_all add: build_icmpv4_fragmentation_needed_def build_icmpv6_packet_too_big_def Let_def)
  then show ?thesis
    unfolding build_pmtu_feedback_def
    by (auto simp: no_panic_parse_multicast_packet intro!: no_panic_bnd split: ip_addr.split)
qed

section \<open>Properties of the feedback\<close>

text \<open>C30: over any sequence of requests at increasing times, the limiter with its expiry queue grants
  exactly what a sliding window over all its grants would: a flow gets at most one message per
  interval, all flows together at most the tracked number, and a request within both bounds is
  never refused.\<close>

theorem limiter_refines_window:
  assumes "sorted (map fst requests)"
  shows "limiter_run (limiter_new interval limit) requests = window_run interval limit [] requests"
proof (cases requests)
  case (Cons r rs)
  have "sorted (fst r # map fst requests)" using assms Cons by simp
  from limiter_run_window[OF limiter_inv_new this] show ?thesis by (simp add: limiter_new_def)
qed simp

theorem limiter_refines_window_witness:
  "limiter_run (limiter_new 10 1) [(0, (V4 1, V4 2)), (4, (V4 1, V4 2)), (9, (V4 3, V4 4)), (10, (V4 1, V4 2))]
   = [True, False, False, True]"
  by (subst limiter_refines_window) (simp_all add: window_allow_def recent_def)

text \<open>C31: for every datagram the parser accepts, the feedback is a well-formed ICMP message of
  the datagram's family: it fits the minimum MTU, both checksums verify, it goes from the local
  address to the datagram's source, carries the tunnel MTU and quotes the datagram.  An MTU that
  does not fit its field and a local address of the other family are errors.\<close>

theorem pmtu_feedback_wellformed:
  assumes "parse_multicast_packet d = Ok m"
  shows "case (local_address, mp_source m) of
      (V4 local, V4 source) \<Rightarrow>
        if mtu < 2 ^ 16 then \<exists>p. build_pmtu_feedback local_address d mtu = Ok p \<and> fragmentation_needed_for local source mtu d p
        else build_pmtu_feedback local_address d mtu = Err (PmtuInvalidMtu mtu)
    | (V6 local, V6 source) \<Rightarrow>
        if mtu < 2 ^ 32 then \<exists>p. build_pmtu_feedback local_address d mtu = Ok p \<and> packet_too_big_for local source mtu d p
        else build_pmtu_feedback local_address d mtu = Err (PmtuInvalidMtu mtu)
    | _ \<Rightarrow> build_pmtu_feedback local_address d mtu = Err (PmtuInvalidLocalAddress local_address)"
  by (cases local_address; cases "mp_source m")
     (simp_all add: build_pmtu_feedback_def assms build_icmp_invalid_mtu build_icmpv4_wellformed build_icmpv6_wellformed)

theorem pmtu_feedback_wellformed_witness:
  "\<exists>p. build_pmtu_feedback (V4 0xC0000202) sample_ipv4 1400 = Ok p \<and>
     fragmentation_needed_for 0xC0000202 0xC0000201 1400 sample_ipv4 p"
  using pmtu_feedback_wellformed[OF parse_sample_ipv4, of 1400 "V4 0xC0000202"] by simp

text \<open>The sender hands a message to the network only for a datagram of its own family that is
  not an ICMP error and whose flow the limiter grants, and then exactly the built message;
  otherwise the network context is untouched and the outcome names the reason.\<close>

lemma pmtu_send_answers:
  assumes "parse_multicast_packet d = Ok m"
  shows "let (r, self') = pmtu_send send_ip_datagram now self d mtu in
    if \<not> same_family (ps_local_address self) (mp_source m) then r = Ok PmtuAddressFamilyUnavailable \<and> self' = self
    else if unanswerable d m then r = Ok PmtuSuppressed \<and> self' = self
    else if \<not> fst (limiter_allow now (mp_source m) (mp_group m) (ps_limiter self))
    then r = Ok PmtuRateLimited \<and> ps_context self' = ps_context self
    else case build_pmtu_feedback (ps_local_address self) d mtu of
        Ok p \<Rightarrow> ps_context self' = snd (send_ip_datagram (ps_context self) (ps_publication self) p) \<and>
          (\<forall>n. r = Ok (PmtuSent n) \<longleftrightarrow> fst (send_ip_datagram (ps_context self) (ps_publication self) p) = Ok n)
      | Err e \<Rightarrow> r = Err e \<and> ps_context self' = ps_context self
      | Panic \<Rightarrow> False"
  by (auto simp: pmtu_send_def assms suppress_icmp_error_exact[OF assms] case_prod_unfold Let_def bnd_eq_Ok
      no_panic_build_pmtu_feedback[unfolded no_panic_iff] simp del: unanswerable.simps split: res.split)

end
