(* ===== verification/Capture.thy ===== *)
theory Capture
  imports Addr
begin

text \<open>
  The types of the packet capture library that the local membership router and the upstream
  receiver exchange with it: subscription requests and captured packets.  The capture
  context itself is a parameter of the components that use it.
\<close>

text \<open>\<open>SourceFilter\<close> and \<open>RawSubscriptionConfig\<close> of the packet library, as the program fills them in.\<close>

datatype source_filter = AnySource | OneSource ip_addr

record raw_subscription_config =
  rsc_group :: ip_addr
  rsc_source :: source_filter
  rsc_interface :: "ip_addr option"
  rsc_interface_index :: "u32 option"

record raw_packet =
  pk_source_ip :: "ip_addr option"
  pk_group :: "ip_addr option"
  pk_datagram :: bytes

text \<open>The operations of a capture context \<open>'c\<close> with subscription ids \<open>'i\<close> and errors \<open>'e\<close>.\<close>

record ('c, 'i, 'e) capture_ops =
  add_subscription :: "'c \<Rightarrow> raw_subscription_config \<Rightarrow> ('e, 'i) res \<times> 'c"
  join_subscription :: "'c \<Rightarrow> 'i \<Rightarrow> ('e, unit) res \<times> 'c"
  leave_subscription :: "'c \<Rightarrow> 'i \<Rightarrow> ('e, unit) res \<times> 'c"
  remove_subscription :: "'c \<Rightarrow> 'i \<Rightarrow> 'c"
  try_recv_any :: "'c \<Rightarrow> ('e, raw_packet option) res \<times> 'c"

text \<open>The library reports failures as errors.\<close>

definition capture_total :: "('c, 'i, 'e) capture_ops \<Rightarrow> bool" where
  "capture_total ops \<longleftrightarrow> (\<forall>c config. no_panic (fst (add_subscription ops c config))) \<and>
     (\<forall>c i. no_panic (fst (join_subscription ops c i))) \<and> (\<forall>c i. no_panic (fst (leave_subscription ops c i))) \<and>
     (\<forall>c. no_panic (fst (try_recv_any ops c)))"

end
