(* ===== verification/Local_Membership.thy ===== *)
theory Local_Membership
  imports Gateway Capture
begin

text \<open>
  The local membership router of the gateway, \<open>src/local_membership.rs\<close>: reports of hosts
  on the local network are applied to a membership state with one endpoint per reporter,
  silent reporters expire, and the aggregate is filtered to the groups that may leave the
  local network and turned into reports.  The capture context of the packet library is a
  parameter.  The lemmas show that reporters and endpoints stay in step, and that the reports
  carry the receiving side exactly to the current interests.
\<close>

section \<open>Configuration\<close>

definition IGMPV3_REPORT_GROUP :: ipv4 where "IGMPV3_REPORT_GROUP = 0xE0000016"
definition MLDV2_REPORT_GROUP :: ipv6 where "MLDV2_REPORT_GROUP = 0xFF020000000000000000000000000016"
definition MAX_IRRELEVANT_PACKET_SKIP :: nat where "MAX_IRRELEVANT_PACKET_SKIP = 16"

record local_membership_config =
  lc_protocol :: membership_protocol
  lc_interface :: "ip_addr option"
  lc_interface_index :: "u32 option"
  lc_query_interval :: "duration option"
  lc_reporter_timeout :: duration

definition local_membership_config_new :: "membership_protocol \<Rightarrow> local_membership_config" where
  "local_membership_config_new protocol =
     \<lparr>lc_protocol = protocol, lc_interface = None, lc_interface_index = None,
      lc_query_interval = Some (from_secs 30), lc_reporter_timeout = from_secs 260\<rparr>"

definition raw_config_for :: "local_membership_config \<Rightarrow> raw_subscription_config" where
  "raw_config_for config =
     \<lparr>rsc_group = (case lc_protocol config of Igmpv3 \<Rightarrow> V4 IGMPV3_REPORT_GROUP | Mldv2 \<Rightarrow> V6 MLDV2_REPORT_GROUP),
      rsc_source = AnySource,
      rsc_interface = (case (lc_protocol config, lc_interface config) of
          (Igmpv3, Some (V4 interface)) \<Rightarrow> Some (V4 interface)
        | (Mldv2, Some (V6 interface)) \<Rightarrow> Some (V6 interface)
        | _ \<Rightarrow> None),
      rsc_interface_index = (if lc_protocol config = Mldv2 then lc_interface_index config else None)\<rparr>"

section \<open>Groups and records\<close>

type_synonym interests_map = "(ip_addr, group_interest) btree_map"

fun group_matches_protocol :: "membership_protocol \<Rightarrow> ip_addr \<Rightarrow> bool" where
  "group_matches_protocol Igmpv3 (V4 _) = True"
| "group_matches_protocol Mldv2 (V6 _) = True"
| "group_matches_protocol _ _ = False"

definition is_amt_exportable_ipv4_group :: "ipv4 \<Rightarrow> bool" where
  "is_amt_exportable_ipv4_group grp \<longleftrightarrow> octets4 grp \<notin> {[239, 255, 255, 250], [239, 255, 255, 253]}"

definition is_amt_exportable_ipv6_group :: "ipv6 \<Rightarrow> bool" where
  "is_amt_exportable_ipv6_group grp \<longleftrightarrow> ipv6_is_multicast grp"

definition is_amt_exportable_group :: "ip_addr \<Rightarrow> bool" where
  "is_amt_exportable_group grp \<longleftrightarrow>
     (if \<not> is_amt_forwardable_group grp then False
      else case grp of V4 g \<Rightarrow> is_amt_exportable_ipv4_group g | V6 g \<Rightarrow> is_amt_exportable_ipv6_group g)"

definition filter_exportable_interests :: "membership_protocol \<Rightarrow> interests_map \<Rightarrow> interests_map" where
  "filter_exportable_interests protocol ints =
     fmfilter is_amt_exportable_group (fmfilter (group_matches_protocol protocol) ints)"

datatype report_record_mode = RecordState | RecordChange

definition record_for_interest :: "ip_addr \<Rightarrow> group_interest \<Rightarrow> report_record_mode \<Rightarrow> membership_record" where
  "record_for_interest grp interest mode = (case gi_mode interest of
      Include \<Rightarrow> \<lparr>mr_kind = (case mode of RecordState \<Rightarrow> ModeIsInclude | RecordChange \<Rightarrow> ChangeToInclude),
                  mr_group = grp, mr_sources = set_iter (gi_sources interest)\<rparr>
    | Exclude \<Rightarrow> \<lparr>mr_kind = (case mode of RecordState \<Rightarrow> ModeIsExclude | RecordChange \<Rightarrow> ChangeToExclude),
                  mr_group = grp, mr_sources = set_iter (gi_sources interest)\<rparr>)"

definition delta_records :: "membership_protocol \<Rightarrow> interests_map \<Rightarrow> interests_map \<Rightarrow> membership_record list" where
  "delta_records protocol previous current =
     fold (\<lambda>grp records.
         if \<not> group_matches_protocol protocol grp then records
         else if fmlookup previous grp = fmlookup current grp then records
         else records @ [case fmlookup current grp of
             Some interest \<Rightarrow> record_for_interest grp interest RecordChange
           | None \<Rightarrow> \<lparr>mr_kind = ChangeToInclude, mr_group = grp, mr_sources = []\<rparr>])
       (set_iter (fmdom previous |\<union>| fmdom current)) []"

definition parse_datagram_source :: "bytes \<Rightarrow> ip_addr option" where
  "parse_datagram_source datagram =
     Option.bind (get_byte datagram 0) (\<lambda>b0.
       if drop_bit 4 b0 = 4 \<and> 20 \<le> length datagram then Some (V4 (from_be (take 4 (drop 12 datagram))))
       else if drop_bit 4 b0 = 6 \<and> 40 \<le> length datagram then Some (V6 (from_be (take 16 (drop 8 datagram))))
       else None)"

section \<open>The manager\<close>

record ('c, 's) local_membership_manager =
  lm_config :: local_membership_config
  lm_context :: 'c
  lm_subscription_id :: 's
  lm_state :: relay_state
  lm_advertised :: interests_map
  lm_reporter_last_seen :: "(ip_addr, instant) btree_map"
  lm_limits :: relay_limits

datatype 'm local_membership_error = LmMcrx 'm | LmParse membership_parse_error | LmStateLimit state_limit_error

fun is_parse_error :: "'m local_membership_error \<Rightarrow> bool" where
  "is_parse_error (LmParse _) = True"
| "is_parse_error (LmStateLimit _) = True"
| "is_parse_error (LmMcrx _) = False"

record local_membership_event =
  le_reporter :: ip_addr
  le_records_received :: nat
  le_active_subscriptions :: "upstream_subscription list"

definition local_manager_new ::
  "('c \<Rightarrow> raw_subscription_config \<Rightarrow> ('m, 's) res \<times> 'c) \<Rightarrow> ('c \<Rightarrow> 's \<Rightarrow> ('m, unit) res \<times> 'c) \<Rightarrow> 'c
   \<Rightarrow> local_membership_config \<Rightarrow> ('m, ('c, 's) local_membership_manager) res" where
  "local_manager_new add_sub join_sub new_context config =
     (let (r, ctx) = add_sub new_context (raw_config_for config) in
      bnd r (\<lambda>subscription_id.
      let (r, ctx) = join_sub ctx subscription_id in
      bnd r (\<lambda>_.
      Ok \<lparr>lm_config = config, lm_context = ctx, lm_subscription_id = subscription_id,
          lm_state = empty_state, lm_advertised = fmempty, lm_reporter_last_seen = fmempty,
          lm_limits = default_relay_limits\<rparr>)))"

definition current_subscriptions :: "('c, 's) local_membership_manager \<Rightarrow> upstream_subscription list" where
  "current_subscriptions self = upstream_subscriptions (lm_state self)"

definition current_interests :: "('c, 's) local_membership_manager \<Rightarrow> interests_map" where
  "current_interests self = rs_aggregate (lm_state self)"

definition current_exportable_interests :: "('c, 's) local_membership_manager \<Rightarrow> interests_map" where
  "current_exportable_interests self =
     filter_exportable_interests (lc_protocol (lm_config self)) (current_interests self)"

text \<open>Applying one parsed report of a reporter, the part of the loop body that changes the state.\<close>

definition apply_local_report ::
  "instant \<Rightarrow> ip_addr \<Rightarrow> membership_report \<Rightarrow> ('c, 's) local_membership_manager
   \<Rightarrow> ('m local_membership_error, local_membership_event) res \<times> ('c, 's) local_membership_manager" where
  "apply_local_report now reporter report self =
     (let records_received = length (rp_records report);
          endpoint = socket_new reporter 0;
          (r, st) = apply_report_limited (lm_state self) endpoint report (lm_limits self);
          self = self\<lparr>lm_state := st\<rparr>
      in case r of
           Err e \<Rightarrow> (Err (LmStateLimit e), self) | Panic \<Rightarrow> (Panic, self)
         | Ok _ \<Rightarrow>
           let self = self\<lparr>lm_reporter_last_seen :=
                 (if contains_endpoint st endpoint then fmupd reporter now (lm_reporter_last_seen self)
                  else fmdrop reporter (lm_reporter_last_seen self))\<rparr>
           in (Ok \<lparr>le_reporter = reporter, le_records_received = records_received,
                   le_active_subscriptions = current_subscriptions self\<rparr>, self))"

text \<open>The receive loop, with \<open>n\<close> packets left to look at.\<close>

fun try_recv_loop ::
  "('c \<Rightarrow> ('m, bytes option) res \<times> 'c) \<Rightarrow> instant \<Rightarrow> nat \<Rightarrow> ('c, 's) local_membership_manager
   \<Rightarrow> ('m local_membership_error, local_membership_event option) res \<times> ('c, 's) local_membership_manager" where
  "try_recv_loop recv now 0 self = (Ok None, self)"
| "try_recv_loop recv now (Suc n) self =
     (let (r, ctx) = recv (lm_context self); self = self\<lparr>lm_context := ctx\<rparr> in
      case r of
        Err e \<Rightarrow> (Err (LmMcrx e), self) | Panic \<Rightarrow> (Panic, self)
      | Ok None \<Rightarrow> (Ok None, self)
      | Ok (Some packet) \<Rightarrow>
          (case parse_membership_report packet of
             Err e \<Rightarrow> (Err (LmParse e), self) | Panic \<Rightarrow> (Panic, self)
           | Ok report \<Rightarrow>
               if rp_protocol report \<noteq> lc_protocol (lm_config self) then try_recv_loop recv now n self
               else (case parse_datagram_source packet of
                   None \<Rightarrow> try_recv_loop recv now n self
                 | Some reporter \<Rightarrow>
                     let (r, self) = apply_local_report now reporter report self
                     in (bnd r (\<lambda>event. Ok (Some event)), self))))"

definition local_try_recv ::
  "('c \<Rightarrow> ('m, bytes option) res \<times> 'c) \<Rightarrow> instant \<Rightarrow> ('c, 's) local_membership_manager
   \<Rightarrow> ('m local_membership_error, local_membership_event option) res \<times> ('c, 's) local_membership_manager" where
  "local_try_recv recv now self = try_recv_loop recv now MAX_IRRELEVANT_PACKET_SKIP self"

definition pending_report :: "('c, 's) local_membership_manager \<Rightarrow> membership_report option" where
  "pending_report self =
     (let current = current_exportable_interests self;
          records = delta_records (lc_protocol (lm_config self)) (lm_advertised self) current
      in if records \<noteq> [] then Some \<lparr>rp_protocol = lc_protocol (lm_config self), rp_records = records\<rparr> else None)"

definition current_report :: "('c, 's) local_membership_manager \<Rightarrow> membership_report option" where
  "current_report self =
     (let records = map (\<lambda>(grp, interest). record_for_interest grp interest RecordState)
            (filter (\<lambda>(grp, _). group_matches_protocol (lc_protocol (lm_config self)) grp)
              (map_iter (current_exportable_interests self)))
      in if records \<noteq> [] then Some \<lparr>rp_protocol = lc_protocol (lm_config self), rp_records = records\<rparr> else None)"

definition mark_advertised :: "('c, 's) local_membership_manager \<Rightarrow> ('c, 's) local_membership_manager" where
  "mark_advertised self = self\<lparr>lm_advertised := current_exportable_interests self\<rparr>"

definition stale_reporters :: "instant \<Rightarrow> duration \<Rightarrow> (ip_addr, instant) btree_map \<Rightarrow> ip_addr list" where
  "stale_reporters now timeout last_seen =
     map fst (filter (\<lambda>(_, seen). seen \<le> now \<and> timeout \<le> now - seen) (map_iter last_seen))"

definition prune_stale_reporters_at ::
  "instant \<Rightarrow> ('c, 's) local_membership_manager \<Rightarrow> nat \<times> ('c, 's) local_membership_manager" where
  "prune_stale_reporters_at now self =
     (if lc_query_interval (lm_config self) = None then (0, self) else
      let stale = stale_reporters now (lc_reporter_timeout (lm_config self)) (lm_reporter_last_seen self) in
      (length stale, fold (\<lambda>reporter self. self\<lparr>
           lm_reporter_last_seen := fmdrop reporter (lm_reporter_last_seen self),
           lm_state := snd (remove_endpoint (lm_state self) (socket_new reporter 0))\<rparr>) stale self))"

definition query_config :: "('c, 's) local_membership_manager \<Rightarrow> general_query_config" where
  "query_config self =
     (let config = for_local_network;
          config = (case lc_query_interval (lm_config self) of
              Some interval \<Rightarrow> config\<lparr>query_interval_code := encode_query_interval interval\<rparr>
            | None \<Rightarrow> config)
      in case (lc_protocol (lm_config self), lc_interface (lm_config self)) of
           (Igmpv3, Some (V4 interface)) \<Rightarrow> config\<lparr>igmp_source := interface\<rparr>
         | (Mldv2, Some (V6 interface)) \<Rightarrow> config\<lparr>mld_source := interface\<rparr>
         | _ \<Rightarrow> config)"

definition local_query :: "('c, 's) local_membership_manager \<Rightarrow> bytes" where
  "local_query self = build_general_query (lc_protocol (lm_config self)) (query_config self)"

section \<open>The invariant\<close>

text \<open>The membership state is indexed and within its limits, its endpoints are exactly the
  reporters that are tracked, and what was advertised are exportable interests.\<close>

definition exportable_map :: "membership_protocol \<Rightarrow> interests_map \<Rightarrow> bool" where
  "exportable_map protocol m \<longleftrightarrow> (\<forall>g i. fmlookup m g = Some i \<longrightarrow>
     group_matches_protocol protocol g \<and> is_amt_exportable_group g \<and> (gi_mode i = Include \<longrightarrow> gi_sources i \<noteq> {||}))"

definition reporters_tracked :: "relay_state \<Rightarrow> (ip_addr, instant) btree_map \<Rightarrow> bool" where
  "reporters_tracked st last_seen \<longleftrightarrow>
     (\<forall>e. contains_endpoint st e \<longleftrightarrow> (\<exists>reporter. e = socket_new reporter 0 \<and> fmlookup last_seen reporter \<noteq> None))"

definition local_inv :: "('c, 's) local_membership_manager \<Rightarrow> bool" where
  "local_inv self \<longleftrightarrow> state_inv (lm_state self) \<and> limits_inv (lm_limits self) (lm_state self) \<and>
     reporters_tracked (lm_state self) (lm_reporter_last_seen self) \<and>
     exportable_map (lc_protocol (lm_config self)) (lm_advertised self)"

text \<open>The states of a manager: started, receiving, advertising and pruning in any order, whatever
  the capture context delivers.\<close>

inductive local_reachable ::
  "('c \<Rightarrow> ('m, bytes option) res \<times> 'c) \<Rightarrow> ('c, 's) local_membership_manager \<Rightarrow> bool" for recv where
  started: "local_manager_new add (join :: 'c \<Rightarrow> 's \<Rightarrow> ('m, unit) res \<times> 'c) c config = Ok m \<Longrightarrow> local_reachable recv m"
| received: "local_reachable recv m \<Longrightarrow> local_reachable recv (snd (local_try_recv recv now m))"
| advertised: "local_reachable recv m \<Longrightarrow> local_reachable recv (mark_advertised m)"
| pruned: "local_reachable recv m \<Longrightarrow> local_reachable recv (snd (prune_stale_reporters_at now m))"

lemma socket_new_inj [simp]: "socket_new a p = socket_new b p \<longleftrightarrow> a = b"
  by (metis socket_new_sel(1))

lemma aggregate_include_nonempty:
  assumes "state_inv st" and "fmlookup (rs_aggregate st) g = Some i" and "gi_mode i = Include"
  shows "gi_sources i \<noteq> {||}"
proof -
  obtain f n groups where ix: "index_all (interests (rs_endpoints st)) = (f, n, groups)" by (rule prod_cases3)
  have "rs_aggregate (rebuild_indexes st) = build_aggregate groups" by (simp add: rebuild_indexes_eq ix)
  then have "rs_aggregate st = build_aggregate groups" using assms(1) by (simp add: state_inv_def)
  then show ?thesis
    using assms(2,3) by (auto simp: build_aggregate_lookup into_interest_def split: option.splits if_splits)
qed

lemma exportable_current:
  assumes "state_inv (lm_state self)"
  shows "exportable_map (lc_protocol (lm_config self)) (current_exportable_interests self)"
  using aggregate_include_nonempty[OF assms]
  by (auto simp: exportable_map_def current_exportable_interests_def current_interests_def
      filter_exportable_interests_def split: if_splits)

lemma local_inv_apply_report:
  assumes "local_inv self"
  shows "local_inv (snd (apply_local_report now reporter report self))"
proof -
  have inv: "state_inv (lm_state self)" "limits_inv (lm_limits self) (lm_state self)"
    "reporters_tracked (lm_state self) (lm_reporter_last_seen self)" using assms by (simp_all add: local_inv_def)
  obtain r st where a: "apply_report_limited (lm_state self) (socket_new reporter 0) report (lm_limits self) = (r, st)"
    by fastforce
  have st: "state_inv st" "limits_inv (lm_limits self) st"
    using state_inv_apply_report_limited[OF inv(1)] limits_inv_apply_report_limited[OF inv(1,2)] a by (metis snd_conv)+
  have other: "contains_endpoint st e = contains_endpoint (lm_state self) e" if "e \<noteq> socket_new reporter 0" for e
    using apply_report_limited_other[OF inv(1) that, of report "lm_limits self"] by (simp add: a contains_endpoint_def)
  have "reporters_tracked st (if contains_endpoint st (socket_new reporter 0)
      then fmupd reporter now (lm_reporter_last_seen self) else fmdrop reporter (lm_reporter_last_seen self))"
    using inv(3) other unfolding reporters_tracked_def by (auto split: if_splits) (metis other)+
  moreover have "st = lm_state self" if "r = Err e" for e
    using inv(1) by (cases rule: apply_report_limited_cases[of _ "socket_new reporter 0" report "lm_limits self"])
      (use a that in auto)
  moreover have "r \<noteq> Panic"
    using inv(1) by (cases rule: apply_report_limited_cases[of _ "socket_new reporter 0" report "lm_limits self"])
      (use a in auto)
  ultimately show ?thesis
    using st assms
    by (cases r; cases "contains_endpoint st (socket_new reporter 0)")
       (simp_all add: apply_local_report_def a Let_def local_inv_def)
qed

lemma local_inv_context [simp]: "local_inv (self\<lparr>lm_context := ctx\<rparr>) = local_inv self"
  by (simp add: local_inv_def)

lemma local_inv_try_recv_loop: "local_inv self \<Longrightarrow> local_inv (snd (try_recv_loop recv now n self))"
proof (induction n arbitrary: self)
  case (Suc n)
  obtain r ctx where r: "recv (lm_context self) = (r, ctx)" by fastforce
  have inv: "local_inv (self\<lparr>lm_context := ctx\<rparr>)" using Suc.prems by simp
  show ?case
    using local_inv_apply_report[OF inv] Suc.IH[OF inv] Suc.prems
    by (auto simp: r case_prod_unfold Let_def split: res.split option.split)
qed simp

lemma local_inv_remove:
  assumes "local_inv self"
  shows "local_inv (self\<lparr>lm_reporter_last_seen := fmdrop reporter (lm_reporter_last_seen self),
    lm_state := snd (remove_endpoint (lm_state self) (socket_new reporter 0))\<rparr>)"
proof -
  have "reporters_tracked (snd (remove_endpoint (lm_state self) (socket_new reporter 0)))
      (fmdrop reporter (lm_reporter_last_seen self))"
    using assms by (auto simp: local_inv_def reporters_tracked_def contains_endpoint_def remove_endpoint_view)
  then show ?thesis
    using assms state_inv_remove_endpoint limits_inv_remove_endpoint by (auto simp: local_inv_def)
qed

lemma prune_fold:
  assumes "local_inv self"
  defines "prune \<equiv> fold (\<lambda>reporter self. self\<lparr>lm_reporter_last_seen := fmdrop reporter (lm_reporter_last_seen self),
           lm_state := snd (remove_endpoint (lm_state self) (socket_new reporter 0))\<rparr>)"
  shows "local_inv (prune stale self)"
    and "fmlookup (lm_reporter_last_seen (prune stale self)) reporter =
      (if reporter \<in> set stale then None else fmlookup (lm_reporter_last_seen self) reporter)"
    and "lm_config (prune stale self) = lm_config self"
  using assms(1) unfolding prune_def
proof (induction stale arbitrary: self)
  case (Cons x xs)
  { case 1 show ?case using Cons.IH(1)[OF local_inv_remove[OF 1, of x]] by simp }
  { case 2 show ?case using Cons.IH(2)[OF local_inv_remove[OF 2, of x]] by simp }
  { case 3 show ?case using Cons.IH(3)[OF local_inv_remove[OF 3, of x]] by simp }
qed simp_all

lemma set_stale_reporters:
  "reporter \<in> set (stale_reporters now timeout last_seen) \<longleftrightarrow>
     (\<exists>seen. fmlookup last_seen reporter = Some seen \<and> seen \<le> now \<and> timeout \<le> now - seen)"
  by (force simp: stale_reporters_def map_iter_get)

lemma local_reachable_inv: "local_reachable recv m \<Longrightarrow> local_inv m"
proof (induction rule: local_reachable.induct)
  case (started add join c config m)
  then show ?case
    by (auto simp: local_manager_new_def case_prod_unfold Let_def bnd_eq_Ok local_inv_def limits_inv_empty
        reporters_tracked_def contains_endpoint_def empty_state_def[THEN arg_cong[of _ _ rs_endpoints]] exportable_map_def)
next
  case (received m now)
  then show ?case by (simp add: local_try_recv_def local_inv_try_recv_loop)
next
  case (advertised m)
  then show ?case
    using exportable_current[of m] by (simp add: mark_advertised_def local_inv_def)
next
  case (pruned m now)
  then show ?case using prune_fold(1)[OF pruned.IH] by (simp add: prune_stale_reporters_at_def Let_def)
qed

section \<open>Reports carry the interests\<close>

lemma fset_of_set_iter [simp]: "fset_of_list (set_iter S) = S"
  by (rule fset_eqI) (simp add: fset_of_list_elem)

lemma set_iter_Nil [simp]: "set_iter S = [] \<longleftrightarrow> S = {||}"
  by (metis fset_of_set_iter fset_of_list_simps(1) iter_empty(1))

lemma apply_interest_record:
  assumes "gi_mode i = Include \<Longrightarrow> gi_sources i \<noteq> {||}"
  shows "apply_groups (record_for_interest g i mode) groups = fmupd g i groups"
  using assms
  by (cases i; cases "gi_mode i"; cases mode)
     (simp_all add: record_for_interest_def apply_groups_def Let_def gi_include_def gi_exclude_def)

definition group_delta :: "interests_map \<Rightarrow> interests_map \<Rightarrow> ip_addr \<Rightarrow> membership_record list" where
  "group_delta previous current grp =
     (if fmlookup previous grp = fmlookup current grp then []
      else [case fmlookup current grp of
             Some interest \<Rightarrow> record_for_interest grp interest RecordChange
           | None \<Rightarrow> \<lparr>mr_kind = ChangeToInclude, mr_group = grp, mr_sources = []\<rparr>])"

lemma delta_records_concat:
  "delta_records protocol previous current = concat (map (group_delta previous current)
     (filter (group_matches_protocol protocol) (set_iter (fmdom previous |\<union>| fmdom current))))"
proof -
  have "fold (\<lambda>grp records. if \<not> group_matches_protocol protocol grp then records
         else if fmlookup previous grp = fmlookup current grp then records
         else records @ [case fmlookup current grp of
             Some interest \<Rightarrow> record_for_interest grp interest RecordChange
           | None \<Rightarrow> \<lparr>mr_kind = ChangeToInclude, mr_group = grp, mr_sources = []\<rparr>]) gs acc
      = acc @ concat (map (group_delta previous current) (filter (group_matches_protocol protocol) gs))" for gs acc
    by (induction gs arbitrary: acc) (simp_all add: group_delta_def)
  then show ?thesis by (simp add: delta_records_def)
qed

lemma fold_group_deltas:
  assumes "\<And>g i. fmlookup current g = Some i \<Longrightarrow> gi_mode i = Include \<Longrightarrow> gi_sources i \<noteq> {||}"
  shows "fmlookup (fold apply_groups (concat (map (group_delta previous current) gs)) m) g =
    (if g \<in> set gs \<and> fmlookup previous g \<noteq> fmlookup current g then fmlookup current g else fmlookup m g)"
proof (induction gs arbitrary: m)
  case (Cons x gs)
  have "fmlookup (fold apply_groups (group_delta previous current x) m) g =
    (if g = x \<and> fmlookup previous g \<noteq> fmlookup current g then fmlookup current g else fmlookup m g)"
    using assms[of x]
    by (cases "fmlookup current x")
       (auto simp: group_delta_def apply_interest_record, simp_all add: apply_groups_def)
  with Cons.IH[of "fold apply_groups (group_delta previous current x) m"] show ?case by auto
qed simp

lemma delta_records_apply:
  assumes "exportable_map protocol previous" and "exportable_map protocol current"
  shows "fold apply_groups (delta_records protocol previous current) previous = current"
proof (rule fmap_ext)
  fix g
  have "fmlookup previous g = None" "fmlookup current g = None" if "\<not> group_matches_protocol protocol g"
    using assms that by (auto simp: exportable_map_def) (meson not_None_eq)+
  moreover have "gi_sources i \<noteq> {||}" if "fmlookup current g = Some i" "gi_mode i = Include" for g i
    using assms(2) that by (auto simp: exportable_map_def)
  ultimately show "fmlookup (fold apply_groups (delta_records protocol previous current) previous) g = fmlookup current g"
    by (auto simp: delta_records_concat fold_group_deltas fmlookup_dom_iff)
qed

lemma fold_state_records:
  assumes "\<And>g i. (g, i) \<in> set xs \<Longrightarrow> gi_mode i = Include \<Longrightarrow> gi_sources i \<noteq> {||}" and "distinct (map fst xs)"
  shows "fmlookup (fold apply_groups (map (\<lambda>(g, i). record_for_interest g i RecordState) xs) m) g =
    (case map_of xs g of Some i \<Rightarrow> Some i | None \<Rightarrow> fmlookup m g)"
  using assms
proof (induction xs arbitrary: m)
  case (Cons x xs)
  obtain h i where x: "x = (h, i)" by (rule prod.exhaust)
  have "apply_groups (record_for_interest h i RecordState) m = fmupd h i m"
    by (rule apply_interest_record) (use Cons.prems(1)[of h i] x in simp)
  moreover have "fmlookup (fold apply_groups (map (\<lambda>(g, i). record_for_interest g i RecordState) xs) (fmupd h i m)) g =
      (case map_of xs g of Some i \<Rightarrow> Some i | None \<Rightarrow> fmlookup (fmupd h i m) g)"
    by (rule Cons.IH) (use Cons.prems x in auto)
  moreover have "map_of xs h = None" using Cons.prems(2) x by (simp add: map_of_eq_None_iff)
  ultimately show ?case by (auto simp: x split: option.split)
qed simp

definition records_of :: "membership_report option \<Rightarrow> membership_record list" where
  "records_of r = (case r of None \<Rightarrow> [] | Some report \<Rightarrow> rp_records report)"

lemma records_of_reports:
  "records_of (pending_report self) =
     delta_records (lc_protocol (lm_config self)) (lm_advertised self) (current_exportable_interests self)"
  "records_of (current_report self) = map (\<lambda>(grp, interest). record_for_interest grp interest RecordState)
     (map_iter (current_exportable_interests self))"
proof -
  have "filter (\<lambda>(grp, _). group_matches_protocol (lc_protocol (lm_config self)) grp)
     (map_iter (current_exportable_interests self)) = map_iter (current_exportable_interests self)"
    by (auto simp: filter_id_conv map_iter_get current_exportable_interests_def filter_exportable_interests_def split: if_splits)
  then show "records_of (current_report self) = map (\<lambda>(grp, interest). record_for_interest grp interest RecordState)
     (map_iter (current_exportable_interests self))"
    by (simp add: records_of_def current_report_def Let_def)
qed (simp add: records_of_def pending_report_def Let_def)

lemma current_report_apply:
  assumes "local_inv self"
  shows "fold apply_groups (records_of (current_report self)) fmempty = current_exportable_interests self"
proof (rule fmap_ext)
  fix g
  let ?m = "current_exportable_interests self"
  have ex: "exportable_map (lc_protocol (lm_config self)) ?m"
    by (rule exportable_current) (use assms in \<open>simp add: local_inv_def\<close>)
  have "map_of (map_iter ?m) g = fmlookup ?m g"
    by (metis btree.iter_distinct map_iter_get map_of_eq_Some_iff not_None_eq)
  moreover have "gi_sources i \<noteq> {||}" if "(g, i) \<in> set (map_iter ?m)" "gi_mode i = Include" for g i
    using ex that by (auto simp: exportable_map_def map_iter_get)
  ultimately show "fmlookup (fold apply_groups (records_of (current_report self)) fmempty) g = fmlookup ?m g"
    by (simp add: records_of_reports fold_state_records[OF _ btree.iter_distinct] split: option.split)
qed

lemma exported_wanted:
  assumes "local_inv self"
  shows "wants (current_exportable_interests self) grp source \<longleftrightarrow>
    group_matches_protocol (lc_protocol (lm_config self)) grp \<and> is_amt_exportable_group grp \<and>
    (\<exists>reporter. fmlookup (lm_reporter_last_seen self) reporter \<noteq> None \<and> wanted (lm_state self) (socket_new reporter 0) grp source)"
proof -
  have st: "rebuild_indexes (lm_state self) = lm_state self" and tr: "reporters_tracked (lm_state self) (lm_reporter_last_seen self)"
    using assms by (simp_all add: local_inv_def state_inv_def)
  have "(\<exists>e. wanted (lm_state self) e grp source) \<longleftrightarrow> (\<exists>reporter. fmlookup (lm_reporter_last_seen self) reporter \<noteq> None \<and>
      wanted (lm_state self) (socket_new reporter 0) grp source)" (is "?l \<longleftrightarrow> ?r")
  proof
    assume ?l
    then obtain e where e: "wanted (lm_state self) e grp source" ..
    then have "contains_endpoint (lm_state self) e"
      by (auto simp: wanted_def endpoint_interest_def contains_endpoint_def split: option.splits)
    with tr e show ?r by (auto simp: reporters_tracked_def)
  qed blast
  then show ?thesis
    unfolding indexes_correct(3)[OF st, where g = grp and s = source, symmetric]
    by (simp add: wants_def current_exportable_interests_def current_interests_def filter_exportable_interests_def)
qed

section \<open>Properties of the local membership router\<close>

text \<open>C29: the reports are exact.  Applied to what was last advertised, the pending report gives the
  current exportable interests, and so does the full report applied to nothing; after marking
  them advertised nothing is pending.  What is exported is wanted by a tracked reporter, in a
  group of the protocol that may leave the local network, and nothing wanted is left out.\<close>

theorem local_reports_exact:
  assumes "local_reachable recv m"
  shows "fold apply_groups (records_of (pending_report m)) (lm_advertised m) = current_exportable_interests m \<and>
    fold apply_groups (records_of (current_report m)) fmempty = current_exportable_interests m \<and>
    pending_report (mark_advertised m) = None \<and>
    (wants (current_exportable_interests m) grp source \<longleftrightarrow>
      group_matches_protocol (lc_protocol (lm_config m)) grp \<and> is_amt_exportable_group grp \<and>
      (\<exists>reporter. fmlookup (lm_reporter_last_seen m) reporter \<noteq> None \<and> wanted (lm_state m) (socket_new reporter 0) grp source))"
proof -
  have inv: "local_inv m" by (rule local_reachable_inv[OF assms])
  have "exportable_map (lc_protocol (lm_config m)) (current_exportable_interests m)"
    by (rule exportable_current) (use inv in \<open>simp add: local_inv_def\<close>)
  moreover have "exportable_map (lc_protocol (lm_config m)) (lm_advertised m)" using inv by (simp add: local_inv_def)
  moreover have "delta_records p i i = []" for p i by (simp add: delta_records_concat group_delta_def)
  moreover have "current_exportable_interests (mark_advertised m) = current_exportable_interests m"
    by (simp add: current_exportable_interests_def current_interests_def mark_advertised_def)
  ultimately have "pending_report (mark_advertised m) = None"
    "fold apply_groups (records_of (pending_report m)) (lm_advertised m) = current_exportable_interests m"
    by (simp add: pending_report_def mark_advertised_def Let_def)
       (simp only: records_of_reports delta_records_apply \<open>exportable_map _ (lm_advertised m)\<close> \<open>exportable_map _ (current_exportable_interests m)\<close>)
  with current_report_apply[OF inv] exported_wanted[OF inv, of grp source] show ?thesis by blast
qed

text \<open>A capture context that delivers the datagrams of a list.\<close>

definition list_context :: "bytes list \<Rightarrow> (string, bytes option) res \<times> bytes list" where
  "list_context c = (case c of [] \<Rightarrow> (Ok None, []) | d # ds \<Rightarrow> (Ok (Some d), ds))"

definition sample_manager :: "bytes list \<Rightarrow> (bytes list, nat) local_membership_manager" where
  "sample_manager c = \<lparr>lm_config = local_membership_config_new Igmpv3, lm_context = c, lm_subscription_id = 1,
     lm_state = empty_state, lm_advertised = fmempty, lm_reporter_last_seen = fmempty, lm_limits = default_relay_limits\<rparr>"

lemma sample_manager_reachable: "local_reachable list_context (sample_manager c)"
proof (rule local_reachable.started)
  show "local_manager_new (\<lambda>c _. (Ok 1 :: (string, nat) res, c)) (\<lambda>c _. (Ok (), c)) c (local_membership_config_new Igmpv3)
      = Ok (sample_manager c)"
    by (simp add: local_manager_new_def sample_manager_def)
qed

theorem local_reports_exact_witness:
  "pending_report (mark_advertised (snd (local_try_recv list_context 5 (sample_manager [[0x45]])))) = None"
  using local_reports_exact[OF local_reachable.received[OF sample_manager_reachable]] by blast

text \<open>Reporters and membership state stay in step.  In every reachable manager the membership
  limits hold and the endpoints of the state are exactly the tracked reporters; pruning, where
  hosts are queried, leaves exactly the reporters heard of within the timeout, and drops the
  memberships of all others.\<close>

lemma local_reporters_pruned:
  assumes "local_reachable recv m" and "lc_query_interval (lm_config m) \<noteq> None"
  shows "let m' = snd (prune_stale_reporters_at now m) in
    limits_inv (lm_limits m') (lm_state m') \<and>
    (contains_endpoint (lm_state m') e \<longleftrightarrow> (\<exists>reporter seen. e = socket_new reporter 0 \<and>
       fmlookup (lm_reporter_last_seen m) reporter = Some seen \<and> now < seen + lc_reporter_timeout (lm_config m)))"
proof -
  have inv: "local_inv m" by (rule local_reachable_inv[OF assms(1)])
  define stale where "stale = stale_reporters now (lc_reporter_timeout (lm_config m)) (lm_reporter_last_seen m)"
  define m' where "m' = snd (prune_stale_reporters_at now m)"
  have m': "m' = fold (\<lambda>reporter self. self\<lparr>
           lm_reporter_last_seen := fmdrop reporter (lm_reporter_last_seen self),
           lm_state := snd (remove_endpoint (lm_state self) (socket_new reporter 0))\<rparr>) stale m"
    using assms(2) by (auto simp: m'_def prune_stale_reporters_at_def stale_def Let_def)
  have "fmlookup (lm_reporter_last_seen m') reporter = Some seen \<longleftrightarrow>
      fmlookup (lm_reporter_last_seen m) reporter = Some seen \<and> now < seen + lc_reporter_timeout (lm_config m)" for reporter seen
    unfolding m' prune_fold(2)[OF inv] by (auto simp: stale_def set_stale_reporters)
  moreover have "local_inv m'" unfolding m' by (rule prune_fold(1)[OF inv])
  ultimately show ?thesis
    unfolding m'_def[symmetric] Let_def by (auto simp: local_inv_def reporters_tracked_def)
qed

end
