(* ===== verification/Upstream.thy ===== *)
theory Upstream
  imports Capture Relay_State Protocol
begin

text \<open>
  The upstream receiver of the relay, \<open>src/upstream.rs\<close>: reconciling the active capture
  subscriptions with the wanted ones, with rollback on failure, and turning captured packets into
  tunnel data.  The capture context is a parameter.  The lemmas show what reconciliation leaves
  active on success and on failure, that the context holds exactly the active subscriptions, and
  that the normalised datagrams are those the gateway accepts.
\<close>

section \<open>Configuration and state\<close>

definition MAX_INVALID_PACKET_SKIP :: nat where "MAX_INVALID_PACKET_SKIP = 16"
definition DEFAULT_SHARED_SUBSCRIPTION_LIMIT :: nat where "DEFAULT_SHARED_SUBSCRIPTION_LIMIT = 4096"

record upstream_config =
  uc_interface :: "ip_addr option"
  uc_interface_index :: "u32 option"

record upstream_reconcile =
  ur_added :: nat
  ur_removed :: nat
  ur_failed_removals :: nat
  ur_active :: nat

definition reconcile_changed :: "upstream_reconcile \<Rightarrow> bool" where
  "reconcile_changed r \<longleftrightarrow> ur_added r \<noteq> 0 \<or> ur_removed r \<noteq> 0"

record ('c, 'i) upstream_manager =
  um_config :: upstream_config
  um_context :: 'c
  um_active :: "(upstream_subscription, 'i) btree_map"

definition with_subscription_limit ::
  "(nat \<Rightarrow> ('e, 'c) res) \<Rightarrow> upstream_config \<Rightarrow> nat \<Rightarrow> ('e, ('c, 'i) upstream_manager) res" where
  "with_subscription_limit new_context config max_subscriptions =
     bnd (new_context max_subscriptions) (\<lambda>ctx.
     Ok \<lparr>um_config = config, um_context = ctx, um_active = fmempty\<rparr>)"

fun matching_family :: "ip_addr option \<Rightarrow> ip_addr \<Rightarrow> ip_addr option" where
  "matching_family (Some (V4 addr)) (V4 _) = Some (V4 addr)"
| "matching_family (Some (V6 addr)) (V6 _) = Some (V6 addr)"
| "matching_family _ _ = None"

definition upstream_raw_config_for :: "upstream_config \<Rightarrow> upstream_subscription \<Rightarrow> raw_subscription_config" where
  "upstream_raw_config_for config subscription =
     \<lparr>rsc_group = us_group subscription,
      rsc_source = (case us_source subscription of Some s \<Rightarrow> OneSource s | None \<Rightarrow> AnySource),
      rsc_interface = matching_family (uc_interface config) (us_group subscription),
      rsc_interface_index = (if is_v4 (us_group subscription) then None else uc_interface_index config)\<rparr>"

section \<open>Reconciliation\<close>

definition rollback_addition ::
  "('c, 'i, 'e) capture_ops \<Rightarrow> upstream_subscription \<Rightarrow> ('c, 'i) upstream_manager \<Rightarrow> ('c, 'i) upstream_manager" where
  "rollback_addition ops subscription self =
     (case fmlookup (um_active self) subscription of
        None \<Rightarrow> self
      | Some i \<Rightarrow>
          let ctx = snd (leave_subscription ops (um_context self) i) in
          self\<lparr>um_active := fmdrop subscription (um_active self), um_context := remove_subscription ops ctx i\<rparr>)"

definition rollback_additions ::
  "('c, 'i, 'e) capture_ops \<Rightarrow> upstream_subscription list \<Rightarrow> ('c, 'i) upstream_manager \<Rightarrow> ('c, 'i) upstream_manager" where
  "rollback_additions ops subscriptions self = fold (rollback_addition ops) (rev subscriptions) self"

text \<open>The loop over the desired subscriptions; \<open>new\<close> are those added so far.\<close>

fun add_desired ::
  "('c, 'i, 'e) capture_ops \<Rightarrow> upstream_subscription list \<Rightarrow> upstream_subscription list \<Rightarrow> ('c, 'i) upstream_manager
   \<Rightarrow> ('e, upstream_subscription list) res \<times> ('c, 'i) upstream_manager" where
  "add_desired ops [] new self = (Ok new, self)"
| "add_desired ops (subscription # subscriptions) new self =
     (if fmlookup (um_active self) subscription \<noteq> None then add_desired ops subscriptions new self else
      let (r, ctx) = add_subscription ops (um_context self) (upstream_raw_config_for (um_config self) subscription);
          self = self\<lparr>um_context := ctx\<rparr>
      in case r of
           Err e \<Rightarrow> (Err e, rollback_additions ops new self) | Panic \<Rightarrow> (Panic, self)
         | Ok i \<Rightarrow>
             let (r, ctx) = join_subscription ops (um_context self) i; self = self\<lparr>um_context := ctx\<rparr> in
             (case r of
                Err e \<Rightarrow> (Err e, rollback_additions ops new
                            (self\<lparr>um_context := remove_subscription ops (um_context self) i\<rparr>))
              | Panic \<Rightarrow> (Panic, self)
              | Ok _ \<Rightarrow> add_desired ops subscriptions (new @ [subscription])
                          (self\<lparr>um_active := fmupd subscription i (um_active self)\<rparr>)))"

text \<open>The loop over the stale subscriptions, counting removals and failed removals.\<close>

fun remove_stale ::
  "('c, 'i, 'e) capture_ops \<Rightarrow> upstream_subscription list \<Rightarrow> nat \<times> nat \<Rightarrow> ('c, 'i) upstream_manager
   \<Rightarrow> ('e, nat \<times> nat) res \<times> ('c, 'i) upstream_manager" where
  "remove_stale ops [] counts self = (Ok counts, self)"
| "remove_stale ops (subscription # subscriptions) (removed, failed) self =
     (case fmlookup (um_active self) subscription of
        None \<Rightarrow> (Panic, self)
      | Some i \<Rightarrow>
          let (r, ctx) = leave_subscription ops (um_context self) i; self = self\<lparr>um_context := ctx\<rparr> in
          (case r of
             Err _ \<Rightarrow> remove_stale ops subscriptions (removed, failed + 1) self
           | Panic \<Rightarrow> (Panic, self)
           | Ok _ \<Rightarrow> remove_stale ops subscriptions (removed + 1, failed)
               (self\<lparr>um_context := remove_subscription ops (um_context self) i,
                     um_active := fmdrop subscription (um_active self)\<rparr>)))"

definition reconcile ::
  "('c, 'i, 'e) capture_ops \<Rightarrow> upstream_subscription list \<Rightarrow> ('c, 'i) upstream_manager
   \<Rightarrow> ('e, upstream_reconcile) res \<times> ('c, 'i) upstream_manager" where
  "reconcile ops subscriptions self =
     (let desired = fset_of_list subscriptions;
          stale = filter (\<lambda>subscription. subscription |\<notin>| desired) (set_iter (fmdom (um_active self)))
      in case add_desired ops (set_iter desired) [] self of
           (Err e, self) \<Rightarrow> (Err e, self) | (Panic, self) \<Rightarrow> (Panic, self)
         | (Ok new, self) \<Rightarrow>
             (case remove_stale ops stale (0, 0) self of
                (Err e, self) \<Rightarrow> (Err e, self) | (Panic, self) \<Rightarrow> (Panic, self)
              | (Ok (removed, failed), self) \<Rightarrow>
                  (Ok \<lparr>ur_added = length new, ur_removed = removed, ur_failed_removals = failed,
                       ur_active = fcard (fmdom (um_active self))\<rparr>, self)))"

section \<open>Captured packets\<close>

definition valid_multicast_addresses :: "ip_addr \<Rightarrow> ip_addr \<Rightarrow> bool" where
  "valid_multicast_addresses source grp \<longleftrightarrow> is_usable_unicast source \<and> is_multicast grp"

definition parse_ipv4_datagram_addresses :: "bytes \<Rightarrow> ('e, (ip_addr \<times> ip_addr) option) res" where
  "parse_ipv4_datagram_addresses d =
     (if length d < 20 then Ok None else
      bnd (byte_at d 0) (\<lambda>b0. let ihl = ihl_of b0 in
      if ihl < 20 \<or> length d < ihl then Ok None else
      bnd (be16_at d 2) (\<lambda>l16. let total_len = unat l16 in
      if total_len < ihl \<or> length d < total_len then Ok None else
      bnd (slice d 12 16) (\<lambda>s. bnd (slice d 16 20) (\<lambda>g. Ok (Some (V4 (from_be s), V4 (from_be g))))))))"

definition parse_ipv6_datagram_addresses :: "bytes \<Rightarrow> ('e, (ip_addr \<times> ip_addr) option) res" where
  "parse_ipv6_datagram_addresses d =
     (if length d < 40 then Ok None else
      bnd (be16_at d 4) (\<lambda>l16. let payload_len = unat l16 in
      if length d < 40 + payload_len then Ok None else
      bnd (slice d 8 24) (\<lambda>s. bnd (slice d 24 40) (\<lambda>g. Ok (Some (V6 (from_be s), V6 (from_be g)))))))"

definition parse_datagram_addresses :: "bytes \<Rightarrow> ('e, (ip_addr \<times> ip_addr) option) res" where
  "parse_datagram_addresses d = (case get_byte d 0 of None \<Rightarrow> Ok None | Some b0 \<Rightarrow>
     if drop_bit 4 b0 = 4 then parse_ipv4_datagram_addresses d
     else if drop_bit 4 b0 = 6 then parse_ipv6_datagram_addresses d else Ok None)"

definition packet_addresses :: "raw_packet \<Rightarrow> ('e, (ip_addr \<times> ip_addr) option) res" where
  "packet_addresses packet =
     bnd (case (pk_source_ip packet, pk_group packet) of
            (Some source, Some grp) \<Rightarrow> Ok (Some (source, grp))
          | _ \<Rightarrow> parse_datagram_addresses (pk_datagram packet)) (\<lambda>addresses.
     Ok (case addresses of None \<Rightarrow> None
         | Some (source, grp) \<Rightarrow> if valid_multicast_addresses source grp then Some (source, grp) else None))"

record upstream_datagram =
  ud_source :: ip_addr
  ud_group :: ip_addr
  ud_packet :: raw_packet

fun upstream_recv_loop ::
  "('c, 'i, 'e) capture_ops \<Rightarrow> nat \<Rightarrow> ('c, 'i) upstream_manager
   \<Rightarrow> ('e, upstream_datagram option) res \<times> ('c, 'i) upstream_manager" where
  "upstream_recv_loop ops 0 self = (Ok None, self)"
| "upstream_recv_loop ops (Suc n) self =
     (let (r, ctx) = try_recv_any ops (um_context self); self = self\<lparr>um_context := ctx\<rparr> in
      case r of
        Err e \<Rightarrow> (Err e, self) | Panic \<Rightarrow> (Panic, self)
      | Ok None \<Rightarrow> (Ok None, self)
      | Ok (Some packet) \<Rightarrow>
          (case packet_addresses packet of
             Ok (Some (source, grp)) \<Rightarrow> (Ok (Some \<lparr>ud_source = source, ud_group = grp, ud_packet = packet\<rparr>), self)
           | Ok None \<Rightarrow> upstream_recv_loop ops n self
           | Err e \<Rightarrow> (Err e, self) | Panic \<Rightarrow> (Panic, self)))"

definition upstream_try_recv ::
  "('c, 'i, 'e) capture_ops \<Rightarrow> ('c, 'i) upstream_manager
   \<Rightarrow> ('e, upstream_datagram option) res \<times> ('c, 'i) upstream_manager" where
  "upstream_try_recv ops self = upstream_recv_loop ops MAX_INVALID_PACKET_SKIP self"

section \<open>Normalisation\<close>

definition udp_checksum_parts :: "bytes list \<Rightarrow> u16" where
  "udp_checksum_parts parts = (let c = checksum_parts parts in if c = 0 then 0xffff else c)"

definition repair_udp_checksum_v4 :: "bytes \<Rightarrow> nat \<Rightarrow> ('e, bytes) res" where
  "repair_udp_checksum_v4 d udp_offset =
     (if length d < udp_offset + 8 then Ok d else
      bnd (be16_at d (udp_offset + 4)) (\<lambda>l16. let udp_len = unat l16 in
      if udp_len < 8 \<or> length d < udp_offset + udp_len then Ok d else
      bnd (copy_from_slice d (udp_offset + 6) (udp_offset + 8) [0, 0]) (\<lambda>d.
      bnd (slice d 12 16) (\<lambda>source.
      bnd (slice d 16 20) (\<lambda>destination.
      bnd (slice d udp_offset (udp_offset + udp_len)) (\<lambda>udp.
      copy_from_slice d (udp_offset + 6) (udp_offset + 8) (be_bytes 2 (udp_checksum_parts
        [source, destination, [0, 17], be_bytes 2 (of_nat udp_len :: u16), udp]))))))))"

definition repair_udp_checksum_v6 :: "bytes \<Rightarrow> nat \<Rightarrow> ('e, bytes) res" where
  "repair_udp_checksum_v6 d udp_offset =
     (if length d < udp_offset + 8 then Ok d else
      bnd (be16_at d (udp_offset + 4)) (\<lambda>l16. let udp_len = unat l16 in
      if udp_len < 8 \<or> length d < udp_offset + udp_len then Ok d else
      bnd (copy_from_slice d (udp_offset + 6) (udp_offset + 8) [0, 0]) (\<lambda>d.
      bnd (slice d 8 24) (\<lambda>source.
      bnd (slice d 24 40) (\<lambda>destination.
      bnd (slice d udp_offset (udp_offset + udp_len)) (\<lambda>udp.
      copy_from_slice d (udp_offset + 6) (udp_offset + 8) (be_bytes 2 (udp_checksum_parts
        [source, destination, be_bytes 4 (of_nat udp_len :: u32), [0, 0, 0, 17], udp]))))))))"

definition normalize_ipv4_forwarded_datagram :: "bytes \<Rightarrow> ('e, bytes) res" where
  "normalize_ipv4_forwarded_datagram d =
     (if length d < 20 then Ok d else
      bnd (byte_at d 0) (\<lambda>b0. let ihl = ihl_of b0 in
      if ihl < 20 \<or> length d < ihl then Ok d else
      bnd (be16_at d 2) (\<lambda>l16. let total_len = unat l16 in
      if total_len < ihl \<or> length d < total_len then Ok d else
      bnd (slice d 0 total_len) (\<lambda>normalized.
      bnd (copy_from_slice normalized 10 12 [0, 0]) (\<lambda>normalized.
      bnd (slice normalized 0 ihl) (\<lambda>hdr.
      bnd (copy_from_slice normalized 10 12 (be_bytes 2 (checksum hdr))) (\<lambda>normalized.
      bnd (be16_at normalized 6) (\<lambda>fragment.
      bnd (byte_at normalized 9) (\<lambda>proto.
      if proto = 17 \<and> fragment AND 0x3fff = 0 then repair_udp_checksum_v4 normalized ihl
      else Ok normalized)))))))))"

definition normalize_ipv6_forwarded_datagram :: "bytes \<Rightarrow> ('e, bytes) res" where
  "normalize_ipv6_forwarded_datagram d =
     (if length d < 40 then Ok d else
      bnd (be16_at d 4) (\<lambda>l16. let total_len = 40 + unat l16 in
      if length d < total_len then Ok d else
      bnd (slice d 0 total_len) (\<lambda>normalized.
      bnd (byte_at normalized 6) (\<lambda>next_header.
      if next_header = 17 then repair_udp_checksum_v6 normalized 40 else Ok normalized))))"

definition normalize_forwarded_datagram :: "bytes \<Rightarrow> ('e, bytes) res" where
  "normalize_forwarded_datagram d = (case get_byte d 0 of
       None \<Rightarrow> Ok d
     | Some b0 \<Rightarrow> if drop_bit 4 b0 = 4 then normalize_ipv4_forwarded_datagram d
                  else if drop_bit 4 b0 = 6 then normalize_ipv6_forwarded_datagram d else Ok d)"

text \<open>The same work done in place behind the two bytes of the AMT header.  A slice \<open>&mut datagram[2..]\<close>
  is the tail of the buffer, written back behind its first two bytes.\<close>

definition normalize_embedded_multicast_data :: "bytes \<Rightarrow> ('e, bytes) res" where
  "normalize_embedded_multicast_data d =
     (if length d < 3 then Ok d else
      bnd (byte_at d 2) (\<lambda>b.
      if drop_bit 4 b = 4 \<and> 22 \<le> length d then
        let ihl = ihl_of b in
        bnd (be16_at d 4) (\<lambda>l16. let total_len = unat l16 in
        if ihl < 20 \<or> total_len < ihl \<or> length d < 2 + total_len then Ok d else
        let d = take (2 + total_len) d in
        bnd (slice_from d 2) (\<lambda>packet.
        bnd (copy_from_slice packet 10 12 [0, 0]) (\<lambda>packet.
        bnd (slice packet 0 ihl) (\<lambda>hdr.
        bnd (copy_from_slice packet 10 12 (be_bytes 2 (checksum hdr))) (\<lambda>packet.
        bnd (be16_at packet 6) (\<lambda>fragment.
        bnd (byte_at packet 9) (\<lambda>proto.
        bnd (if proto = 17 \<and> fragment AND 0x3fff = 0 then repair_udp_checksum_v4 packet ihl else Ok packet)
          (\<lambda>packet. Ok (take 2 d @ packet)))))))))
      else if drop_bit 4 b = 6 \<and> 42 \<le> length d then
        bnd (be16_at d 6) (\<lambda>l16. let total_len = 40 + unat l16 in
        if length d < 2 + total_len then Ok d else
        let d = take (2 + total_len) d in
        bnd (slice_from d 2) (\<lambda>packet.
        bnd (byte_at packet 6) (\<lambda>next_header.
        bnd (if next_header = 17 then repair_udp_checksum_v6 packet 40 else Ok packet)
          (\<lambda>packet. Ok (take 2 d @ packet)))))
      else Ok d))"

definition normalized_datagram :: "upstream_datagram \<Rightarrow> ('e, bytes) res" where
  "normalized_datagram u = normalize_forwarded_datagram (pk_datagram (ud_packet u))"

definition normalized_amt_datagram :: "upstream_datagram \<Rightarrow> ('e, bytes) res" where
  "normalized_amt_datagram u =
     normalize_embedded_multicast_data (encode (MulticastData (pk_datagram (ud_packet u))))"

section \<open>Normalised datagrams verify\<close>

lemma udp_sum_with_checksum:
  assumes "even (length xs)" and "concat zeroed = xs @ [0, 0] @ ys"
    and "concat parts = xs @ be_bytes 2 (udp_checksum_parts zeroed) @ ys"
  shows "ones_complement_sum_parts parts = 0xffff"
proof (cases "checksum_parts zeroed = 0")
  case False
  then have "udp_checksum_parts zeroed = checksum_parts zeroed" by (simp add: udp_checksum_parts_def)
  with sum_with_checksum_parts[OF assms(1,2), of parts] assms(3) show ?thesis by simp
next
  case True
  let ?t = "words_sum xs + words_sum ys"
  have "unat (ones_complement_sum_parts zeroed) = 65535"
    using True unat_not_u16[of "ones_complement_sum_parts zeroed"] unat_u16_less[of "ones_complement_sum_parts zeroed"]
    by (simp add: checksum_parts_def)
  then have t: "oc_norm ?t = 65535" using assms(1,2) by (simp add: unat_ones_complement_sum_parts words_sum_append)
  have "words_sum (be_bytes 2 (0xffff :: u16)) = 65535" unfolding words_sum_be_bytes by simp
  then have "unat (ones_complement_sum_parts parts) = oc_norm (?t + 65535)"
    using assms(1,3) True
    by (simp add: unat_ones_complement_sum_parts words_sum_append udp_checksum_parts_def ac_simps del: words_sum_be_bytes)
  also have "\<dots> = 65535" using oc_norm_add[of 65535 ?t] t by simp
  finally show ?thesis by (rule u16_eq_ffff)
qed

definition udp_len_at :: "bytes \<Rightarrow> nat \<Rightarrow> nat" where
  "udp_len_at d off = unat (from_be [d ! (off + 4), d ! (off + 5)] :: u16)"

definition udp_present :: "bytes \<Rightarrow> nat \<Rightarrow> bool" where
  "udp_present d off \<longleftrightarrow> off + 8 \<le> length d \<and> 8 \<le> udp_len_at d off \<and> off + udp_len_at d off \<le> length d"

definition put2 :: "nat \<Rightarrow> bytes \<Rightarrow> bytes \<Rightarrow> bytes" where
  "put2 i bs d = take i d @ bs @ drop (i + 2) d"

lemma put2_simps [simp]:
  assumes "length bs = 2" and "i + 2 \<le> length d"
  shows "length (put2 i bs d) = length d" and "j \<le> i \<Longrightarrow> take j (put2 i bs d) = take j d"
    and "j < i \<Longrightarrow> put2 i bs d ! j = d ! j" and "length cs = 2 \<Longrightarrow> put2 i cs (put2 i bs d) = put2 i cs d"
    and "copy_from_slice d i (i + 2) bs = Ok (put2 i bs d)"
  using assms by (auto simp: put2_def nth_append copy_from_slice_def min_def)

lemma take_drop_put2:
  assumes "length bs = 2" and "i + 2 \<le> length d" and "off \<le> i" and "i + 2 \<le> off + n"
  shows "take n (drop off (put2 i bs d)) = take (i - off) (drop off d) @ bs @ take (off + n - (i + 2)) (drop (i + 2) d)"
  using assms by (simp add: put2_def drop_take add.commute)

lemma take_drop_put2_before:
  assumes "length bs = 2" and "i + 2 \<le> length d" and "off + n \<le> i"
  shows "take n (drop off (put2 i bs d)) = take n (drop off d)"
proof -
  have "take n (drop off x) = drop off (take (off + n) x)" for x :: bytes by (simp add: drop_take)
  then show ?thesis using assms by simp
qed

lemma udp_field_access:
  assumes "off + 8 \<le> length d"
  shows "be16_at d (off + 4) = Ok (from_be [d ! (off + 4), d ! (off + 5)])"
    and "length bs = 2 \<Longrightarrow> copy_from_slice d (off + 6) (off + 8) bs = Ok (put2 (off + 6) bs d)"
proof -
  have "Suc (off + 4) = off + 5" "off + 6 + 2 = off + 8" by simp_all
  then show "be16_at d (off + 4) = Ok (from_be [d ! (off + 4), d ! (off + 5)])"
    "length bs = 2 \<Longrightarrow> copy_from_slice d (off + 6) (off + 8) bs = Ok (put2 (off + 6) bs d)"
    using assms put2_simps(5)[of bs "off + 6" d] be16_at_ok[of "off + 4" d] by (simp_all add: add.commute)
qed

lemma udp_put2:
  assumes "off + 8 \<le> length d" and "8 \<le> n" and "off + n \<le> length d" and "length bs = 2"
  shows "udp_len_at (put2 (off + 6) bs d) off = udp_len_at d off"
    and "take n (drop off (put2 (off + 6) bs d)) = take 6 (drop off d) @ bs @ take (n - 8) (drop (off + 8) d)"
proof -
  have "off + 6 + 2 = off + 8" "off + n - (off + 8) = n - 8" by simp_all
  then show "take n (drop off (put2 (off + 6) bs d)) = take 6 (drop off d) @ bs @ take (n - 8) (drop (off + 8) d)"
    using assms take_drop_put2[of bs "off + 6" d off n] by (simp add: add.commute)
  show "udp_len_at (put2 (off + 6) bs d) off = udp_len_at d off"
    using assms by (simp add: udp_len_at_def)
qed

text \<open>Storing the checksum over pseudo header and datagram makes both sum to \<open>0xffff\<close>, for any pseudo
  header of even length that the checksum field is not part of.\<close>

lemma udp_repair_sums:
  fixes d :: bytes and off :: nat and pseudo :: "bytes \<Rightarrow> bytes list"
  assumes "udp_present d off" and ps: "\<And>bs. length bs = 2 \<Longrightarrow> pseudo (put2 (off + 6) bs d) = pseudo d"
    and "even (length (concat (pseudo d)))"
  defines "parts \<equiv> \<lambda>x. pseudo x @ [take (udp_len_at d off) (drop off x)]"
  shows "ones_complement_sum_parts (parts (put2 (off + 6)
    (be_bytes 2 (udp_checksum_parts (parts (put2 (off + 6) [0, 0] d)))) d)) = 0xffff"
proof -
  let ?n = "udp_len_at d off"
  have len: "off + 8 \<le> length d" "8 \<le> ?n" "off + ?n \<le> length d" using assms(1) by (simp_all add: udp_present_def)
  have cat: "concat (parts (put2 (off + 6) bs d)) =
      (concat (pseudo d) @ take 6 (drop off d)) @ bs @ take (?n - 8) (drop (off + 8) d)" if "length bs = 2" for bs
    using that len by (simp add: parts_def ps udp_put2)
  show ?thesis by (rule udp_sum_with_checksum[OF _ cat cat]) (use len assms(3) in auto)
qed

definition pseudo_v4 :: "nat \<Rightarrow> bytes \<Rightarrow> bytes list" where
  "pseudo_v4 n d = [take 4 (drop 12 d), take 4 (drop 16 d), [0, 17], be_bytes 2 (of_nat n :: u16)]"

definition pseudo_v6 :: "nat \<Rightarrow> bytes \<Rightarrow> bytes list" where
  "pseudo_v6 n d = [take 16 (drop 8 d), take 16 (drop 24 d), be_bytes 4 (of_nat n :: u32), [0, 0, 0, 17]]"

definition udp_verifies :: "(nat \<Rightarrow> bytes \<Rightarrow> bytes list) \<Rightarrow> bytes \<Rightarrow> nat \<Rightarrow> bool" where
  "udp_verifies pseudo d off \<longleftrightarrow> ones_complement_sum_parts
     (pseudo (udp_len_at d off) d @ [take (udp_len_at d off) (drop off d)]) = 0xffff"

lemma repair_udp_checksum_v4_ok:
  assumes "20 \<le> off"
  shows "\<exists>r. repair_udp_checksum_v4 d off = Ok r \<and> length r = length d \<and> take off r = take off d \<and>
    (if udp_present d off then udp_len_at r off = udp_len_at d off \<and> udp_verifies pseudo_v4 r off else r = d)"
proof (cases "udp_present d off")
  case False
  then show ?thesis
    by (auto simp: repair_udp_checksum_v4_def udp_present_def udp_field_access(1) Let_def simp flip: udp_len_at_def)
next
  case True
  let ?n = "udp_len_at d off"
  have len: "off + 8 \<le> length d" "8 \<le> ?n" "off + ?n \<le> length d" using True by (simp_all add: udp_present_def)
  have ps: "pseudo_v4 ?n (put2 (off + 6) bs d) = pseudo_v4 ?n d" if "length bs = 2" for bs
    using that len assms by (simp add: pseudo_v4_def take_drop_put2_before)
  have "even (length (concat (pseudo_v4 ?n d)))" using len assms by (simp add: pseudo_v4_def)
  note sums = udp_repair_sums[OF True ps this]
  have "repair_udp_checksum_v4 d off = Ok (put2 (off + 6) (be_bytes 2 (udp_checksum_parts
      (pseudo_v4 ?n (put2 (off + 6) [0, 0] d) @ [take ?n (drop off (put2 (off + 6) [0, 0] d))]))) d)"
    using len assms
    by (simp add: repair_udp_checksum_v4_def udp_field_access pseudo_v4_def slice_ok Let_def flip: udp_len_at_def)
  with sums True len show ?thesis by (auto simp: udp_verifies_def udp_put2)
qed

lemma repair_udp_checksum_v6_ok:
  assumes "40 \<le> off"
  shows "\<exists>r. repair_udp_checksum_v6 d off = Ok r \<and> length r = length d \<and> take off r = take off d \<and>
    (if udp_present d off then udp_len_at r off = udp_len_at d off \<and> udp_verifies pseudo_v6 r off else r = d)"
proof (cases "udp_present d off")
  case False
  then show ?thesis
    by (auto simp: repair_udp_checksum_v6_def udp_present_def udp_field_access(1) Let_def simp flip: udp_len_at_def)
next
  case True
  let ?n = "udp_len_at d off"
  have len: "off + 8 \<le> length d" "8 \<le> ?n" "off + ?n \<le> length d" using True by (simp_all add: udp_present_def)
  have ps: "pseudo_v6 ?n (put2 (off + 6) bs d) = pseudo_v6 ?n d" if "length bs = 2" for bs
    using that len assms by (simp add: pseudo_v6_def take_drop_put2_before)
  have "even (length (concat (pseudo_v6 ?n d)))" using len assms by (simp add: pseudo_v6_def)
  note sums = udp_repair_sums[OF True ps this]
  have "repair_udp_checksum_v6 d off = Ok (put2 (off + 6) (be_bytes 2 (udp_checksum_parts
      (pseudo_v6 ?n (put2 (off + 6) [0, 0] d) @ [take ?n (drop off (put2 (off + 6) [0, 0] d))]))) d)"
    using len assms
    by (simp add: repair_udp_checksum_v6_def udp_field_access pseudo_v6_def slice_ok Let_def flip: udp_len_at_def)
  with sums True len show ?thesis by (auto simp: udp_verifies_def udp_put2)
qed

lemma header_checksum_put:
  assumes "20 \<le> ihl" and "ihl \<le> length d"
  shows "ones_complement_sum (take ihl (put2 10 (be_bytes 2 (checksum (take ihl (put2 10 [0, 0] d)))) d)) = 0xffff"
proof -
  have "take ihl (put2 10 bs d) = take 10 d @ bs @ take (ihl - 12) (drop 12 d)" if "length bs = 2" for bs
    using take_drop_put2[of bs 10 d 0 ihl] that assms by simp
  then show ?thesis
    using ones_complement_sum_with_checksum[of "take 10 d" "take (ihl - 12) (drop 12 d)"] assms by simp
qed

definition ipv4_framed :: "bytes \<Rightarrow> bool" where
  "ipv4_framed d \<longleftrightarrow> 20 \<le> length d \<and> 20 \<le> ihl_of (d ! 0) \<and> ihl_of (d ! 0) \<le> unat (from_be [d ! 2, d ! 3] :: u16) \<and>
     unat (from_be [d ! 2, d ! 3] :: u16) \<le> length d"

definition ipv6_framed :: "bytes \<Rightarrow> bool" where
  "ipv6_framed d \<longleftrightarrow> 40 \<le> length d \<and> 40 + unat (from_be [d ! 4, d ! 5] :: u16) \<le> length d"

lemma copy_10_12: "12 \<le> length d \<Longrightarrow> length bs = 2 \<Longrightarrow> copy_from_slice d 10 12 bs = Ok (put2 10 bs d)"
  using put2_simps(5)[of bs 10 d] by simp

lemma take_eq_nth: "take n xs = take n ys \<Longrightarrow> i < n \<Longrightarrow> xs ! i = ys ! i"
  by (metis nth_take)

lemma take_eq_slice: "take n xs = take n ys \<Longrightarrow> a + k \<le> n \<Longrightarrow> take k (drop a xs) = take k (drop a ys)"
  by (metis add.commute drop_take take_drop take_take min.absorb1)

lemma normalize_ipv4_ok:
  "\<exists>r. (normalize_ipv4_forwarded_datagram d :: ('e, bytes) res) = Ok r \<and>
    (if ipv4_framed d then
       let ihl = ihl_of (d ! 0); n = unat (from_be [d ! 2, d ! 3] :: u16) in
       length r = n \<and> take 10 r = take 10 d \<and> take 8 (drop 12 r) = take 8 (drop 12 d) \<and>
       ones_complement_sum (take ihl r) = 0xffff \<and>
       (if d ! 9 = 17 \<and> (from_be [d ! 6, d ! 7] :: u16) AND 0x3fff = 0 \<and> udp_present r ihl then udp_verifies pseudo_v4 r ihl
        else drop ihl r = drop ihl (take n d))
     else r = d)"
proof (cases "ipv4_framed d")
  case False
  then show ?thesis
    by (auto simp: normalize_ipv4_forwarded_datagram_def ipv4_framed_def slice_simps Let_def)
next
  case True
  let ?ihl = "ihl_of (d ! 0)" and ?n = "unat (from_be [d ! 2, d ! 3] :: u16)"
  have len: "20 \<le> ?ihl" "?ihl \<le> ?n" "?n \<le> length d" using True by (simp_all add: ipv4_framed_def)
  let ?d = "take ?n d"
  define h where "h = put2 10 (be_bytes 2 (checksum (take ?ihl (put2 10 [0, 0] ?d)))) ?d"
  have h: "length h = ?n" "take 10 h = take 10 d" "ones_complement_sum (take ?ihl h) = 0xffff"
    "drop 12 h = drop 12 ?d" "h ! 6 = d ! 6" "h ! 7 = d ! 7" "h ! 9 = d ! 9"
    using len header_checksum_put[of ?ihl ?d] by (simp_all add: h_def, simp_all add: put2_def)
  obtain r where r: "(repair_udp_checksum_v4 h ?ihl :: ('e, bytes) res) = Ok r" "length r = length h" "take ?ihl r = take ?ihl h"
    "if udp_present h ?ihl then udp_len_at r ?ihl = udp_len_at h ?ihl \<and> udp_verifies pseudo_v4 r ?ihl else r = h"
    using repair_udp_checksum_v4_ok[OF len(1), of h] by blast
  define udp where "udp \<longleftrightarrow> d ! 9 = 17 \<and> (from_be [d ! 6, d ! 7] :: u16) AND 0x3fff = 0"
  have step: "(normalize_ipv4_forwarded_datagram d :: ('e, bytes) res) = Ok (if udp then r else h)"
    using len h r(1)
    by (simp add: normalize_ipv4_forwarded_datagram_def slice_ok byte_at_ok be16_at_ok Let_def copy_10_12 udp_def flip: h_def)
  have same: "take 10 r = take 10 h" "take 8 (drop 12 r) = take 8 (drop 12 h)"
    using take_eq_slice[OF r(3), of 0 10] take_eq_slice[OF r(3), of 12 8] len(1) by simp_all
  have "take 8 (drop 12 h) = take 8 (drop 12 d)" using len h(4) by (simp add: drop_take min_def)
  moreover have "drop ?ihl h = drop ?ihl ?d"
    using arg_cong[OF h(4), of "drop (?ihl - 12)"] len(1) by simp
  ultimately show ?thesis
    unfolding step using True h r same
    by (auto simp: Let_def udp_def udp_present_def split: if_splits)
qed

lemma normalize_ipv6_ok:
  "\<exists>r. (normalize_ipv6_forwarded_datagram d :: ('e, bytes) res) = Ok r \<and>
    (if ipv6_framed d then
       let n = 40 + unat (from_be [d ! 4, d ! 5] :: u16) in
       length r = n \<and> take 40 r = take 40 d \<and>
       (if d ! 6 = 17 \<and> udp_present r 40 then udp_verifies pseudo_v6 r 40 else r = take n d)
     else r = d)"
proof (cases "ipv6_framed d")
  case False
  then show ?thesis
    by (auto simp: normalize_ipv6_forwarded_datagram_def ipv6_framed_def slice_simps Let_def)
next
  case True
  let ?n = "40 + unat (from_be [d ! 4, d ! 5] :: u16)"
  obtain r where r: "(repair_udp_checksum_v6 (take ?n d) 40 :: ('e, bytes) res) = Ok r" "length r = length (take ?n d)"
    "take 40 r = take 40 (take ?n d)"
    "if udp_present (take ?n d) 40 then udp_len_at r 40 = udp_len_at (take ?n d) 40 \<and> udp_verifies pseudo_v6 r 40 else r = take ?n d"
    using repair_udp_checksum_v6_ok[of 40 "take ?n d"] by blast
  have "(normalize_ipv6_forwarded_datagram d :: ('e, bytes) res) = Ok (if d ! 6 = 17 then r else take ?n d)"
    using True r(1) by (simp add: normalize_ipv6_forwarded_datagram_def ipv6_framed_def slice_ok byte_at_ok be16_at_ok Let_def)
  moreover have "udp_present r 40 \<longleftrightarrow> udp_present (take ?n d) 40"
    using r(2,4) by (auto simp: udp_present_def split: if_splits)
  ultimately show ?thesis
    using True r by (auto simp: ipv6_framed_def Let_def min_def split: if_splits)
qed

lemma bnd_if: "bnd (if c then x else y) f = (if c then bnd x f else bnd y f)"
  by simp

lemma embedded_eq:
  "normalize_embedded_multicast_data (a # b # p) = bnd (normalize_forwarded_datagram p) (\<lambda>p. Ok (a # b # p))"
proof (cases "p = []")
  case False
  have n: "byte_at (a # b # p) 2 = byte_at p 0" "be16_at (a # b # p) 4 = be16_at p 2" "be16_at (a # b # p) 6 = be16_at p 4"
    "take (2 + k) (a # b # p) = a # b # take k p" "slice_from (a # b # q) 2 = Ok q" for k q
    by (simp_all add: be16_at_def byte_at_def slice_from_def slice_def)
  have g: "get_byte p 0 = Some (p ! 0)" "byte_at p 0 = Ok (p ! 0)" using False by (simp_all add: get_byte_def byte_at_def)
  consider "drop_bit 4 (p ! 0) = 4" | "drop_bit 4 (p ! 0) = 6" | "drop_bit 4 (p ! 0) \<notin> {4, 6}" by blast
  then show ?thesis
  proof cases
    case 1
    show ?thesis
    proof (cases "ipv4_framed p")
      case True
      then show ?thesis
        using False 1
        by (simp add: normalize_embedded_multicast_data_def normalize_forwarded_datagram_def normalize_ipv4_forwarded_datagram_def
            n g be16_at_ok slice_ok ipv4_framed_def Let_def bnd_assoc bnd_if cong: if_cong)
    next
      case F: False
      then show ?thesis
        using False 1
        by (auto simp: normalize_embedded_multicast_data_def normalize_forwarded_datagram_def normalize_ipv4_forwarded_datagram_def
            n g be16_at_ok ipv4_framed_def Let_def)
    qed
  next
    case 2
    then show ?thesis
      using False
      by (cases "ipv6_framed p")
         (auto simp: normalize_embedded_multicast_data_def normalize_forwarded_datagram_def normalize_ipv6_forwarded_datagram_def
            n g be16_at_ok slice_ok ipv6_framed_def Let_def bnd_assoc bnd_if cong: if_cong)
  next
    case 3
    then show ?thesis
      using False by (auto simp: normalize_embedded_multicast_data_def normalize_forwarded_datagram_def n g)
  qed
qed (simp add: normalize_embedded_multicast_data_def normalize_forwarded_datagram_def)

lemma parse_ipv4_datagram_addresses_eq:
  "parse_ipv4_datagram_addresses d = Ok (if ipv4_framed d
     then Some (V4 (from_be (take 4 (drop 12 d))), V4 (from_be (take 4 (drop 16 d)))) else None)"
  by (auto simp: parse_ipv4_datagram_addresses_def ipv4_framed_def slice_simps Let_def)

lemma parse_ipv6_datagram_addresses_eq:
  "parse_ipv6_datagram_addresses d = Ok (if ipv6_framed d
     then Some (V6 (from_be (take 16 (drop 8 d))), V6 (from_be (take 16 (drop 24 d)))) else None)"
  by (auto simp: parse_ipv6_datagram_addresses_def ipv6_framed_def slice_simps Let_def)

lemma parse_datagram_addresses_Some:
  "parse_datagram_addresses d = Ok (Some (s, g)) \<longleftrightarrow> d \<noteq> [] \<and>
     (drop_bit 4 (d ! 0) = 4 \<and> ipv4_framed d \<and> s = V4 (from_be (take 4 (drop 12 d))) \<and> g = V4 (from_be (take 4 (drop 16 d))) \<or>
      drop_bit 4 (d ! 0) = 6 \<and> ipv6_framed d \<and> s = V6 (from_be (take 16 (drop 8 d))) \<and> g = V6 (from_be (take 16 (drop 24 d))))"
  by (auto simp: parse_datagram_addresses_def get_byte_def parse_ipv4_datagram_addresses_eq parse_ipv6_datagram_addresses_eq
      split: if_splits)

lemma no_panic_packet_addresses: "no_panic (packet_addresses packet)"
proof -
  have "no_panic (parse_datagram_addresses d)" for d
    by (simp add: parse_datagram_addresses_def parse_ipv4_datagram_addresses_eq parse_ipv6_datagram_addresses_eq split: option.split)
  then show ?thesis unfolding packet_addresses_def by (auto intro!: no_panic_bnd split: option.split)
qed

lemma normalized_parses_v4:
  assumes "drop_bit 4 (d ! 0) = 4" and "ipv4_framed d"
    and "is_usable_unicast (V4 (from_be (take 4 (drop 12 d))))" and "is_multicast (V4 (from_be (take 4 (drop 16 d))))"
  shows "\<exists>r m. (normalize_ipv4_forwarded_datagram d :: ('e, bytes) res) = Ok r \<and> parse_multicast_packet r = Ok m \<and>
    mp_source m = V4 (from_be (take 4 (drop 12 d))) \<and> mp_group m = V4 (from_be (take 4 (drop 16 d)))"
proof -
  let ?ihl = "ihl_of (d ! 0)" and ?n = "unat (from_be [d ! 2, d ! 3] :: u16)"
  have len: "20 \<le> ?ihl" "?ihl \<le> ?n" using assms(2) by (simp_all add: ipv4_framed_def)
  obtain r where r: "(normalize_ipv4_forwarded_datagram d :: ('e, bytes) res) = Ok r" "length r = ?n"
    "take 10 r = take 10 d" "take 8 (drop 12 r) = take 8 (drop 12 d)" "ones_complement_sum (take ?ihl r) = 0xffff"
    using normalize_ipv4_ok[of d] assms(2) by (auto simp: Let_def)
  have "r ! i = d ! i" if "i < 10" for i by (rule take_eq_nth[OF r(3) that])
  then have i: "r ! 0 = d ! 0" "r ! 2 = d ! 2" "r ! 3 = d ! 3" by simp_all
  have a: "take 4 (drop 12 r) = take 4 (drop 12 d)" "take 4 (drop 16 r) = take 4 (drop 16 d)"
    using arg_cong[OF r(4), of "take 4"] arg_cong[OF r(4), of "drop 4"] by (simp_all add: drop_take)
  have ne: "r \<noteq> []" using len r(2) by auto
  show ?thesis
    using len r(1,2,5) assms ne by (simp add: parse_multicast_packet_Ok parse_ipv4_Ok Let_def i a)
qed

lemma normalized_parses_v6:
  assumes "drop_bit 4 (d ! 0) = 6" and "ipv6_framed d"
    and "is_usable_unicast (V6 (from_be (take 16 (drop 8 d))))" and "is_multicast (V6 (from_be (take 16 (drop 24 d))))"
  shows "\<exists>r m. (normalize_ipv6_forwarded_datagram d :: ('e, bytes) res) = Ok r \<and> parse_multicast_packet r = Ok m \<and>
    mp_source m = V6 (from_be (take 16 (drop 8 d))) \<and> mp_group m = V6 (from_be (take 16 (drop 24 d)))"
proof -
  let ?n = "40 + unat (from_be [d ! 4, d ! 5] :: u16)"
  obtain r where r: "(normalize_ipv6_forwarded_datagram d :: ('e, bytes) res) = Ok r" "length r = ?n" "take 40 r = take 40 d"
    using normalize_ipv6_ok[of d] assms(2) by (auto simp: Let_def)
  have "r ! i = d ! i" if "i < 40" for i by (rule take_eq_nth[OF r(3) that])
  then have i: "r ! 0 = d ! 0" "r ! 4 = d ! 4" "r ! 5 = d ! 5" by simp_all
  have a: "take 16 (drop 8 r) = take 16 (drop 8 d)" "take 16 (drop 24 r) = take 16 (drop 24 d)"
    using take_eq_slice[OF r(3), of 8 16] take_eq_slice[OF r(3), of 24 16] by simp_all
  have ne: "r \<noteq> []" using r(2) by auto
  show ?thesis
    using r(1,2) assms ne by (simp add: parse_multicast_packet_Ok parse_ipv6_Ok Let_def i a)
qed

lemma normalized_parses:
  assumes "parse_datagram_addresses d = Ok (Some (s, g))" and "valid_multicast_addresses s g"
  shows "\<exists>r m. (normalize_forwarded_datagram d :: ('e, bytes) res) = Ok r \<and> parse_multicast_packet r = Ok m \<and>
    mp_source m = s \<and> mp_group m = g"
proof -
  have g: "get_byte d 0 = Some (d ! 0)" using assms(1) by (simp add: parse_datagram_addresses_Some get_byte_def)
  show ?thesis
    using assms normalized_parses_v4[of d] normalized_parses_v6[of d]
    by (auto simp: parse_datagram_addresses_Some valid_multicast_addresses_def normalize_forwarded_datagram_def g)
qed

lemma normalize_no_panic: "no_panic (normalize_forwarded_datagram d :: ('e, bytes) res)"
proof -
  have "no_panic (normalize_ipv4_forwarded_datagram d :: ('e, bytes) res)"
    using normalize_ipv4_ok[where ?'e = 'e, of d] by auto
  moreover have "no_panic (normalize_ipv6_forwarded_datagram d :: ('e, bytes) res)"
    using normalize_ipv6_ok[where ?'e = 'e, of d] by auto
  ultimately show ?thesis by (simp add: normalize_forwarded_datagram_def split: option.split)
qed

lemma normalize_no_error: "(normalize_forwarded_datagram d :: ('e, bytes) res) \<noteq> Err e"
  using normalize_ipv4_ok[where ?'e = 'e, of d] normalize_ipv6_ok[where ?'e = 'e, of d]
  by (auto simp: normalize_forwarded_datagram_def split: option.split)

section \<open>Reconciliation leaves the desired subscriptions active\<close>

text \<open>The active subscriptions extend \<open>A\<close> by those in \<open>new\<close>.\<close>

definition extends_by :: "(upstream_subscription, 'i) btree_map \<Rightarrow> upstream_subscription list \<Rightarrow> ('c, 'i) upstream_manager \<Rightarrow> bool" where
  "extends_by A new self \<longleftrightarrow> distinct new \<and> (\<forall>s \<in> set new. fmlookup A s = None \<and> fmlookup (um_active self) s \<noteq> None) \<and>
     (\<forall>s. s \<notin> set new \<longrightarrow> fmlookup (um_active self) s = fmlookup A s)"

lemma rollback_addition_active:
  "fmlookup (um_active (rollback_addition ops x self)) s = (if s = x then None else fmlookup (um_active self) s)"
  by (auto simp: rollback_addition_def Let_def split: option.split)

lemma rollback_additions_active:
  "fmlookup (um_active (rollback_additions ops new self)) s = (if s \<in> set new then None else fmlookup (um_active self) s)"
proof -
  have "fmlookup (um_active (fold (rollback_addition ops) xs self)) s = (if s \<in> set xs then None else fmlookup (um_active self) s)" for xs
    by (induction xs arbitrary: self) (auto simp: rollback_addition_active)
  then show ?thesis by (simp add: rollback_additions_def)
qed

lemma rollback_restores: "extends_by A new self \<Longrightarrow> um_active (rollback_additions ops new self) = A"
  by (rule fmap_ext) (simp add: rollback_additions_active extends_by_def)

lemma extends_by_context [simp]: "extends_by A new (self\<lparr>um_context := c\<rparr>) = extends_by A new self"
  by (simp add: extends_by_def)

lemma add_desired_active:
  assumes "capture_total ops" and "extends_by A new self"
  shows "case add_desired ops subs new self of
      (Ok new', self') \<Rightarrow> extends_by A new' self' \<and> set new' = set new \<union> {s \<in> set subs. fmlookup A s = None}
    | (Err e, self') \<Rightarrow> um_active self' = A
    | (Panic, self') \<Rightarrow> False"
  using assms(2)
proof (induction subs arbitrary: new self)
  case (Cons x subs)
  show ?case
  proof (cases "fmlookup (um_active self) x")
    case (Some i)
    then have "x \<in> set new \<or> fmlookup A x \<noteq> None" using Cons.prems by (auto simp: extends_by_def)
    then have "{s \<in> set (x # subs). fmlookup A s = None} \<union> set new = {s \<in> set subs. fmlookup A s = None} \<union> set new" by auto
    with Cons.IH[OF Cons.prems] Some show ?thesis by (simp add: ac_simps split: prod.splits res.splits)
  next
    case None
    obtain r ctx where a: "add_subscription ops (um_context self) (upstream_raw_config_for (um_config self) x) = (r, ctx)" by fastforce
    have np: "r \<noteq> Panic" using assms(1) a by (metis capture_total_def fst_conv no_panic_simps(3))
    show ?thesis
    proof (cases r)
      case (Ok i)
      obtain q ctx' where j: "join_subscription ops ctx i = (q, ctx')" by fastforce
      have np': "q \<noteq> Panic" using assms(1) j by (metis capture_total_def fst_conv no_panic_simps(3))
      let ?self = "self\<lparr>um_context := ctx', um_active := fmupd x i (um_active self)\<rparr>"
      have "x \<notin> set new" "fmlookup A x = None" using None Cons.prems by (auto simp: extends_by_def)
      then have e: "extends_by A (new @ [x]) ?self" and s: "{s \<in> set (x # subs). fmlookup A s = None} = insert x {s \<in> set subs. fmlookup A s = None}"
        using Cons.prems by (auto simp: extends_by_def)
      show ?thesis
      proof (cases q)
        case q: (Ok u)
        then have "add_desired ops (x # subs) new self = add_desired ops subs (new @ [x]) ?self"
          using None a Ok j by (simp add: Let_def)
        moreover have "set (new @ [x]) \<union> {s \<in> set subs. fmlookup A s = None} = set new \<union> {s \<in> set (x # subs). fmlookup A s = None}"
          unfolding s by auto
        ultimately show ?thesis using Cons.IH[OF e] by (simp only: )
      next
        case (Err e)
        then have "add_desired ops (x # subs) new self =
            (Err e, rollback_additions ops new (self\<lparr>um_context := remove_subscription ops ctx' i\<rparr>))"
          using None a Ok j by (simp add: Let_def)
        then show ?thesis using Cons.prems by (simp only: split_conv res.case rollback_restores extends_by_context)
      qed (use np' in simp)
    qed (use None a np Cons.prems in \<open>simp_all add: rollback_restores\<close>)
  qed
qed simp

lemma remove_stale_active:
  assumes "capture_total ops" and "distinct stale" and "\<And>s. s \<in> set stale \<Longrightarrow> fmlookup (um_active self) s \<noteq> None"
  shows "\<exists>R self'. remove_stale ops stale (removed, failed) self = (Ok (removed + card R, failed + card (set stale - R)), self') \<and>
    R \<subseteq> set stale \<and> (\<forall>s. fmlookup (um_active self') s = (if s \<in> R then None else fmlookup (um_active self) s))"
  using assms(2,3)
proof (induction stale arbitrary: removed failed self)
  case (Cons x stale)
  obtain i where i: "fmlookup (um_active self) x = Some i" using Cons.prems(2)[of x] by auto
  obtain r ctx where l: "leave_subscription ops (um_context self) i = (r, ctx)" by fastforce
  have np: "r \<noteq> Panic" using assms(1) l by (metis capture_total_def fst_conv no_panic_simps(3))
  have d: "distinct stale" "x \<notin> set stale" using Cons.prems(1) by simp_all
  show ?case
  proof (cases r)
    case (Ok u)
    let ?self = "self\<lparr>um_context := remove_subscription ops ctx i, um_active := fmdrop x (um_active self)\<rparr>"
    have "fmlookup (um_active ?self) s \<noteq> None" if "s \<in> set stale" for s using that Cons.prems d by auto
    from Cons.IH[OF d(1) this, of "removed + 1" failed] obtain R self' where
      R: "remove_stale ops stale (removed + 1, failed) ?self = (Ok (removed + 1 + card R, failed + card (set stale - R)), self')"
      "R \<subseteq> set stale" "\<forall>s. fmlookup (um_active self') s = (if s \<in> R then None else fmlookup (um_active ?self) s)" by blast
    have "card (insert x R) = card R + 1" using R(2) d(2) finite_subset[OF R(2)] by (subst card_insert_disjoint) auto
    moreover have "set (x # stale) - insert x R = set stale - R" using d(2) by auto
    ultimately show ?thesis
      using R i l Ok by (intro exI[of _ "insert x R"] exI[of _ self']) auto
  next
    case (Err e)
    have "fmlookup (um_active (self\<lparr>um_context := ctx\<rparr>)) s \<noteq> None" if "s \<in> set stale" for s using that Cons.prems by simp
    from Cons.IH[OF d(1) this, of removed "failed + 1"] obtain R self' where
      R: "remove_stale ops stale (removed, failed + 1) (self\<lparr>um_context := ctx\<rparr>) =
        (Ok (removed + card R, failed + 1 + card (set stale - R)), self')"
      "R \<subseteq> set stale" "\<forall>s. fmlookup (um_active self') s = (if s \<in> R then None else fmlookup (um_active self) s)" by auto
    have "set (x # stale) - R = insert x (set stale - R)" using d(2) R(2) by auto
    then have "card (set (x # stale) - R) = card (set stale - R) + 1" using d(2) by simp
    then show ?thesis
      using R i l Err by (intro exI[of _ R] exI[of _ self']) auto
  qed (use np in simp)
qed simp

section \<open>The context holds exactly the active subscriptions\<close>

text \<open>What the capture library documents of its subscription table \<open>view\<close>: adding allocates an unused
  id, a failed addition none, joining and leaving keep the table, removing frees the id.\<close>

definition capture_laws :: "('c, 'i, 'e) capture_ops \<Rightarrow> ('c \<Rightarrow> 'i set) \<Rightarrow> bool" where
  "capture_laws ops view \<longleftrightarrow>
     (\<forall>c config. case add_subscription ops c config of
        (Ok i, c') \<Rightarrow> i \<notin> view c \<and> view c' = insert i (view c) | (_, c') \<Rightarrow> view c' = view c) \<and>
     (\<forall>c i. view (snd (join_subscription ops c i)) = view c) \<and>
     (\<forall>c i. view (snd (leave_subscription ops c i)) = view c) \<and>
     (\<forall>c i. view (remove_subscription ops c i) = view c - {i})"

definition holds_active :: "('c \<Rightarrow> 'i set) \<Rightarrow> ('c, 'i) upstream_manager \<Rightarrow> bool" where
  "holds_active view self \<longleftrightarrow> view (um_context self) = {i. \<exists>s. fmlookup (um_active self) s = Some i} \<and>
     (\<forall>s s' i. fmlookup (um_active self) s = Some i \<and> fmlookup (um_active self) s' = Some i \<longrightarrow> s = s')"

lemma holds_active_same:
  "holds_active view self \<Longrightarrow> view (um_context self') = view (um_context self) \<Longrightarrow> um_active self' = um_active self \<Longrightarrow>
   holds_active view self'"
  by (simp add: holds_active_def)

lemma holds_active_add:
  assumes "holds_active view self" and "fmlookup (um_active self) x = None" and "i \<notin> view (um_context self)"
    and "view (um_context self') = insert i (view (um_context self))" and "um_active self' = fmupd x i (um_active self)"
  shows "holds_active view self'"
  using assms by (auto simp: holds_active_def split: if_splits) (metis assms(2) option.distinct(1))+

lemma holds_active_drop:
  assumes "holds_active view self" and "fmlookup (um_active self) x = Some i"
    and "view (um_context self') = view (um_context self) - {i}" and "um_active self' = fmdrop x (um_active self)"
  shows "holds_active view self'"
  using assms by (auto simp: holds_active_def split: if_splits)

lemma holds_active_rollback:
  assumes "capture_laws ops view" and "holds_active view self"
  shows "holds_active view (rollback_additions ops new self)"
proof -
  have step: "holds_active view (rollback_addition ops x self)" if "holds_active view self" for x self
  proof (cases "fmlookup (um_active self) x")
    case (Some i)
    then show ?thesis
      by (rule holds_active_drop[OF that])
         (use assms(1) Some in \<open>simp_all add: capture_laws_def rollback_addition_def Let_def\<close>)
  qed (use that in \<open>simp add: rollback_addition_def\<close>)
  have "holds_active view (fold (rollback_addition ops) xs self)" for xs
    using assms(2) by (induction xs arbitrary: self) (simp_all add: step)
  then show ?thesis by (simp add: rollback_additions_def)
qed

lemma capture_laws_add:
  assumes "capture_laws ops view" and "add_subscription ops c config = (r, c')"
  shows "r = Ok i \<Longrightarrow> i \<notin> view c \<and> view c' = insert i (view c)" and "r = Err e \<Longrightarrow> view c' = view c"
    and "r = Panic \<Longrightarrow> view c' = view c"
proof -
  have "case add_subscription ops c config of
      (Ok i, c') \<Rightarrow> i \<notin> view c \<and> view c' = insert i (view c) | (_, c') \<Rightarrow> view c' = view c"
    by (rule assms(1)[unfolded capture_laws_def, THEN conjunct1, THEN spec, of c, THEN spec, of config])
  then show "r = Ok i \<Longrightarrow> i \<notin> view c \<and> view c' = insert i (view c)" "r = Err e \<Longrightarrow> view c' = view c"
    "r = Panic \<Longrightarrow> view c' = view c" using assms(2) by simp_all
qed

lemma capture_laws_other:
  assumes "capture_laws ops view"
  shows "view (snd (join_subscription ops c i)) = view c" and "view (snd (leave_subscription ops c i)) = view c"
    and "view (remove_subscription ops c i) = view c - {i}"
  using assms unfolding capture_laws_def by blast+

lemma holds_active_add_desired:
  assumes "capture_total ops" and laws: "capture_laws ops view" and "holds_active view self"
  shows "holds_active view (snd (add_desired ops subs new self))"
  using assms(3)
proof (induction subs arbitrary: new self)
  case (Cons x subs)
  show ?case
  proof (cases "fmlookup (um_active self) x")
    case None
    obtain r ctx where a: "add_subscription ops (um_context self) (upstream_raw_config_for (um_config self) x) = (r, ctx)" by fastforce
    note la = capture_laws_add[OF laws a]
    show ?thesis
    proof (cases r)
      case (Ok i)
      obtain q ctx' where j: "join_subscription ops ctx i = (q, ctx')" by fastforce
      have v: "i \<notin> view (um_context self)" "view ctx' = insert i (view (um_context self))"
        using la(1)[OF Ok] capture_laws_other(1)[OF laws, of ctx i] j by simp_all
      then have vr: "view (remove_subscription ops ctx' i) = view (um_context self)"
        using capture_laws_other(3)[OF laws] by auto
      have np': "q \<noteq> Panic" using assms(1) j by (metis capture_total_def fst_conv no_panic_simps(3))
      show ?thesis
      proof (cases q)
        case q: (Ok u)
        let ?self = "self\<lparr>um_context := ctx', um_active := fmupd x i (um_active self)\<rparr>"
        have "holds_active view ?self" by (rule holds_active_add[OF Cons.prems None v(1)]) (simp_all add: v)
        from Cons.IH[OF this, of "new @ [x]"] show ?thesis using None a Ok j q by (simp add: Let_def)
      next
        case (Err e)
        let ?self = "self\<lparr>um_context := remove_subscription ops ctx' i\<rparr>"
        have "holds_active view ?self" by (rule holds_active_same[OF Cons.prems]) (simp_all add: vr)
        from holds_active_rollback[OF laws this, of new] show ?thesis using None a Ok j Err by (simp add: Let_def)
      qed (use np' in simp)
    next
      case (Err e)
      have "holds_active view (self\<lparr>um_context := ctx\<rparr>)" by (rule holds_active_same[OF Cons.prems]) (simp_all add: la(2)[OF Err])
      from holds_active_rollback[OF laws this, of new] show ?thesis using None a Err by (simp add: Let_def)
    next
      case Panic
      have "holds_active view (self\<lparr>um_context := ctx\<rparr>)" by (rule holds_active_same[OF Cons.prems]) (simp_all add: la(3)[OF Panic])
      then show ?thesis using None a Panic by (simp add: Let_def)
    qed
  qed (use Cons in simp)
qed simp

lemma holds_active_remove_stale:
  assumes laws: "capture_laws ops view" and "holds_active view self"
  shows "holds_active view (snd (remove_stale ops stale counts self))"
  using assms(2)
proof (induction stale arbitrary: counts self)
  case (Cons x stale)
  obtain removed failed where c: "counts = (removed, failed)" by fastforce
  show ?case
  proof (cases "fmlookup (um_active self) x")
    case (Some i)
    obtain r ctx where l: "leave_subscription ops (um_context self) i = (r, ctx)" by fastforce
    have v: "view ctx = view (um_context self)" using capture_laws_other(2)[OF laws, of "um_context self" i] l by simp
    then have vr: "view (remove_subscription ops ctx i) = view (um_context self) - {i}"
      using capture_laws_other(3)[OF laws] by simp
    have h: "holds_active view (self\<lparr>um_context := ctx\<rparr>)" by (rule holds_active_same[OF Cons.prems]) (simp_all add: v)
    have h': "holds_active view (self\<lparr>um_context := remove_subscription ops ctx i, um_active := fmdrop x (um_active self)\<rparr>)"
      by (rule holds_active_drop[OF Cons.prems Some]) (simp_all add: vr)
    show ?thesis
      using Some l c Cons.IH[OF h] Cons.IH[OF h'] h by (cases r) (simp_all add: Let_def)
  qed (use Cons.prems c in simp)
qed simp

lemma reconcile_cases:
  assumes "capture_total ops" and "reconcile ops subs self = (r, self')"
  obtains (failed) e where "r = Err e" "um_active self' = um_active self" "self' = snd (add_desired ops (set_iter (fset_of_list subs)) [] self)"
  | (success) new self1 R where
      "add_desired ops (set_iter (fset_of_list subs)) [] self = (Ok new, self1)"
      "distinct new" "set new = {s \<in> set subs. fmlookup (um_active self) s = None}"
      "R \<subseteq> {s. fmlookup (um_active self) s \<noteq> None \<and> s \<notin> set subs}"
      "\<And>s. fmlookup (um_active self') s \<noteq> None \<longleftrightarrow> s \<in> set subs \<or> fmlookup (um_active self) s \<noteq> None \<and> s \<notin> R"
      "\<And>s. fmlookup (um_active self) s \<noteq> None \<Longrightarrow> s \<notin> R \<Longrightarrow> fmlookup (um_active self') s = fmlookup (um_active self) s"
      "self' = snd (remove_stale ops (filter (\<lambda>s. s |\<notin>| fset_of_list subs) (set_iter (fmdom (um_active self)))) (0, 0) self1)"
      "r = Ok \<lparr>ur_added = length new, ur_removed = card R,
         ur_failed_removals = card ({s. fmlookup (um_active self) s \<noteq> None \<and> s \<notin> set subs} - R),
         ur_active = fcard (fmdom (um_active self'))\<rparr>"
proof -
  let ?desired = "set_iter (fset_of_list subs)"
  let ?stale = "filter (\<lambda>s. s |\<notin>| fset_of_list subs) (set_iter (fmdom (um_active self)))"
  have st: "set ?stale = {s. fmlookup (um_active self) s \<noteq> None \<and> s \<notin> set subs}" "distinct ?stale"
    using strict_sorted_set_iter[of "fmdom (um_active self)"]
    by (auto simp: fset_of_list_elem fmlookup_dom_iff strict_sorted_iff)
  have e0: "extends_by (um_active self) [] self" by (simp add: extends_by_def)
  note ad = add_desired_active[OF assms(1) e0, of ?desired]
  obtain a self1 where a: "add_desired ops ?desired [] self = (a, self1)" by fastforce
  show ?thesis
  proof (cases a)
    case (Err e)
    have "reconcile ops subs self = (Err e, self1)" using a Err by (simp add: reconcile_def Let_def)
    moreover have "um_active self1 = um_active self" using ad a Err by simp
    ultimately show ?thesis using failed[of e] a assms(2) by simp
  next
    case Panic
    then show ?thesis using ad a by simp
  next
    case (Ok new)
    have n: "extends_by (um_active self) new self1" "set new = {s \<in> set subs. fmlookup (um_active self) s = None}"
      using ad a Ok by (simp_all add: fset_of_list_elem)
    have act: "fmlookup (um_active self1) s = fmlookup (um_active self) s" if "fmlookup (um_active self) s \<noteq> None" for s
      using n(1) that unfolding extends_by_def by (metis (no_types))
    have "fmlookup (um_active self1) s \<noteq> None" if "s \<in> set ?stale" for s
      using that act[of s] unfolding st(1) by simp
    from remove_stale_active[OF assms(1) st(2) this, where removed = 0 and failed = 0] obtain R self2 where
      R: "remove_stale ops ?stale (0, 0) self1 = (Ok (card R, card (set ?stale - R)), self2)" "R \<subseteq> set ?stale"
        "\<And>s. fmlookup (um_active self2) s = (if s \<in> R then None else fmlookup (um_active self1) s)"
      unfolding add_0 by blast
    have res: "r = Ok \<lparr>ur_added = length new, ur_removed = card R, ur_failed_removals = card (set ?stale - R),
         ur_active = fcard (fmdom (um_active self'))\<rparr>" "self' = self2"
      using assms(2) a Ok R(1) by (auto simp: reconcile_def Let_def)
    have new: "fmlookup (um_active self1) s \<noteq> None \<longleftrightarrow> s \<in> set subs \<or> fmlookup (um_active self) s \<noteq> None" for s
    proof (cases "s \<in> set new")
      case True
      then show ?thesis using n(1) unfolding extends_by_def n(2) by blast
    next
      case False
      then have "fmlookup (um_active self1) s = fmlookup (um_active self) s" using n(1) by (simp add: extends_by_def)
      with False show ?thesis unfolding n(2) by auto
    qed
    show ?thesis
    proof (rule success[of new self1 R])
      show "fmlookup (um_active self') s \<noteq> None \<longleftrightarrow> s \<in> set subs \<or> fmlookup (um_active self) s \<noteq> None \<and> s \<notin> R" for s
        using R(2,3) new[of s] unfolding res(2) st(1) by auto
      show "r = Ok \<lparr>ur_added = length new, ur_removed = card R,
         ur_failed_removals = card ({s. fmlookup (um_active self) s \<noteq> None \<and> s \<notin> set subs} - R),
         ur_active = fcard (fmdom (um_active self'))\<rparr>" using res(1) unfolding st(1) .
      show "fmlookup (um_active self') s = fmlookup (um_active self) s"
        if "fmlookup (um_active self) s \<noteq> None" "s \<notin> R" for s
        using R(3)[of s] act[OF that(1)] that(2) unfolding res(2) by simp
      show "R \<subseteq> {s. fmlookup (um_active self) s \<noteq> None \<and> s \<notin> set subs}" using R(2) unfolding st(1) .
      show "distinct new" using n(1) by (simp add: extends_by_def)
      show "self' = snd (remove_stale ops ?stale (0, 0) self1)" using R(1) res(2) by simp
    qed (use a Ok n(2) in simp_all)
  qed
qed

section \<open>Properties of the upstream receiver\<close>

text \<open>C25: reconciliation is all or nothing on the side of additions.  When it succeeds, every desired
  subscription is active, every other active one is a stale one whose leaving failed, kept ones
  keep their id, and the counts are exact; when it fails, the active subscriptions are what they
  were.  It never panics.\<close>

theorem reconcile_exact:
  assumes "capture_total ops" and "reconcile ops subs self = (r, self')"
  shows "case r of
      Ok u \<Rightarrow> (\<exists>R. R \<subseteq> {s. fmlookup (um_active self) s \<noteq> None \<and> s \<notin> set subs} \<and>
        {s. fmlookup (um_active self') s \<noteq> None} = set subs \<union> ({s. fmlookup (um_active self) s \<noteq> None} - R) \<and>
        (\<forall>s. fmlookup (um_active self) s \<noteq> None \<and> s \<notin> R \<longrightarrow> fmlookup (um_active self') s = fmlookup (um_active self) s) \<and>
        ur_added u = card {s \<in> set subs. fmlookup (um_active self) s = None} \<and> ur_removed u = card R \<and>
        ur_failed_removals u = card ({s. fmlookup (um_active self) s \<noteq> None \<and> s \<notin> set subs} - R) \<and>
        ur_active u = fcard (fmdom (um_active self')))
    | Err e \<Rightarrow> um_active self' = um_active self
    | Panic \<Rightarrow> False"
  using assms
proof (cases rule: reconcile_cases)
  case (success new self1 R)
  have "length new = card {s \<in> set subs. fmlookup (um_active self) s = None}"
    using distinct_card[OF success(2)] success(3) by simp
  moreover have "{s. fmlookup (um_active self') s \<noteq> None} = set subs \<union> ({s. fmlookup (um_active self) s \<noteq> None} - R)"
    using success(4,5) by auto
  ultimately show ?thesis using success(4,6,8) by (simp add: exI[of _ R])
qed simp

text \<open>A context that numbers its subscriptions, keeps them in a list and delivers no packets.\<close>

definition list_ops :: "(nat list, nat, string) capture_ops" where
  "list_ops = \<lparr>add_subscription = (\<lambda>c _. let i = Suc (Max (insert 0 (set c))) in (Ok i, i # c)),
     join_subscription = (\<lambda>c _. (Ok (), c)), leave_subscription = (\<lambda>c _. (Ok (), c)),
     remove_subscription = (\<lambda>c i. removeAll i c), try_recv_any = (\<lambda>c. (Ok None, c))\<rparr>"

definition sample_upstream :: "(nat list, nat) upstream_manager" where
  "sample_upstream = \<lparr>um_config = \<lparr>uc_interface = None, uc_interface_index = None\<rparr>, um_context = [], um_active = fmempty\<rparr>"

lemma list_ops_total: "capture_total list_ops"
  by (simp add: capture_total_def list_ops_def Let_def)

lemma list_ops_laws: "capture_laws list_ops set"
proof -
  have "Suc (Max (insert 0 (set c))) \<notin> set c" for c
  proof
    assume "Suc (Max (insert 0 (set c))) \<in> set c"
    then have "Suc (Max (insert 0 (set c))) \<le> Max (insert 0 (set c))" by (intro Max_ge) simp_all
    then show False by simp
  qed
  then show ?thesis by (auto simp: capture_laws_def list_ops_def Let_def)
qed

theorem reconcile_exact_witness:
  "\<exists>self' r. reconcile list_ops [asm (V4 0xEF010203)] sample_upstream = (r, self') \<and>
     (case r of Ok u \<Rightarrow> {s. fmlookup (um_active self') s \<noteq> None} = {asm (V4 0xEF010203)} \<and> ur_added u = 1
      | Err e \<Rightarrow> um_active self' = fmempty | Panic \<Rightarrow> False)"
proof -
  obtain r self' where r: "reconcile list_ops [asm (V4 0xEF010203)] sample_upstream = (r, self')" by fastforce
  have "{s. s = asm (V4 0xEF010203)} = {asm (V4 0xEF010203)}" by simp
  with reconcile_exact[OF list_ops_total r] r show ?thesis
    by (cases r) (auto simp: sample_upstream_def)
qed



text \<open>C27: what the relay puts into the tunnel is what the gateway accepts.  The in-place
  normalisation behind the AMT header is the encoding of the normalised datagram, on any bytes and
  without panic; and when the addresses read from a captured header are valid, the normalised
  datagram parses, on the other side of the tunnel, to the same source and group.\<close>

theorem forwarded_datagram_accepted:
  "\<exists>p. (normalized_datagram u :: ('e, bytes) res) = Ok p \<and>
    (normalized_amt_datagram u :: ('e, bytes) res) = Ok (encode (MulticastData p)) \<and>
    (case (parse_datagram_addresses (pk_datagram (ud_packet u)) :: ('e, (ip_addr \<times> ip_addr) option) res) of
       Ok (Some (source, grp)) \<Rightarrow> if valid_multicast_addresses source grp
         then (\<exists>m. parse_multicast_packet p = Ok m \<and> mp_source m = source \<and> mp_group m = grp) else True
     | _ \<Rightarrow> True)"
proof -
  let ?d = "pk_datagram (ud_packet u)"
  obtain p where p: "(normalize_forwarded_datagram ?d :: ('e, bytes) res) = Ok p"
    using normalize_no_panic[where ?'e = 'e, of ?d] normalize_no_error[where ?'e = 'e, of ?d]
    by (cases "normalize_forwarded_datagram ?d :: ('e, bytes) res") auto
  have enc: "encode (MulticastData q) = header MtMulticastData # 0 # q" for q by (simp add: encode_def)
  have "(normalized_amt_datagram u :: ('e, bytes) res) = Ok (encode (MulticastData p))"
    by (simp add: normalized_amt_datagram_def enc embedded_eq p)
  moreover have "\<exists>m. parse_multicast_packet p = Ok m \<and> mp_source m = s \<and> mp_group m = g"
    if "(parse_datagram_addresses ?d :: ('e, (ip_addr \<times> ip_addr) option) res) = Ok (Some (s, g))" "valid_multicast_addresses s g" for s g
    using normalized_parses[OF that, where ?'e = 'e] p by simp
  ultimately show ?thesis
    using p by (auto simp: normalized_datagram_def split: res.split option.split)
qed

end
