(* ===== verification/Upstream_Worker.thy ===== *)
theory Upstream_Worker
  imports Upstream
begin

text \<open>
  The capture worker of the relay, \<open>src/upstream_worker.rs\<close>: a thread that captures packets and
  passes them through a bounded queue to the relay loop, with counters that both sides update
  by atomic operations.  Each atomic operation is one step, so that the two threads interleave
  freely.  The lemmas show that the queue depth counter never underflows and stays accurate,
  and that no packet is reordered, or lost without being counted.
\<close>

section \<open>Counters\<close>

definition UPSTREAM_PACKET_QUEUE_CAPACITY :: nat where "UPSTREAM_PACKET_QUEUE_CAPACITY = 4096"
definition MIN_CAPTURE_POLL_INTERVAL :: duration where "MIN_CAPTURE_POLL_INTERVAL = 250000"
definition MAX_CAPTURE_POLL_INTERVAL :: duration where "MAX_CAPTURE_POLL_INTERVAL = 2000000"

type_synonym u64 = "64 word"

record worker_counters =
  wc_accepted_packets :: u64
  wc_accepted_bytes :: u64
  wc_queue_drops :: u64
  wc_failures :: u64
  wc_queue_depth :: u64
  wc_queue_high_water :: u64
  wc_active_subscriptions :: nat
  wc_capture_sockets :: nat

definition counters_default :: worker_counters where
  "counters_default = \<lparr>wc_accepted_packets = 0, wc_accepted_bytes = 0, wc_queue_drops = 0, wc_failures = 0,
     wc_queue_depth = 0, wc_queue_high_water = 0, wc_active_subscriptions = 0, wc_capture_sockets = 0\<rparr>"

definition update_runtime_gauges :: "nat \<Rightarrow> nat \<Rightarrow> worker_counters \<Rightarrow> worker_counters" where
  "update_runtime_gauges active sockets c = c\<lparr>wc_active_subscriptions := active, wc_capture_sockets := sockets\<rparr>"

definition reserve_queue_slot :: "worker_counters \<Rightarrow> (bool \<times> u64) \<times> worker_counters" where
  "reserve_queue_slot c =
     (let previous = wc_queue_depth c in ((previous = 0, previous + 1), c\<lparr>wc_queue_depth := previous + 1\<rparr>))"

definition commit_queue_slot :: "u64 \<Rightarrow> worker_counters \<Rightarrow> worker_counters" where
  "commit_queue_slot reserved_depth c =
     (let depth = min reserved_depth (wc_queue_depth c)
      in c\<lparr>wc_queue_high_water := max (wc_queue_high_water c) depth\<rparr>)"

definition release_queue_slot :: "worker_counters \<Rightarrow> worker_counters" where
  "release_queue_slot c = c\<lparr>wc_queue_depth := wc_queue_depth c - 1\<rparr>"

definition record_dequeued :: "worker_counters \<Rightarrow> worker_counters" where
  "record_dequeued c = c\<lparr>wc_queue_depth := wc_queue_depth c - 1\<rparr>"

definition account_packet :: "nat \<Rightarrow> worker_counters \<Rightarrow> worker_counters" where
  "account_packet len c = c\<lparr>wc_accepted_packets := wc_accepted_packets c + 1,
     wc_accepted_bytes := wc_accepted_bytes c + of_nat len\<rparr>"

definition account_drop :: "worker_counters \<Rightarrow> worker_counters" where
  "account_drop c = c\<lparr>wc_queue_drops := wc_queue_drops c + 1\<rparr>"

definition record_failure :: "string \<Rightarrow> string option \<times> worker_counters \<Rightarrow> string option \<times> worker_counters" where
  "record_failure error = (\<lambda>(failure, c).
     (if failure = None then Some error else failure, c\<lparr>wc_failures := wc_failures c + 1\<rparr>))"

section \<open>Commands\<close>

datatype upstream_command = CmdReconcile "upstream_subscription list" | CmdShutdown

text \<open>The result is what the response channel carries, and whether the worker ends.\<close>

definition handle_command ::
  "('c, 'i, 'e) capture_ops \<Rightarrow> (('c, 'i) upstream_manager \<Rightarrow> nat) \<Rightarrow> upstream_command
   \<Rightarrow> ('c, 'i) upstream_manager \<times> worker_counters
   \<Rightarrow> (bool \<times> ('e, upstream_reconcile) res) \<times> ('c, 'i) upstream_manager \<times> worker_counters" where
  "handle_command ops capture_socket_count command = (\<lambda>(source, counters).
     (let (subscriptions, stop) = (case command of CmdReconcile s \<Rightarrow> (s, False) | CmdShutdown \<Rightarrow> ([], True));
          (result, source) = reconcile ops subscriptions source
      in ((stop, result), source,
          update_runtime_gauges (fcard (fmdom (um_active source))) (capture_socket_count source) counters)))"

definition next_poll_interval :: "duration \<Rightarrow> duration" where
  "next_poll_interval poll_interval = min (poll_interval * 2) MAX_CAPTURE_POLL_INTERVAL"

section \<open>The two threads\<close>

text \<open>The worker is between packets, holds a reserved slot for a packet (about to send it or, with
  the queue full, to release the slot), has sent it and is about to commit, or has ended.  The
  relay loop is between calls, has taken a packet without having counted it yet, or has found the
  queue empty without having looked at the failure yet.\<close>

datatype 'p producer = PIdle | PReserved 'p u64 | PFull | PSent u64 | PStopped
datatype consumer = CIdle | CTaken | CEmpty

record 'p worker_system =
  ws_queue :: "'p list"
  ws_counters :: worker_counters
  ws_failure :: "string option"
  ws_producer :: "'p producer"
  ws_consumer :: consumer

datatype 'p worker_event = Captured 'p | Dropped 'p | Delivered 'p | NoPacket | Reported string | Internal

definition worker_start :: "'p worker_system" where
  "worker_start = \<lparr>ws_queue = [], ws_counters = counters_default, ws_failure = None, ws_producer = PIdle, ws_consumer = CIdle\<rparr>"

text \<open>\<open>capture\<close>: a packet of the source is accounted and a slot reserved (no other thread writes
  the accepted counters).  \<open>send\<close>, \<open>full\<close>, \<open>release\<close>, \<open>commit\<close>: the outcomes of \<open>try_send\<close>.
  \<open>fail\<close>: the source failed.  \<open>take\<close>, \<open>count\<close>, \<open>empty\<close>, \<open>nothing\<close>, \<open>report\<close>: the
  call of the relay loop that receives; it looks at the failure only when the queue was empty.\<close>

inductive worker_step :: "('p \<Rightarrow> nat) \<Rightarrow> nat \<Rightarrow> 'p worker_system \<Rightarrow> 'p worker_event \<Rightarrow> 'p worker_system \<Rightarrow> bool"
  for packet_len capacity where
  capture: "ws_producer s = PIdle \<Longrightarrow>
    reserve_queue_slot (account_packet (packet_len p) (ws_counters s)) = ((was_empty, reserved), c) \<Longrightarrow>
    worker_step packet_len capacity s (Captured p) (s\<lparr>ws_counters := c, ws_producer := PReserved p reserved\<rparr>)"
| send: "ws_producer s = PReserved p reserved \<Longrightarrow> length (ws_queue s) < capacity \<Longrightarrow>
    worker_step packet_len capacity s Internal (s\<lparr>ws_queue := ws_queue s @ [p], ws_producer := PSent reserved\<rparr>)"
| full: "ws_producer s = PReserved p reserved \<Longrightarrow> capacity \<le> length (ws_queue s) \<Longrightarrow>
    worker_step packet_len capacity s (Dropped p) (s\<lparr>ws_producer := PFull\<rparr>)"
| release: "ws_producer s = PFull \<Longrightarrow>
    worker_step packet_len capacity s Internal
      (s\<lparr>ws_counters := account_drop (release_queue_slot (ws_counters s)), ws_producer := PIdle\<rparr>)"
| commit: "ws_producer s = PSent reserved \<Longrightarrow>
    worker_step packet_len capacity s Internal
      (s\<lparr>ws_counters := commit_queue_slot reserved (ws_counters s), ws_producer := PIdle\<rparr>)"
| fail: "ws_producer s = PIdle \<Longrightarrow> record_failure e (ws_failure s, ws_counters s) = (f, c) \<Longrightarrow>
    worker_step packet_len capacity s Internal (s\<lparr>ws_failure := f, ws_counters := c, ws_producer := PStopped\<rparr>)"
| take: "ws_consumer s = CIdle \<Longrightarrow> ws_queue s = p # ps \<Longrightarrow>
    worker_step packet_len capacity s (Delivered p) (s\<lparr>ws_queue := ps, ws_consumer := CTaken\<rparr>)"
| count: "ws_consumer s = CTaken \<Longrightarrow>
    worker_step packet_len capacity s Internal (s\<lparr>ws_counters := record_dequeued (ws_counters s), ws_consumer := CIdle\<rparr>)"
| empty: "ws_consumer s = CIdle \<Longrightarrow> ws_queue s = [] \<Longrightarrow>
    worker_step packet_len capacity s Internal (s\<lparr>ws_consumer := CEmpty\<rparr>)"
| nothing: "ws_consumer s = CEmpty \<Longrightarrow> ws_failure s = None \<Longrightarrow>
    worker_step packet_len capacity s NoPacket (s\<lparr>ws_consumer := CIdle\<rparr>)"
| report: "ws_consumer s = CEmpty \<Longrightarrow> ws_failure s = Some e \<Longrightarrow>
    worker_step packet_len capacity s (Reported e) (s\<lparr>ws_consumer := CIdle\<rparr>)"

inductive worker_run :: "('p \<Rightarrow> nat) \<Rightarrow> nat \<Rightarrow> 'p worker_event list \<Rightarrow> 'p worker_system \<Rightarrow> bool"
  for packet_len capacity where
  start: "worker_run packet_len capacity [] worker_start"
| step: "worker_run packet_len capacity evs s \<Longrightarrow> worker_step packet_len capacity s ev s' \<Longrightarrow>
    worker_run packet_len capacity (evs @ [ev]) s'"

inductive_cases worker_stepE: "worker_step packet_len capacity s ev s'"

section \<open>Accounting\<close>

text \<open>The packets of a run: those captured and not dropped, in order, and those delivered.\<close>

definition kept :: "'p worker_event list \<Rightarrow> 'p list" where
  "kept evs = fold (\<lambda>ev ps. case ev of Captured p \<Rightarrow> ps @ [p] | Dropped _ \<Rightarrow> butlast ps | _ \<Rightarrow> ps) evs []"

definition delivered :: "'p worker_event list \<Rightarrow> 'p list" where
  "delivered evs = concat (map (\<lambda>ev. case ev of Delivered p \<Rightarrow> [p] | _ \<Rightarrow> []) evs)"

definition captured_count :: "'p worker_event list \<Rightarrow> nat" where
  "captured_count evs = length (filter (\<lambda>ev. \<exists>p. ev = Captured p) evs)"

definition dropped_count :: "'p worker_event list \<Rightarrow> nat" where
  "dropped_count evs = length (filter (\<lambda>ev. \<exists>p. ev = Dropped p) evs)"

lemma kept_snoc [simp]:
  "kept (evs @ [Captured p]) = kept evs @ [p]" "kept (evs @ [Dropped p]) = butlast (kept evs)"
  "kept (evs @ [Delivered p]) = kept evs" "kept (evs @ [NoPacket]) = kept evs" "kept (evs @ [Reported e]) = kept evs"
  "kept (evs @ [Internal]) = kept evs"
  by (simp_all add: kept_def)

lemma delivered_snoc [simp]:
  "delivered (evs @ [Delivered p]) = delivered evs @ [p]" "delivered (evs @ [Captured p]) = delivered evs"
  "delivered (evs @ [Dropped p]) = delivered evs" "delivered (evs @ [NoPacket]) = delivered evs"
  "delivered (evs @ [Reported e]) = delivered evs" "delivered (evs @ [Internal]) = delivered evs"
  by (simp_all add: delivered_def)

fun producer_holds :: "'p producer \<Rightarrow> nat" where
  "producer_holds (PReserved _ _) = 1"
| "producer_holds PFull = 1"
| "producer_holds _ = 0"

fun in_flight :: "'p producer \<Rightarrow> 'p list" where
  "in_flight (PReserved p _) = [p]"
| "in_flight _ = []"

fun consumer_holds :: "consumer \<Rightarrow> nat" where
  "consumer_holds CTaken = 1"
| "consumer_holds _ = 0"

definition worker_inv :: "nat \<Rightarrow> 'p worker_event list \<Rightarrow> 'p worker_system \<Rightarrow> bool" where
  "worker_inv capacity evs s \<longleftrightarrow>
     unat (wc_queue_depth (ws_counters s)) = length (ws_queue s) + producer_holds (ws_producer s) + consumer_holds (ws_consumer s) \<and>
     length (ws_queue s) \<le> capacity \<and> unat (wc_queue_high_water (ws_counters s)) \<le> capacity + 1 \<and>
     kept evs = delivered evs @ ws_queue s @ in_flight (ws_producer s) \<and>
     wc_accepted_packets (ws_counters s) = of_nat (captured_count evs) \<and>
     wc_queue_drops (ws_counters s) + of_bool (ws_producer s = PFull) = of_nat (dropped_count evs)"

lemma producer_consumer_bounds: "producer_holds p \<le> 1" "consumer_holds c \<le> 1"
  by (cases p; simp) (cases c; simp)

lemma unat_incr: "unat w < 2 ^ 64 - 1 \<Longrightarrow> unat (w + 1 :: u64) = unat w + 1"
  by (subst unat_add_lem[THEN iffD1]) simp_all

lemma unat_decr: "unat w = Suc n \<Longrightarrow> unat (w - 1 :: u64) = n"
  by (metis diff_Suc_1 unat_minus_one Zero_not_Suc unsigned_0)

lemma worker_step_inv:
  assumes "worker_step packet_len capacity s ev s'" and inv: "worker_inv capacity evs s" and "capacity + 2 < 2 ^ 64"
  shows "worker_inv capacity (evs @ [ev]) s'"
  using assms(1)
proof (cases rule: worker_step.cases)
  case (capture was_empty reserved c p)
  have "unat (wc_queue_depth (ws_counters s)) < 2 ^ 64 - 1"
    using inv assms(3) capture producer_consumer_bounds(2)[of "ws_consumer s"] by (simp add: worker_inv_def)
  from unat_incr[OF this] capture inv show ?thesis
    by (auto simp: worker_inv_def reserve_queue_slot_def account_packet_def captured_count_def dropped_count_def Let_def)
next
  case (commit reserved)
  have "unat (min reserved (wc_queue_depth (ws_counters s))) \<le> unat (wc_queue_depth (ws_counters s))"
    by (simp add: word_le_nat_alt[symmetric])
  also have "\<dots> \<le> capacity + 1"
    using inv commit producer_consumer_bounds(2)[of "ws_consumer s"] by (simp add: worker_inv_def)
  finally show ?thesis
    using inv commit
    by (auto simp: worker_inv_def commit_queue_slot_def captured_count_def dropped_count_def Let_def max_def)
next
  case release
  then obtain n where "unat (wc_queue_depth (ws_counters s)) = Suc n" "n = length (ws_queue s) + consumer_holds (ws_consumer s)"
    using inv by (simp add: worker_inv_def)
  from unat_decr[OF this(1)] this(2) release inv show ?thesis
    by (simp add: worker_inv_def release_queue_slot_def account_drop_def captured_count_def dropped_count_def)
next
  case count
  then obtain n where "unat (wc_queue_depth (ws_counters s)) = Suc n" "n = length (ws_queue s) + producer_holds (ws_producer s)"
    using inv by (simp add: worker_inv_def)
  from unat_decr[OF this(1)] this(2) count inv show ?thesis
    by (simp add: worker_inv_def record_dequeued_def captured_count_def dropped_count_def)
qed (use inv in \<open>auto simp: worker_inv_def record_failure_def captured_count_def dropped_count_def
       butlast_append\<close>)

section \<open>Properties of the worker\<close>

text \<open>C28: however the two threads interleave, the depth counter is the number of queued packets
  plus the slots the two threads hold, so it never underflows and is never more than two above
  the queue; the high-water mark is at most one above the capacity; and every captured packet is,
  in order, delivered, queued or in flight, or counted as dropped.\<close>

theorem worker_accounting:
  assumes "worker_run packet_len capacity evs s" and "capacity + 2 < 2 ^ 64"
  shows "unat (wc_queue_depth (ws_counters s)) =
      length (ws_queue s) + producer_holds (ws_producer s) + consumer_holds (ws_consumer s) \<and>
    unat (wc_queue_high_water (ws_counters s)) \<le> capacity + 1 \<and>
    kept evs = delivered evs @ ws_queue s @ in_flight (ws_producer s) \<and>
    wc_accepted_packets (ws_counters s) = of_nat (captured_count evs) \<and>
    wc_queue_drops (ws_counters s) + of_bool (ws_producer s = PFull) = of_nat (dropped_count evs)"
proof -
  have "worker_inv capacity evs s"
    using assms(1)
  proof induction
    case start
    show ?case
      by (simp add: worker_inv_def worker_start_def counters_default_def kept_def delivered_def captured_count_def dropped_count_def)
  next
    case (step evs s ev s')
    show ?case by (rule worker_step_inv[OF step.hyps(2) step.IH assms(2)])
  qed
  then show ?thesis by (simp add: worker_inv_def)
qed

theorem worker_accounting_witness:
  "\<exists>s :: nat worker_system. worker_run id 1 [Captured 7, Internal, Delivered 7] s \<and> unat (wc_queue_depth (ws_counters s)) = 1"
proof -
  have 1: "\<exists>s. worker_run id 1 [Captured 7] s \<and> ws_producer s = PReserved 7 1 \<and> ws_consumer s = CIdle \<and> ws_queue s = []"
    using worker_run.step[OF worker_run.start worker_step.capture[of worker_start]]
    by (fastforce simp: worker_start_def reserve_queue_slot_def account_packet_def counters_default_def Let_def)
  then have "\<exists>s. worker_run id 1 [Captured 7, Internal] s \<and> ws_producer s = PSent 1 \<and> ws_consumer s = CIdle \<and> ws_queue s = [7]"
    using worker_run.step[OF _ worker_step.send, of id 1 "[Captured 7]"] by fastforce
  then obtain s where s: "worker_run id 1 [Captured 7, Internal] s" "ws_producer s = PSent 1" "ws_consumer s = CIdle" "ws_queue s = [7 :: nat]"
    by blast
  have r: "worker_run id 1 [Captured 7, Internal, Delivered 7] (s\<lparr>ws_queue := [], ws_consumer := CTaken\<rparr>)"
    using worker_run.step[OF s(1) worker_step.take[OF s(3,4)]] by simp
  from worker_accounting[OF this] s(2) r show ?thesis by (intro exI conjI) auto
qed

end
