(* ===== verification/Downstream.thy ===== *)
theory Downstream
  imports Mtu Protocol
begin

text \<open>
  Publishing on the local network, \<open>src/downstream.rs\<close>: validation of the options for an address
  family and the platform, the datagram parser, and the publisher, which opens one publication
  per family.  The platform capabilities and the raw transmit context of the packet library
  are parameters.  The lemmas show that the publisher, once created, sends exactly the datagrams
  the gateway passes on, whole and unchanged.
\<close>

section \<open>Options\<close>

datatype publication_family = FamilyIpv4 | FamilyIpv6

record downstream_config =
  dc_interface :: "ip_addr option"
  dc_interface_index :: "u32 option"
  dc_loopback :: "bool option"

datatype downstream_config_error =
    DcIpv6LoopbackUnsupported
  | DcInterfaceAddressFamilyMismatch publication_family
  | DcInvalidInterfaceIndex
  | DcIpv4InterfaceIndexUnsupported u32
  | DcRouteSelectedEgressUnsupported publication_family
  | DcFullHeaderIpv6Unsupported bool
  | DcInvalidRawConfiguration string

text \<open>What the packet library says of the platform, and the publication request it checks, as the
  program fills it in.\<close>

record raw_publication_config =
  rpc_family :: publication_family
  rpc_route_selected :: bool
  rpc_outgoing_interface :: "ip_addr option"
  rpc_bind_addr :: "ip_addr option"
  rpc_ipv6_interface_index :: "u32 option"
  rpc_loopback :: "bool option"

record egress_platform =
  route_egress_supported :: "publication_family \<Rightarrow> bool"
  route_selected_full_header :: bool
  explicit_interface_full_header :: bool
  validate_publication :: "raw_publication_config \<Rightarrow> (string, unit) res"

fun protocol_family :: "membership_protocol \<Rightarrow> publication_family" where
  "protocol_family Igmpv3 = FamilyIpv4"
| "protocol_family Mldv2 = FamilyIpv6"

fun family_of :: "ip_addr \<Rightarrow> publication_family" where
  "family_of (V4 _) = FamilyIpv4"
| "family_of (V6 _) = FamilyIpv6"

definition uses_route_selected_egress :: "downstream_config \<Rightarrow> bool" where
  "uses_route_selected_egress config \<longleftrightarrow> dc_interface config = None \<and> dc_interface_index config = None"

definition validate_options_for_family ::
  "downstream_config \<Rightarrow> publication_family \<Rightarrow> (downstream_config_error, unit) res" where
  "validate_options_for_family config family =
     bnd (case dc_interface config of
            Some interface \<Rightarrow> ensure (family_of interface = family) (DcInterfaceAddressFamilyMismatch family)
          | None \<Rightarrow> Ok ()) (\<lambda>_.
     if dc_interface_index config = Some 0 then Err DcInvalidInterfaceIndex else
     bnd (case dc_interface_index config of
            Some index \<Rightarrow> ensure (family \<noteq> FamilyIpv4) (DcIpv4InterfaceIndexUnsupported index)
          | None \<Rightarrow> Ok ()) (\<lambda>_.
     if family = FamilyIpv6 \<and> dc_loopback config = Some True then Err DcIpv6LoopbackUnsupported
     else Ok ()))"

definition validate_options_for_protocol ::
  "downstream_config \<Rightarrow> membership_protocol \<Rightarrow> (downstream_config_error, unit) res" where
  "validate_options_for_protocol config protocol = validate_options_for_family config (protocol_family protocol)"

definition build_publication_config :: "downstream_config \<Rightarrow> publication_family \<Rightarrow> raw_publication_config" where
  "build_publication_config config family =
     (let base = \<lparr>rpc_family = family, rpc_route_selected = False, rpc_outgoing_interface = None, rpc_bind_addr = None,
            rpc_ipv6_interface_index = None, rpc_loopback = None\<rparr>;
          c = (if uses_route_selected_egress config then base\<lparr>rpc_route_selected := True\<rparr>
               else let c = (case dc_interface config of
                        Some interface \<Rightarrow> if family_of interface = family
                          then base\<lparr>rpc_outgoing_interface := Some interface, rpc_bind_addr := Some interface\<rparr> else base
                      | None \<Rightarrow> base)
                    in if family = FamilyIpv6 \<and> dc_interface_index config \<noteq> None
                       then c\<lparr>rpc_ipv6_interface_index := dc_interface_index config\<rparr> else c)
      in case dc_loopback config of Some loopback \<Rightarrow> c\<lparr>rpc_loopback := Some loopback\<rparr> | None \<Rightarrow> c)"

definition validate_for_family ::
  "egress_platform \<Rightarrow> downstream_config \<Rightarrow> publication_family \<Rightarrow> (downstream_config_error, unit) res" where
  "validate_for_family platform config family =
     bnd (validate_options_for_family config family) (\<lambda>_.
     let route_selected = uses_route_selected_egress config in
     if route_selected \<and> \<not> route_egress_supported platform family then Err (DcRouteSelectedEgressUnsupported family)
     else if family = FamilyIpv6 \<and>
       \<not> (if route_selected then route_selected_full_header platform else explicit_interface_full_header platform)
     then Err (DcFullHeaderIpv6Unsupported route_selected)
     else map_err DcInvalidRawConfiguration (validate_publication platform (build_publication_config config family)))"

definition validate_for_protocol ::
  "egress_platform \<Rightarrow> downstream_config \<Rightarrow> membership_protocol \<Rightarrow> (downstream_config_error, unit) res" where
  "validate_for_protocol platform config protocol = validate_for_family platform config (protocol_family protocol)"

definition publication_config ::
  "egress_platform \<Rightarrow> downstream_config \<Rightarrow> publication_family \<Rightarrow> (downstream_config_error, raw_publication_config) res" where
  "publication_config platform config family =
     bnd (validate_for_family platform config family) (\<lambda>_. Ok (build_publication_config config family))"

section \<open>Datagrams\<close>

definition UDP_PROTOCOL :: u8 where "UDP_PROTOCOL = 17"
definition UDP_HEADER_LEN :: nat where "UDP_HEADER_LEN = 8"

record ip_multicast_datagram =
  md_family :: publication_family
  md_source :: ip_addr
  md_group :: ip_addr
  md_ip_protocol :: u8
  md_udp_dst_port :: "u16 option"
  md_datagram_len :: nat

definition parse_udp_dst_port :: "bytes \<Rightarrow> u8 \<Rightarrow> ('e, u16 option) res" where
  "parse_udp_dst_port payload protocol =
     (if protocol \<noteq> UDP_PROTOCOL \<or> length payload < UDP_HEADER_LEN then Ok None else
      bnd (be16_at payload 4) (\<lambda>l16. let udp_len = unat l16 in
      if udp_len < UDP_HEADER_LEN \<or> length payload < udp_len then Ok None else
      bnd (be16_at payload 2) (\<lambda>port. Ok (Some port))))"

definition parse_ipv4_multicast_datagram :: "bytes \<Rightarrow> ('e, ip_multicast_datagram option) res" where
  "parse_ipv4_multicast_datagram d =
     (if length d < IPV4_MIN_HEADER_LEN then Ok None else
      bnd (byte_at d 0) (\<lambda>b0. let ihl = ihl_of b0 in
      if ihl < IPV4_MIN_HEADER_LEN \<or> length d < ihl then Ok None else
      bnd (be16_at d 2) (\<lambda>l16. let total_len = unat l16 in
      if total_len < ihl \<or> length d < total_len then Ok None else
      bnd (slice d 12 16) (\<lambda>s. bnd (slice d 16 20) (\<lambda>g. let grp = from_be g in
      if \<not> ipv4_is_multicast grp then Ok None else
      bnd (byte_at d 9) (\<lambda>proto.
      bnd (slice d ihl total_len) (\<lambda>payload.
      bnd (parse_udp_dst_port payload proto) (\<lambda>port.
      Ok (Some \<lparr>md_family = FamilyIpv4, md_source = V4 (from_be s), md_group = V4 grp, md_ip_protocol = proto,
           md_udp_dst_port = port, md_datagram_len = total_len\<rparr>)))))))))"

definition parse_ipv6_multicast_datagram :: "bytes \<Rightarrow> ('e, ip_multicast_datagram option) res" where
  "parse_ipv6_multicast_datagram d =
     (if length d < IPV6_HEADER_LEN then Ok None else
      bnd (be16_at d 4) (\<lambda>l16. let total_len = IPV6_HEADER_LEN + unat l16 in
      if length d < total_len then Ok None else
      bnd (slice d 8 24) (\<lambda>s. bnd (slice d 24 40) (\<lambda>g. let grp = from_be g in
      if \<not> ipv6_is_multicast grp then Ok None else
      bnd (byte_at d 6) (\<lambda>proto.
      bnd (slice d IPV6_HEADER_LEN total_len) (\<lambda>payload.
      bnd (parse_udp_dst_port payload proto) (\<lambda>port.
      Ok (Some \<lparr>md_family = FamilyIpv6, md_source = V6 (from_be s), md_group = V6 grp, md_ip_protocol = proto,
           md_udp_dst_port = port, md_datagram_len = total_len\<rparr>))))))))"

definition parse_ip_multicast_datagram :: "bytes \<Rightarrow> ('e, ip_multicast_datagram option) res" where
  "parse_ip_multicast_datagram d = (case get_byte d 0 of
       None \<Rightarrow> Ok None
     | Some b0 \<Rightarrow> if drop_bit 4 b0 = 4 then parse_ipv4_multicast_datagram d
                  else if drop_bit 4 b0 = 6 then parse_ipv6_multicast_datagram d else Ok None)"

section \<open>The publisher\<close>

datatype 'm downstream_error = DsConfiguration downstream_config_error | DsSend 'm

record downstream_forward =
  df_source :: ip_addr
  df_group :: ip_addr
  df_ip_protocol :: u8
  df_udp_dst_port :: "u16 option"
  df_datagram_len :: nat
  df_bytes_sent :: nat

record ('c, 'p, 'm) transmit_ops =
  add_publication :: "'c \<Rightarrow> raw_publication_config \<Rightarrow> ('m, 'p) res \<times> 'c"
  send_raw :: "'c \<Rightarrow> 'p \<Rightarrow> bytes \<Rightarrow> ('m, nat) res \<times> 'c"

record ('c, 'p) downstream_publisher =
  dp_config :: downstream_config
  dp_context :: 'c
  dp_publications :: "publication_family \<rightharpoonup> 'p"

definition downstream_new :: "'c \<Rightarrow> downstream_config \<Rightarrow> ('c, 'p) downstream_publisher" where
  "downstream_new new_context config = \<lparr>dp_config = config, dp_context = new_context, dp_publications = Map.empty\<rparr>"

definition publication_for ::
  "egress_platform \<Rightarrow> ('c, 'p, 'm) transmit_ops \<Rightarrow> publication_family \<Rightarrow> ('c, 'p) downstream_publisher
   \<Rightarrow> ('m downstream_error, 'p) res \<times> ('c, 'p) downstream_publisher" where
  "publication_for platform ops family self =
     (case dp_publications self family of
        Some i \<Rightarrow> (Ok i, self)
      | None \<Rightarrow>
          (case map_err DsConfiguration (publication_config platform (dp_config self) family) of
             Err e \<Rightarrow> (Err e, self) | Panic \<Rightarrow> (Panic, self)
           | Ok config \<Rightarrow>
               let (r, ctx) = add_publication ops (dp_context self) config; self = self\<lparr>dp_context := ctx\<rparr> in
               (case map_err DsSend r of
                  Err e \<Rightarrow> (Err e, self) | Panic \<Rightarrow> (Panic, self)
                | Ok i \<Rightarrow> (Ok i, self\<lparr>dp_publications := (dp_publications self)(family \<mapsto> i)\<rparr>))))"

definition downstream_try_new ::
  "egress_platform \<Rightarrow> ('c, 'p, 'm) transmit_ops \<Rightarrow> 'c \<Rightarrow> downstream_config \<Rightarrow> membership_protocol
   \<Rightarrow> ('m downstream_error, ('c, 'p) downstream_publisher) res" where
  "downstream_try_new platform ops new_context config protocol =
     bnd (map_err DsConfiguration (validate_for_protocol platform config protocol)) (\<lambda>_.
     let (r, publisher) = publication_for platform ops (protocol_family protocol) (downstream_new new_context config)
     in bnd r (\<lambda>_. Ok publisher))"

definition forward_ip_datagram ::
  "egress_platform \<Rightarrow> ('c, 'p, 'm) transmit_ops \<Rightarrow> bytes \<Rightarrow> ('c, 'p) downstream_publisher
   \<Rightarrow> ('m downstream_error, downstream_forward option) res \<times> ('c, 'p) downstream_publisher" where
  "forward_ip_datagram platform ops datagram self =
     (case parse_ip_multicast_datagram datagram of
        Err e \<Rightarrow> (Err e, self) | Panic \<Rightarrow> (Panic, self)
      | Ok None \<Rightarrow> (Ok None, self)
      | Ok (Some multicast) \<Rightarrow>
          (case publication_for platform ops (md_family multicast) self of
             (Err e, self) \<Rightarrow> (Err e, self) | (Panic, self) \<Rightarrow> (Panic, self)
           | (Ok publication, self) \<Rightarrow>
               (case slice datagram 0 (md_datagram_len multicast) of
                  Err e \<Rightarrow> (Err e, self) | Panic \<Rightarrow> (Panic, self)
                | Ok packet \<Rightarrow>
                    let (r, ctx) = send_raw ops (dp_context self) publication packet; self = self\<lparr>dp_context := ctx\<rparr> in
                    (bnd (map_err DsSend r) (\<lambda>bytes_sent.
                       Ok (Some \<lparr>df_source = md_source multicast, df_group = md_group multicast,
                         df_ip_protocol = md_ip_protocol multicast, df_udp_dst_port = md_udp_dst_port multicast,
                         df_datagram_len = length packet, df_bytes_sent = bytes_sent\<rparr>)), self))))"

section \<open>What is published\<close>

lemma no_panic_parse_udp_dst_port [simp]: "no_panic (parse_udp_dst_port payload protocol)"
  unfolding parse_udp_dst_port_def UDP_HEADER_LEN_def Let_def by (auto simp: slice_simps)

lemma parse_udp_dst_port_ok: "\<exists>port. (parse_udp_dst_port payload protocol :: ('e, u16 option) res) = Ok port"
  by (auto simp: parse_udp_dst_port_def UDP_HEADER_LEN_def Let_def slice_simps)

lemma parse_ip_multicast_total:
  "\<exists>x. (parse_ip_multicast_datagram d :: ('e, ip_multicast_datagram option) res) = Ok x \<and>
     (case x of None \<Rightarrow> True | Some m \<Rightarrow> md_datagram_len m \<le> length d)"
proof -
  have "\<exists>x. (parse_ipv4_multicast_datagram d :: ('e, ip_multicast_datagram option) res) = Ok x \<and>
     (case x of None \<Rightarrow> True | Some m \<Rightarrow> md_datagram_len m \<le> length d)"
    using parse_udp_dst_port_ok[where ?'e = 'e]
    by (auto simp: parse_ipv4_multicast_datagram_def ip_consts Let_def slice_simps) (metis (lifting) bnd.simps(1) option.simps(5) ip_multicast_datagram.select_convs(6) leI)
  moreover have "\<exists>x. (parse_ipv6_multicast_datagram d :: ('e, ip_multicast_datagram option) res) = Ok x \<and>
     (case x of None \<Rightarrow> True | Some m \<Rightarrow> md_datagram_len m \<le> length d)"
    using parse_udp_dst_port_ok[where ?'e = 'e]
    by (auto simp: parse_ipv6_multicast_datagram_def ip_consts Let_def slice_simps) (metis (lifting) bnd.simps(1) option.simps(5) ip_multicast_datagram.select_convs(6) leI)
  ultimately show ?thesis by (auto simp: parse_ip_multicast_datagram_def split: option.split)
qed

lemma accepted_publishable:
  assumes "parse_multicast_packet d = Ok m"
  shows "\<exists>port. (parse_ip_multicast_datagram d :: ('e, ip_multicast_datagram option) res) =
    Ok (Some \<lparr>md_family = family_of (mp_source m), md_source = mp_source m, md_group = mp_group m,
      md_ip_protocol = mp_ip_protocol m, md_udp_dst_port = port, md_datagram_len = length d\<rparr>)"
proof -
  have ne: "get_byte d 0 = Some (d ! 0)" using assms by (auto simp: parse_multicast_packet_Ok get_byte_def)
  consider (v4) "drop_bit 4 (d ! 0) = 4" "parse_ipv4 d = Ok m" | (v6) "drop_bit 4 (d ! 0) = 6" "parse_ipv6 d = Ok m"
    using assms by (auto simp: parse_multicast_packet_Ok)
  then show ?thesis
  proof cases
    case v4
    obtain port where "(parse_udp_dst_port (drop (ihl_of (d ! 0)) d) (d ! 9) :: ('e, u16 option) res) = Ok port"
      using parse_udp_dst_port_ok by blast
    with v4 ne show ?thesis
      by (auto simp: parse_ip_multicast_datagram_def parse_ipv4_multicast_datagram_def parse_ipv4_Ok ip_consts Let_def slice_simps)
  next
    case v6
    obtain port where "(parse_udp_dst_port (drop 40 d) (d ! 6) :: ('e, u16 option) res) = Ok port"
      using parse_udp_dst_port_ok by blast
    with v6 ne show ?thesis
      by (auto simp: parse_ip_multicast_datagram_def parse_ipv6_multicast_datagram_def parse_ipv6_Ok ip_consts Let_def slice_simps)
  qed
qed

lemma try_new_opens:
  assumes "downstream_try_new platform ops c config protocol = Ok p"
  shows "dp_config p = config" and "\<exists>i. dp_publications p (protocol_family protocol) = Some i"
    and "validate_for_protocol platform config protocol = Ok ()"
  using assms
  by (auto simp: downstream_try_new_def publication_for_def downstream_new_def bnd_eq_Ok case_prod_unfold Let_def
      split: res.splits)

lemma publication_for_keeps:
  "dp_publications self family = Some i \<Longrightarrow> dp_publications (snd (publication_for platform ops f self)) family = Some i"
  by (auto simp: publication_for_def case_prod_unfold Let_def split: option.split res.split)

lemma forward_keeps:
  assumes "dp_publications self family = Some i"
  shows "dp_publications (snd (forward_ip_datagram platform ops d self)) family = Some i"
proof -
  obtain x where x: "parse_ip_multicast_datagram d = Ok x" using parse_ip_multicast_total by blast
  show ?thesis
    using assms publication_for_keeps[OF assms]
    by (auto simp: forward_ip_datagram_def case_prod_unfold Let_def split: option.split res.split)
qed

text \<open>A publisher after having forwarded some datagrams.\<close>

definition forwards ::
  "egress_platform \<Rightarrow> ('c, 'p, 'm) transmit_ops \<Rightarrow> bytes list \<Rightarrow> ('c, 'p) downstream_publisher \<Rightarrow> ('c, 'p) downstream_publisher" where
  "forwards platform ops ds self = fold (\<lambda>d self. snd (forward_ip_datagram platform ops d self)) ds self"

lemma forwards_keeps:
  "dp_publications self family = Some i \<Longrightarrow> dp_publications (forwards platform ops ds self) family = Some i"
  unfolding forwards_def by (induction ds arbitrary: self) (simp_all add: forward_keeps)

section \<open>Properties of the publisher\<close>

text \<open>C32: a publisher created for a protocol publishes what the gateway passes on.  Whatever it
  forwarded before, a datagram of its family that the inner-datagram parser accepts is handed
  to the network once, whole and unchanged, on the publication opened at creation; the only
  failure left is that of the network, and the report names the datagram's source and group.\<close>

theorem downstream_publishes:
  fixes ops :: "('c, 'p, 'm) transmit_ops"
  assumes "downstream_try_new platform ops c config protocol = Ok p" and "parse_multicast_packet d = Ok m"
    and "family_of (mp_source m) = protocol_family protocol"
  shows "\<exists>i port. dp_publications p (protocol_family protocol) = Some i \<and>
    (let self = forwards platform ops ds p; (r, ctx) = send_raw ops (dp_context self) i d in
     forward_ip_datagram platform ops d self =
       (bnd (map_err DsSend r) (\<lambda>n. Ok (Some \<lparr>df_source = mp_source m, df_group = mp_group m,
          df_ip_protocol = mp_ip_protocol m, df_udp_dst_port = port, df_datagram_len = length d, df_bytes_sent = n\<rparr>)),
        self\<lparr>dp_context := ctx\<rparr>))"
proof -
  obtain i where i: "dp_publications p (protocol_family protocol) = Some i" using try_new_opens(2)[OF assms(1)] by blast
  obtain port where "(parse_ip_multicast_datagram d :: ('m downstream_error, ip_multicast_datagram option) res) =
    Ok (Some \<lparr>md_family = family_of (mp_source m), md_source = mp_source m, md_group = mp_group m,
      md_ip_protocol = mp_ip_protocol m, md_udp_dst_port = port, md_datagram_len = length d\<rparr>)"
    using accepted_publishable[OF assms(2)] by blast
  then show ?thesis
    using i forwards_keeps[OF i, of platform ops ds] assms(3)
    by (intro exI[of _ i] exI[of _ port])
       (simp add: forward_ip_datagram_def publication_for_def slice_ok case_prod_unfold Let_def)
qed

definition sample_platform :: egress_platform where
  "sample_platform = \<lparr>route_egress_supported = (\<lambda>_. True), route_selected_full_header = True,
     explicit_interface_full_header = False, validate_publication = (\<lambda>_. Ok ())\<rparr>"

definition sample_transmit :: "(bytes list, nat, string) transmit_ops" where
  "sample_transmit = \<lparr>add_publication = (\<lambda>c _. (Ok 1, c)), send_raw = (\<lambda>c _ b. (Ok (length b), c @ [b]))\<rparr>"

definition sample_downstream :: "(bytes list, nat) downstream_publisher" where
  "sample_downstream = \<lparr>dp_config = \<lparr>dc_interface = None, dc_interface_index = None, dc_loopback = None\<rparr>,
     dp_context = [], dp_publications = [FamilyIpv4 \<mapsto> 1]\<rparr>"

theorem downstream_publishes_witness:
  "dp_context (forwards sample_platform sample_transmit [sample_ipv4] sample_downstream) = [sample_ipv4]"
proof -
  have "downstream_try_new sample_platform sample_transmit [] (dp_config sample_downstream) Igmpv3 = Ok sample_downstream"
    by (simp add: downstream_try_new_def validate_for_protocol_def validate_for_family_def validate_options_for_family_def
        publication_for_def publication_config_def downstream_new_def sample_platform_def sample_transmit_def sample_downstream_def)
  from downstream_publishes[OF this parse_sample_ipv4, of "[]"] show ?thesis
    by (auto simp: forwards_def sample_transmit_def sample_downstream_def)
qed

end
