(* ===== verification/Dns.thy ===== *)
theory Dns
  imports Addr
begin

text \<open>
  The DNS codec of relay discovery, the lower half of \<open>src/driad.rs\<close>: names with and without
  compression, queries, response validation, AMTRELAY records, and the two answer parsers.
  A Rust string is the list of its UTF-8 bytes.  The lemmas show that no parser panics or fails
  to end on any bytes, that a written name reads after, that a response to an own query
  validates, and which AMTRELAY data is accepted.
\<close>

section \<open>Strings\<close>

type_synonym dname = bytes

definition DOT :: u8 where "DOT = 46"

definition continuation :: "u8 \<Rightarrow> bool" where
  "continuation b \<longleftrightarrow> 0x80 \<le> b \<and> b \<le> 0xbf"

text \<open>\<open>std::str::from_utf8\<close>: the well-formed byte sequences of the Unicode standard.\<close>

fun utf8_valid :: "bytes \<Rightarrow> bool" where
  "utf8_valid [] = True"
| "utf8_valid (a # bs) =
     (if a < 0x80 then utf8_valid bs else
      case bs of [] \<Rightarrow> False | b # cs \<Rightarrow>
      if 0xc2 \<le> a \<and> a \<le> 0xdf then continuation b \<and> utf8_valid cs else
      case cs of [] \<Rightarrow> False | c # ds \<Rightarrow>
      if 0xe0 \<le> a \<and> a \<le> 0xef then
        continuation b \<and> (a = 0xe0 \<longrightarrow> 0xa0 \<le> b) \<and> (a = 0xed \<longrightarrow> b \<le> 0x9f) \<and> continuation c \<and> utf8_valid ds else
      case ds of [] \<Rightarrow> False | d # es \<Rightarrow>
      0xf0 \<le> a \<and> a \<le> 0xf4 \<and> continuation b \<and> (a = 0xf0 \<longrightarrow> 0x90 \<le> b) \<and> (a = 0xf4 \<longrightarrow> b \<le> 0x8f) \<and>
      continuation c \<and> continuation d \<and> utf8_valid es)"

definition trim_end_dots :: "dname \<Rightarrow> dname" where
  "trim_end_dots s = rev (dropWhile (\<lambda>b. b = DOT) (rev s))"

definition to_lower :: "u8 \<Rightarrow> u8" where
  "to_lower b = (if 65 \<le> b \<and> b \<le> 90 then b + 32 else b)"

definition to_ascii_lowercase :: "dname \<Rightarrow> dname" where
  "to_ascii_lowercase s = map to_lower s"

definition eq_ignore_ascii_case :: "dname \<Rightarrow> dname \<Rightarrow> bool" where
  "eq_ignore_ascii_case a b \<longleftrightarrow> to_ascii_lowercase a = to_ascii_lowercase b"

fun split_dots :: "dname \<Rightarrow> dname list" where
  "split_dots [] = [[]]"
| "split_dots (c # cs) =
     (if c = DOT then [] # split_dots cs
      else case split_dots cs of l # ls \<Rightarrow> (c # l) # ls | [] \<Rightarrow> [[c]])"

fun join_dots :: "dname list \<Rightarrow> dname" where
  "join_dots [] = []"
| "join_dots [l] = l"
| "join_dots (l # ls) = l @ DOT # join_dots ls"

definition get_range :: "bytes \<Rightarrow> nat \<Rightarrow> nat \<Rightarrow> bytes option" where
  "get_range bs a b = (if a \<le> b \<and> b \<le> length bs then Some (take (b - a) (drop a bs)) else None)"

section \<open>Errors and records\<close>

datatype driad_error =
    NoResolvers
  | InsecureResolver socket_addr
  | NoRecords dname
  | NoUsableRelay
  | NoRelayPresent
  | AliasLoop dname
  | AliasDepthExceeded dname
  | DnsTruncated string
  | InvalidDnsName dname
  | InvalidDnsPointer
  | InvalidResponseId u16 u16
  | DnsResponseCode u8
  | InvalidDnsFlags u16
  | InvalidQuestion
  | InvalidRelayType u8
  | InvalidRelayLength u8 nat nat
  | InvalidRelayName
  | InvalidDriadConfig string
  | Randomness string
  | DriadIo string

datatype amt_relay_target = NoRelay | RelayIpv4 ipv4 | RelayIpv6 ipv6 | RelayName dname

record amt_relay_record =
  ar_precedence :: u8
  ar_discovery_optional :: bool
  ar_target :: amt_relay_target

record 'a timed =
  timed_value :: 'a
  timed_ttl :: duration

record dns_amt_relay_response =
  rr_records :: "amt_relay_record timed list"
  rr_aliases :: "dname timed list"

record dns_address_response =
  da_addresses :: "ip_addr timed list"
  da_alias :: "dname timed option"

definition AMTRELAY_RRTYPE :: u16 where "AMTRELAY_RRTYPE = 260"
definition DNS_CLASS_IN :: u16 where "DNS_CLASS_IN = 1"
definition DNS_TYPE_A :: u16 where "DNS_TYPE_A = 1"
definition DNS_TYPE_CNAME :: u16 where "DNS_TYPE_CNAME = 5"
definition DNS_TYPE_AAAA :: u16 where "DNS_TYPE_AAAA = 28"
definition DNS_TYPE_DNAME :: u16 where "DNS_TYPE_DNAME = 39"
definition DNS_HEADER_LEN :: nat where "DNS_HEADER_LEN = 12"

lemmas dns_consts = AMTRELAY_RRTYPE_def DNS_CLASS_IN_def DNS_TYPE_A_def DNS_TYPE_CNAME_def DNS_TYPE_AAAA_def
  DNS_TYPE_DNAME_def DNS_HEADER_LEN_def

section \<open>Names\<close>

definition dns_name_eq :: "dname \<Rightarrow> dname \<Rightarrow> bool" where
  "dns_name_eq left right \<longleftrightarrow> eq_ignore_ascii_case (trim_end_dots left) (trim_end_dots right)"

definition put_dns_name :: "bytes \<Rightarrow> dname \<Rightarrow> (driad_error, bytes) res" where
  "put_dns_name out name =
     (let name = trim_end_dots name in
      if name = [] then Ok (out @ [0])
      else if 253 < length name then Err (InvalidDnsName name) else
      bnd (for_each (split_dots name) (\<lambda>label out.
             if label = [] \<or> 63 < length label then Err (InvalidDnsName name)
             else Ok (out @ [of_nat (length label)] @ label)) out) (\<lambda>out.
      Ok (out @ [0])))"

text \<open>The two loops read at most 128 lengths or pointers.\<close>

fun uncompressed_walk :: "nat \<Rightarrow> bytes \<Rightarrow> dname list \<Rightarrow> nat \<Rightarrow> (driad_error, dname \<times> nat) res" where
  "uncompressed_walk 0 input labels cursor = Err InvalidRelayName"
| "uncompressed_walk (Suc n) input labels cursor =
     bnd (ok_or (get_byte input cursor) (DnsTruncated ''AMTRELAY domain name'')) (\<lambda>len.
     if len AND 0xc0 \<noteq> 0 then Err InvalidRelayName else
     let cursor = cursor + 1 in
     if len = 0 then (if 255 < cursor then Err InvalidRelayName else Ok (join_dots labels, cursor)) else
     bnd (ok_or (checked_add_usize cursor (unat len)) InvalidRelayName) (\<lambda>label_end.
     bnd (ok_or (get_range input cursor label_end) (DnsTruncated ''AMTRELAY domain label'')) (\<lambda>label.
     if \<not> utf8_valid label then Err InvalidRelayName
     else if 255 \<le> label_end then Err InvalidRelayName
     else uncompressed_walk n input (labels @ [label]) label_end)))"

definition parse_uncompressed_dns_name :: "bytes \<Rightarrow> (driad_error, dname \<times> nat) res" where
  "parse_uncompressed_dns_name input = uncompressed_walk 128 input [] 0"

fun name_walk :: "nat \<Rightarrow> bytes \<Rightarrow> dname list \<Rightarrow> nat \<Rightarrow> nat option \<Rightarrow> (driad_error, dname \<times> nat) res" where
  "name_walk 0 message labels cursor next_offset = Err InvalidDnsPointer"
| "name_walk (Suc n) message labels cursor next_offset =
     bnd (ok_or (get_byte message cursor) (DnsTruncated ''DNS name'')) (\<lambda>len.
     if len AND 0xc0 = 0 then
       let cursor = cursor + 1 in
       if len = 0 then Ok (join_dots labels, case next_offset of Some next \<Rightarrow> next | None \<Rightarrow> cursor) else
       bnd (ok_or (checked_add_usize cursor (unat len)) (DnsTruncated ''DNS label'')) (\<lambda>label_end.
       bnd (ok_or (get_range message cursor label_end) (DnsTruncated ''DNS label'')) (\<lambda>label.
       if \<not> utf8_valid label then Err InvalidRelayName
       else name_walk n message (labels @ [label]) label_end next_offset))
     else if len AND 0xc0 = 0xc0 then
       bnd (ok_or (get_byte message (cursor + 1)) (DnsTruncated ''DNS pointer'')) (\<lambda>pointer_tail.
       let pointer = push_bit 8 (unat (len AND 0x3f)) OR unat pointer_tail in
       if length message \<le> pointer then Err InvalidDnsPointer
       else name_walk n message labels pointer (Some (case next_offset of Some next \<Rightarrow> next | None \<Rightarrow> cursor + 2)))
     else Err InvalidDnsPointer)"

definition parse_dns_name :: "bytes \<Rightarrow> nat \<Rightarrow> (driad_error, dname \<times> nat) res" where
  "parse_dns_name message offset = name_walk 128 message [] offset None"

definition apply_dname :: "dname \<Rightarrow> dname \<Rightarrow> dname \<Rightarrow> dname option" where
  "apply_dname query_name owner target =
     (let query = trim_end_dots query_name; owner = trim_end_dots owner; target = trim_end_dots target in
      if eq_ignore_ascii_case query owner then Some target else
      let suffix = DOT # owner;
          q = to_ascii_lowercase query; s = to_ascii_lowercase suffix
      in if length s \<le> length q \<and> drop (length q - length s) q = s
         then Some (take (length query - length suffix) query @ DOT # target) else None)"

section \<open>Messages\<close>

definition dns_read_u16 :: "bytes \<Rightarrow> nat \<Rightarrow> (driad_error, u16) res" where
  "dns_read_u16 input offset =
     bnd (ok_or (get_range input offset (offset + 2)) (DnsTruncated ''u16'')) (\<lambda>bs. Ok (from_be bs))"

definition dns_read_u32 :: "bytes \<Rightarrow> nat \<Rightarrow> (driad_error, u32) res" where
  "dns_read_u32 input offset =
     bnd (ok_or (get_range input offset (offset + 4)) (DnsTruncated ''u32'')) (\<lambda>bs. Ok (from_be bs))"

definition build_dns_query :: "u16 \<Rightarrow> dname \<Rightarrow> u16 \<Rightarrow> (driad_error, bytes) res" where
  "build_dns_query i name qtype =
     bnd (put_dns_name (be_bytes 2 i @ be_bytes 2 (0x0100 :: u16) @ be_bytes 2 (1 :: u16) @ be_bytes 2 (0 :: u16)
            @ be_bytes 2 (0 :: u16) @ be_bytes 2 (0 :: u16)) name) (\<lambda>out.
     Ok (out @ be_bytes 2 qtype @ be_bytes 2 DNS_CLASS_IN))"

definition require_relay_len :: "u8 \<Rightarrow> bytes \<Rightarrow> nat \<Rightarrow> (driad_error, unit) res" where
  "require_relay_len relay_type relay expected =
     ensure (length relay = expected) (InvalidRelayLength relay_type expected (length relay))"

definition parse_amtrelay_rdata :: "bytes \<Rightarrow> (driad_error, amt_relay_record) res" where
  "parse_amtrelay_rdata rdata =
     (if length rdata < 2 then Err (DnsTruncated ''AMTRELAY RDATA'') else
      bnd (byte_at rdata 0) (\<lambda>precedence.
      bnd (byte_at rdata 1) (\<lambda>b1.
      let discovery_optional = (b1 AND 0x80 \<noteq> 0); relay_type = b1 AND 0x7f in
      bnd (slice_from rdata 2) (\<lambda>relay.
      bnd (if relay_type = 0 then bnd (require_relay_len relay_type relay 0) (\<lambda>_. Ok NoRelay)
           else if relay_type = 1 then bnd (require_relay_len relay_type relay 4) (\<lambda>_. Ok (RelayIpv4 (from_be relay)))
           else if relay_type = 2 then bnd (require_relay_len relay_type relay 16) (\<lambda>_. Ok (RelayIpv6 (from_be relay)))
           else if relay_type = 3 then
             bnd (parse_uncompressed_dns_name relay) (\<lambda>(name, consumed).
             if consumed \<noteq> length relay \<or> name = [] then Err InvalidRelayName else Ok (RelayName name))
           else Err (InvalidRelayType relay_type)) (\<lambda>target.
      Ok \<lparr>ar_precedence = precedence, ar_discovery_optional = discovery_optional, ar_target = target\<rparr>)))))"

definition validate_dns_response :: "u16 \<Rightarrow> dname \<Rightarrow> u16 \<Rightarrow> bytes \<Rightarrow> (driad_error, nat \<times> nat) res" where
  "validate_dns_response expected_id query_name query_type response =
     (if length response < DNS_HEADER_LEN then Err (DnsTruncated ''DNS header'') else
      bnd (dns_read_u16 response 0) (\<lambda>actual_id.
      if actual_id \<noteq> expected_id then Err (InvalidResponseId expected_id actual_id) else
      bnd (dns_read_u16 response 2) (\<lambda>flags.
      if flags AND 0x8000 = 0 \<or> flags AND 0x7800 \<noteq> 0 \<or> flags AND 0x0200 \<noteq> 0 \<or> flags AND 0x0040 \<noteq> 0
      then Err (InvalidDnsFlags flags) else
      let rcode = ucast (flags AND 0x000f) :: u8 in
      if rcode \<noteq> 0 then Err (DnsResponseCode rcode) else
      bnd (dns_read_u16 response 4) (\<lambda>qdcount.
      if qdcount \<noteq> 1 then Err InvalidQuestion else
      bnd (parse_dns_name response DNS_HEADER_LEN) (\<lambda>(actual_name, next).
      if length response < next + 4 \<or> \<not> dns_name_eq actual_name query_name then Err InvalidQuestion else
      bnd (dns_read_u16 response next) (\<lambda>qtype.
      if qtype \<noteq> query_type then Err InvalidQuestion else
      bnd (dns_read_u16 response (next + 2)) (\<lambda>qclass.
      if qclass \<noteq> DNS_CLASS_IN then Err InvalidQuestion else
      bnd (dns_read_u16 response 6) (\<lambda>ancount. Ok (unat ancount, next + 4)))))))))"

text \<open>The fixed part of an answer at \<open>offset\<close>: owner, type, class, lifetime, and the start and end
  of its data; \<open>what\<close> names the answer in the errors.\<close>

definition parse_answer_header ::
  "string \<Rightarrow> bytes \<Rightarrow> nat \<Rightarrow> (driad_error, dname \<times> u16 \<times> u16 \<times> duration \<times> nat \<times> nat) res" where
  "parse_answer_header what response offset =
     bnd (parse_dns_name response offset) (\<lambda>(owner, offset).
     if length response < offset + 10 then Err (DnsTruncated what) else
     bnd (dns_read_u16 response offset) (\<lambda>rrtype.
     bnd (dns_read_u16 response (offset + 2)) (\<lambda>rrclass.
     bnd (dns_read_u32 response (offset + 4)) (\<lambda>ttl.
     bnd (dns_read_u16 response (offset + 8)) (\<lambda>rdlen.
     let offset = offset + 10 in
     bnd (ok_or (checked_add_usize offset (unat rdlen)) (DnsTruncated (what @ '' RDATA''))) (\<lambda>rdata_end.
     if length response < rdata_end then Err (DnsTruncated (what @ '' RDATA'')) else
     Ok (owner, rrtype, rrclass, from_secs (unat ttl), offset, rdata_end)))))))"

definition amtrelay_answer ::
  "dname \<Rightarrow> bytes \<Rightarrow> nat \<times> dns_amt_relay_response \<Rightarrow> (driad_error, nat \<times> dns_amt_relay_response) res" where
  "amtrelay_answer query_name response = (\<lambda>(offset, acc).
     bnd (parse_answer_header ''answer'' response offset) (\<lambda>(owner, rrtype, rrclass, ttl, offset, rdata_end).
     bnd (if rrclass = DNS_CLASS_IN \<and> rrtype = AMTRELAY_RRTYPE \<and> dns_name_eq owner query_name then
            bnd (slice response offset rdata_end) (\<lambda>rdata.
            case parse_amtrelay_rdata rdata of
              Ok record \<Rightarrow> Ok (acc\<lparr>rr_records := rr_records acc @ [\<lparr>timed_value = record, timed_ttl = ttl\<rparr>]\<rparr>)
            | Err _ \<Rightarrow> Ok acc | Panic \<Rightarrow> Panic)
          else if rrclass = DNS_CLASS_IN \<and> rrtype = DNS_TYPE_CNAME \<and> dns_name_eq owner query_name then
            bnd (parse_dns_name response offset) (\<lambda>(alias, consumed).
            Ok (if consumed = rdata_end
                then acc\<lparr>rr_aliases := rr_aliases acc @ [\<lparr>timed_value = alias, timed_ttl = ttl\<rparr>]\<rparr> else acc))
          else if rrclass = DNS_CLASS_IN \<and> rrtype = DNS_TYPE_DNAME then
            bnd (parse_dns_name response offset) (\<lambda>(target, consumed).
            Ok (if consumed = rdata_end
                then (case apply_dname query_name owner target of
                    Some alias \<Rightarrow> acc\<lparr>rr_aliases := rr_aliases acc @ [\<lparr>timed_value = alias, timed_ttl = ttl\<rparr>]\<rparr>
                  | None \<Rightarrow> acc)
                else acc))
          else Ok acc) (\<lambda>acc. Ok (rdata_end, acc))))"

definition parse_dns_response :: "u16 \<Rightarrow> dname \<Rightarrow> bytes \<Rightarrow> (driad_error, dns_amt_relay_response) res" where
  "parse_dns_response expected_id query_name response =
     bnd (validate_dns_response expected_id query_name AMTRELAY_RRTYPE response) (\<lambda>(ancount, offset).
     bnd (for_each [0..<ancount] (\<lambda>_. amtrelay_answer query_name response) (offset, \<lparr>rr_records = [], rr_aliases = []\<rparr>))
       (\<lambda>(_, r). Ok r))"

definition address_answer ::
  "dname \<Rightarrow> u16 \<Rightarrow> bytes \<Rightarrow> nat \<times> dns_address_response \<Rightarrow> (driad_error, nat \<times> dns_address_response) res" where
  "address_answer query_name query_type response = (\<lambda>(offset, acc).
     bnd (parse_answer_header ''address answer'' response offset) (\<lambda>(owner, rrtype, rrclass, ttl, offset, rdata_end).
     let rdlen = rdata_end - offset in
     bnd (if rrclass = DNS_CLASS_IN \<and> dns_name_eq owner query_name then
            if rrtype = DNS_TYPE_A \<and> rdlen = 4 \<and> query_type = DNS_TYPE_A then
              bnd (slice response offset (offset + 4)) (\<lambda>bs.
              Ok (acc\<lparr>da_addresses := da_addresses acc @ [\<lparr>timed_value = V4 (from_be bs), timed_ttl = ttl\<rparr>]\<rparr>))
            else if rrtype = DNS_TYPE_AAAA \<and> rdlen = 16 \<and> query_type = DNS_TYPE_AAAA then
              bnd (slice response offset rdata_end) (\<lambda>bs.
              Ok (acc\<lparr>da_addresses := da_addresses acc @ [\<lparr>timed_value = V6 (from_be bs), timed_ttl = ttl\<rparr>]\<rparr>))
            else if rrtype = DNS_TYPE_CNAME then
              bnd (parse_dns_name response offset) (\<lambda>(name, consumed).
              Ok (if consumed = rdata_end then acc\<lparr>da_alias := Some \<lparr>timed_value = name, timed_ttl = ttl\<rparr>\<rparr> else acc))
            else Ok acc
          else Ok acc) (\<lambda>acc. Ok (rdata_end, acc))))"

definition parse_address_response ::
  "u16 \<Rightarrow> dname \<Rightarrow> u16 \<Rightarrow> bytes \<Rightarrow> (driad_error, dns_address_response) res" where
  "parse_address_response expected_id query_name query_type response =
     bnd (validate_dns_response expected_id query_name query_type response) (\<lambda>(ancount, offset).
     bnd (for_each [0..<ancount] (\<lambda>_. address_answer query_name query_type response)
            (offset, \<lparr>da_addresses = [], da_alias = None\<rparr>)) (\<lambda>(_, r). Ok r))"

section \<open>Splitting, joining and UTF-8\<close>

lemma split_dots_not_Nil [simp]: "split_dots s \<noteq> []"
  by (induction s) (auto split: list.split)

lemma split_dots_Cons:
  "c \<noteq> DOT \<Longrightarrow> split_dots (c # cs) = (c # hd (split_dots cs)) # tl (split_dots cs)"
  by (cases "split_dots cs") (auto simp: split_dots_not_Nil)

lemma join_dots_Cons: "ls \<noteq> [] \<Longrightarrow> join_dots (l # ls) = l @ DOT # join_dots ls"
  by (cases ls) auto

lemma join_dots_head: "join_dots ((c # l) # ls) = c # join_dots (l # ls)"
  by (cases ls) auto

lemma join_split_dots [simp]: "join_dots (split_dots s) = s"
proof (induction s)
  case (Cons c cs)
  show ?case
  proof (cases "c = DOT")
    case True
    then show ?thesis using Cons by (simp add: join_dots_Cons)
  next
    case False
    then show ?thesis using Cons by (simp add: split_dots_Cons join_dots_head del: split_dots.simps(2))
  qed
qed simp

lemma length_join_dots:
  "ls \<noteq> [] \<Longrightarrow> length (join_dots ls) + 1 = sum_list (map (\<lambda>l. length l + 1) ls)"
  by (induction ls rule: join_dots.induct) auto

lemma not_continuation_DOT [simp]: "\<not> continuation DOT"
  by (simp add: continuation_def DOT_def)

lemma DOT_small [simp]: "DOT < 0x80"
  by (simp add: DOT_def)

text \<open>A dot never stands inside a multi-byte character.\<close>

lemma utf8_valid_dot: "utf8_valid (a @ DOT # b) \<longleftrightarrow> utf8_valid a \<and> utf8_valid b"
proof (induction a rule: utf8_valid.induct)
  case (2 a bs)
  show ?case
  proof (cases "a < 0x80")
    case True
    then show ?thesis using "2.IH"(1) by simp
  next
    case False
    show ?thesis
    proof (cases bs)
      case Nil
      then show ?thesis using False by (auto split: list.split)
    next
      case b: (Cons b1 cs)
      show ?thesis
      proof (cases cs)
        case Nil
        then show ?thesis using False b "2.IH"(2)[OF False b] by (auto split: list.split)
      next
        case c: (Cons c1 ds)
        show ?thesis
        proof (cases ds)
          case Nil
          then show ?thesis using False b c "2.IH"(2)[OF False b] "2.IH"(3)[OF False b _ c] by auto
        next
          case (Cons d1 es)
          then show ?thesis
            using False b c "2.IH"(2)[OF False b] "2.IH"(3)[OF False b _ c] "2.IH"(4)[OF False b _ c _ Cons] by auto
        qed
      qed
    qed
  qed
qed simp

lemma utf8_valid_join: "utf8_valid (join_dots ls) \<longleftrightarrow> list_all utf8_valid ls"
  by (induction ls rule: join_dots.induct) (auto simp: utf8_valid_dot)

section \<open>Names on the wire\<close>

text \<open>What a list of labels looks like in a message, and which labels a message can carry.\<close>

definition enc_labels :: "dname list \<Rightarrow> bytes" where
  "enc_labels ls = concat (map (\<lambda>l. of_nat (length l) # l) ls)"

definition label_ok :: "dname \<Rightarrow> bool" where
  "label_ok l \<longleftrightarrow> l \<noteq> [] \<and> length l \<le> 63 \<and> utf8_valid l"

lemma enc_labels_simps [simp]:
  "enc_labels [] = []" "enc_labels (l # ls) = of_nat (length l) # l @ enc_labels ls"
  by (simp_all add: enc_labels_def)

lemma length_enc_labels: "length (enc_labels ls) = sum_list (map (\<lambda>l. length l + 1) ls)"
  by (induction ls) auto

lemma label_length_byte:
  assumes "label_ok l"
  shows "of_nat (length l) AND (0xc0 :: u8) = 0" "of_nat (length l) \<noteq> (0 :: u8)" "unat (of_nat (length l) :: u8) = length l"
proof -
  have n: "length l < 64" "length l \<noteq> 0" using assms by (auto simp: label_ok_def)
  then show u: "unat (of_nat (length l) :: u8) = length l" by (simp add: unat_of_nat)
  then show "of_nat (length l) \<noteq> (0 :: u8)" using n(2) by (metis unsigned_0)
  have "\<not> bit (length l) k" if "6 \<le> k" for k
  proof -
    have "length l < 2 ^ k" using n(1) power_increasing[OF that, of "2 :: nat"] by simp
    then show ?thesis by (simp add: bit_iff_odd)
  qed
  moreover have "k = 6 \<or> k = 7" if "bit (0xc0 :: u8) k" for k
    using that by (auto simp: bit_simps bit_numeral_rec dest!: bit_imp_le_length split: nat.splits)
  ultimately show "of_nat (length l) AND (0xc0 :: u8) = 0"
    by (intro bit_word_eqI) (force simp: bit_simps)
qed

lemma get_byte_middle [simp]: "get_byte (a @ b # c) (length a) = Some b"
  by (simp add: get_byte_def)

lemma get_range_middle: "get_range (a @ l @ b) (length a) (length a + length l) = Some l"
  by (simp add: get_range_def)

lemma name_walk_labels:
  assumes "list_all label_ok ls" and "length message < 2 ^ 64" and "message = front @ enc_labels ls @ 0 # rest"
  shows "name_walk (Suc (length ls + n)) message labels (length front) nxt =
    Ok (join_dots (labels @ ls), case nxt of Some k \<Rightarrow> k | None \<Rightarrow> length front + length (enc_labels ls) + 1)"
  using assms
proof (induction ls arbitrary: labels front)
  case Nil
  then show ?case by (simp split: option.split)
next
  case (Cons l ls)
  let ?front = "front @ of_nat (length l) # l"
  have m: "message = ?front @ enc_labels ls @ 0 # rest" using Cons.prems(3) by simp
  have l: "label_ok l" and ls: "list_all label_ok ls" using Cons.prems(1) by simp_all
  note IH = Cons.IH[OF ls Cons.prems(2) m, of "labels @ [l]"]
  have "get_byte message (length front) = Some (of_nat (length l))" using Cons.prems(3) by simp
  moreover have "get_range message (Suc (length front)) (Suc (length front + length l)) = Some l"
    using get_range_middle[of "front @ [of_nat (length l)]" l "enc_labels ls @ 0 # rest"] Cons.prems(3) by simp
  moreover have "Suc (length front + length l) < 2 ^ 64" using Cons.prems(2) m by simp
  ultimately show ?case
    using IH l by (simp add: label_length_byte[OF l] checked_add_usize_def label_ok_def add.assoc split: option.splits)
qed

lemma uncompressed_walk_labels:
  assumes "list_all label_ok ls" and "message = front @ enc_labels ls @ 0 # rest"
    and "length front + length (enc_labels ls) < 255"
  shows "uncompressed_walk (Suc (length ls + n)) message labels (length front) =
    Ok (join_dots (labels @ ls), length front + length (enc_labels ls) + 1)"
  using assms
proof (induction ls arbitrary: labels front)
  case Nil
  then show ?case by simp
next
  case (Cons l ls)
  let ?front = "front @ of_nat (length l) # l"
  have m: "message = ?front @ enc_labels ls @ 0 # rest" using Cons.prems(2) by simp
  have l: "label_ok l" and ls: "list_all label_ok ls" using Cons.prems(1) by simp_all
  have "length ?front + length (enc_labels ls) < 255" using Cons.prems(3) by simp
  note IH = Cons.IH[OF ls m this, of "labels @ [l]"]
  have "get_byte message (length front) = Some (of_nat (length l))" using Cons.prems(2) by simp
  moreover have "get_range message (Suc (length front)) (Suc (length front + length l)) = Some l"
    using get_range_middle[of "front @ [of_nat (length l)]" l "enc_labels ls @ 0 # rest"] Cons.prems(2) by simp
  ultimately show ?case
    using IH l Cons.prems(3) by (simp add: label_length_byte[OF l] checked_add_usize_def label_ok_def)
qed

lemma labels_within_loop:
  assumes "list_all label_ok ls" and "length (join_dots ls) \<le> 253"
  shows "length ls \<le> 127" "length (enc_labels ls) \<le> 254"
proof -
  have "length (enc_labels ls) \<le> length (join_dots ls) + 1"
    using length_join_dots[of ls] by (cases "ls = []") (simp_all add: length_enc_labels)
  moreover have "2 * length ls \<le> length (enc_labels ls)"
    using assms(1)
  proof (induction ls)
    case (Cons l ls)
    then have "1 \<le> length l" by (cases l) (simp_all add: label_ok_def)
    then show ?case using Cons by (simp del: One_nat_def)
  qed simp
  ultimately show "length ls \<le> 127" "length (enc_labels ls) \<le> 254" using assms(2) by simp_all
qed

text \<open>The labels of a name, none for the root.\<close>

definition name_labels :: "dname \<Rightarrow> dname list" where
  "name_labels name = (let t = trim_end_dots name in if t = [] then [] else split_dots t)"

lemma join_name_labels [simp]: "join_dots (name_labels name) = trim_end_dots name"
  by (simp add: name_labels_def Let_def)

lemma put_dns_name_Ok:
  "put_dns_name out name = Ok message \<longleftrightarrow> length (trim_end_dots name) \<le> 253 \<and>
     list_all (\<lambda>l. l \<noteq> [] \<and> length l \<le> 63) (name_labels name) \<and> message = out @ enc_labels (name_labels name) @ [0]"
proof -
  have "for_each ls (\<lambda>label out. if label = [] \<or> 63 < length label then Err (InvalidDnsName x)
             else Ok (out @ [of_nat (length label)] @ label)) out = Ok m \<longleftrightarrow>
    list_all (\<lambda>l. l \<noteq> [] \<and> length l \<le> 63) ls \<and> m = out @ enc_labels ls" for ls out m x
    by (induction ls arbitrary: out) auto
  then show ?thesis by (auto simp: put_dns_name_def name_labels_def Let_def bnd_eq_Ok)
qed

lemma utf8_valid_trim: "utf8_valid name \<Longrightarrow> utf8_valid (trim_end_dots name)"
proof (induction name rule: rev_induct)
  case (snoc b bs)
  show ?case
  proof (cases "b = DOT")
    case True
    then show ?thesis using snoc utf8_valid_dot[of bs "[]"] by (simp add: trim_end_dots_def)
  qed (use snoc in \<open>simp add: trim_end_dots_def\<close>)
qed (simp add: trim_end_dots_def)

lemma written_labels_ok:
  assumes "put_dns_name out name = Ok message" "utf8_valid name"
  shows "list_all label_ok (name_labels name)"
proof -
  have "list_all utf8_valid (name_labels name)"
    using utf8_valid_trim[OF assms(2)] by (simp add: utf8_valid_join[symmetric])
  then show ?thesis using assms(1) by (simp add: put_dns_name_Ok list_all_iff label_ok_def)
qed

lemma put_dns_name_parses:
  assumes "put_dns_name out name = Ok message" and "utf8_valid name" and "length (message @ rest) < 2 ^ 64"
  shows "parse_dns_name (message @ rest) (length out) = Ok (trim_end_dots name, length message)"
proof -
  let ?ls = "name_labels name"
  have ok: "list_all label_ok ?ls" by (rule written_labels_ok[OF assms(1,2)])
  have m: "message @ rest = out @ enc_labels ?ls @ 0 # rest" and short: "length (join_dots ?ls) \<le> 253"
    using assms(1) by (simp_all add: put_dns_name_Ok)
  have "Suc (length ?ls + (127 - length ?ls)) = 128" using labels_within_loop(1)[OF ok short] by simp
  with name_walk_labels[OF ok assms(3) m, of "127 - length ?ls" "[]" None] assms(1) show ?thesis
    by (simp add: parse_dns_name_def put_dns_name_Ok)
qed

lemma put_dns_name_parses_uncompressed:
  assumes "put_dns_name [] name = Ok message" and "utf8_valid name"
  shows "parse_uncompressed_dns_name message = Ok (trim_end_dots name, length message)"
proof -
  let ?ls = "name_labels name"
  have ok: "list_all label_ok ?ls" by (rule written_labels_ok[OF assms])
  have m: "message = [] @ enc_labels ?ls @ 0 # []" and short: "length (join_dots ?ls) \<le> 253"
    using assms(1) by (simp_all add: put_dns_name_Ok)
  have "Suc (length ?ls + (127 - length ?ls)) = 128" using labels_within_loop(1)[OF ok short] by simp
  with uncompressed_walk_labels[OF ok m, of "127 - length ?ls" "[]"] labels_within_loop(2)[OF ok short] assms(1)
  show ?thesis by (simp add: parse_uncompressed_dns_name_def put_dns_name_Ok)
qed

section \<open>Panic freedom\<close>

lemma no_panic_read [simp]: "no_panic (dns_read_u16 d n)" "no_panic (dns_read_u32 d n)"
  by (auto simp: dns_read_u16_def dns_read_u32_def)

lemma no_panic_name_walk [simp]: "no_panic (name_walk n message labels cursor nxt)"
  by (induction n message labels cursor nxt rule: name_walk.induct) (auto simp: Let_def intro!: no_panic_bnd)

lemma no_panic_uncompressed_walk [simp]: "no_panic (uncompressed_walk n input labels cursor)"
  by (induction n input labels cursor rule: uncompressed_walk.induct) (auto simp: Let_def intro!: no_panic_bnd)

lemma no_panic_parse_dns_name [simp]: "no_panic (parse_dns_name message offset)"
  by (simp add: parse_dns_name_def)

lemma no_panic_parse_uncompressed [simp]: "no_panic (parse_uncompressed_dns_name input)"
  by (simp add: parse_uncompressed_dns_name_def)

lemma no_panic_parse_amtrelay_rdata [simp]: "no_panic (parse_amtrelay_rdata rdata)"
  by (auto simp: parse_amtrelay_rdata_def require_relay_len_def byte_at_ok slice_from_ok Let_def intro!: no_panic_bnd)

lemma no_panic_validate_dns_response [simp]: "no_panic (validate_dns_response i name qtype response)"
  by (auto simp: validate_dns_response_def Let_def intro!: no_panic_bnd)

lemma no_panic_parse_answer_header [simp]: "no_panic (parse_answer_header what response offset)"
  by (auto simp: parse_answer_header_def Let_def intro!: no_panic_bnd)

lemma parse_answer_header_range:
  assumes "parse_answer_header what response offset = Ok (owner, rrtype, rrclass, ttl, start, rdata_end)"
  shows "start \<le> rdata_end \<and> rdata_end \<le> length response"
  using assms by (auto simp: parse_answer_header_def bnd_eq_Ok Let_def checked_add_usize_def split: if_splits)

lemma no_panic_amtrelay_answer [simp]: "no_panic (amtrelay_answer name response st)"
proof -
  have "no_panic (case parse_amtrelay_rdata r of Ok x \<Rightarrow> Ok (f x) | Err _ \<Rightarrow> Ok a | Panic \<Rightarrow> Panic)" for r f a
    using no_panic_parse_amtrelay_rdata[of r] by (auto simp: no_panic_iff split: res.split)
  then show ?thesis
    by (auto simp: amtrelay_answer_def slice_ok dest!: parse_answer_header_range intro!: no_panic_bnd split: prod.split)
qed

lemma no_panic_address_answer [simp]: "no_panic (address_answer name qtype response st)"
  by (auto simp: address_answer_def slice_ok Let_def dest!: parse_answer_header_range intro!: no_panic_bnd split: prod.split)

lemma no_panic_parse_dns_response [simp]: "no_panic (parse_dns_response i name response)"
  by (auto simp: parse_dns_response_def intro!: no_panic_bnd no_panic_for_each)

lemma no_panic_parse_address_response [simp]: "no_panic (parse_address_response i name qtype response)"
  by (auto simp: parse_address_response_def intro!: no_panic_bnd no_panic_for_each)

section \<open>AMTRELAY data\<close>

text \<open>The records the protocol can carry, and their wire form.\<close>

fun target_ok :: "amt_relay_target \<Rightarrow> bool" where
  "target_ok (RelayName name) \<longleftrightarrow> name \<noteq> [] \<and> utf8_valid name \<and> length name \<le> 253"
| "target_ok _ \<longleftrightarrow> True"

fun target_code :: "amt_relay_target \<Rightarrow> u8" where
  "target_code NoRelay = 0"
| "target_code (RelayIpv4 _) = 1"
| "target_code (RelayIpv6 _) = 2"
| "target_code (RelayName _) = 3"

fun enc_target :: "amt_relay_target \<Rightarrow> bytes" where
  "enc_target NoRelay = []"
| "enc_target (RelayIpv4 a) = be_bytes 4 a"
| "enc_target (RelayIpv6 a) = be_bytes 16 a"
| "enc_target (RelayName name) = enc_labels (split_dots name) @ [0]"

definition enc_rdata :: "amt_relay_record \<Rightarrow> bytes" where
  "enc_rdata r = ar_precedence r # (target_code (ar_target r) OR (if ar_discovery_optional r then 0x80 else 0)) # enc_target (ar_target r)"

fun sendable :: "amt_relay_target \<Rightarrow> bool" where
  "sendable (RelayName name) \<longleftrightarrow> name \<noteq> [] \<and> length name \<le> 253 \<and> list_all label_ok (split_dots name)"
| "sendable _ \<longleftrightarrow> True"

lemma trim_end_dots_split:
  assumes "list_all label_ok (split_dots name)"
  shows "trim_end_dots name = name"
proof (cases name rule: rev_exhaust)
  case (snoc bs b)
  have "[] \<in> set (tl (split_dots (bs @ [DOT])))" for bs
    by (induction bs) (auto split: list.split dest: list.set_sel(2)[rotated])
  then have "[] \<in> set (split_dots (bs @ [DOT]))" for bs by (metis list.set_sel(2) tl_Nil)
  with assms have "b \<noteq> DOT" unfolding snoc by (auto simp: list_all_iff label_ok_def)
  then show ?thesis by (simp add: snoc trim_end_dots_def)
qed (simp add: trim_end_dots_def)

lemma parse_enc_name:
  assumes "sendable (RelayName name)"
  shows "parse_uncompressed_dns_name (enc_labels (split_dots name) @ [0]) = Ok (name, length (enc_labels (split_dots name)) + 1)"
proof -
  have t: "trim_end_dots name = name" using assms by (simp add: trim_end_dots_split)
  have "utf8_valid (join_dots (split_dots name))" unfolding utf8_valid_join using assms by (auto simp: list_all_iff label_ok_def)
  moreover have "put_dns_name [] name = Ok (enc_labels (split_dots name) @ [0])"
    using assms by (auto simp: put_dns_name_Ok name_labels_def t Let_def list_all_iff label_ok_def)
  ultimately show ?thesis using put_dns_name_parses_uncompressed t by simp
qed

lemma type_byte:
  "(target_code t OR (if opt then 0x80 else 0)) AND 0x7f = target_code t"
  "((target_code t OR (if opt then 0x80 else 0)) AND 0x80 \<noteq> 0) = opt"
  by (cases t; simp)+

lemma parse_enc_rdata:
  assumes "sendable (ar_target r)"
  shows "parse_amtrelay_rdata (enc_rdata r) = Ok r"
proof (cases "ar_target r")
  case (RelayName name)
  then show ?thesis
    using assms parse_enc_name[of name] type_byte[of "RelayName name" "ar_discovery_optional r"]
    by (simp add: parse_amtrelay_rdata_def enc_rdata_def byte_at_ok slice_from_ok Let_def)
qed (use type_byte[of "ar_target r" "ar_discovery_optional r"] in
    \<open>simp_all add: parse_amtrelay_rdata_def enc_rdata_def byte_at_ok slice_from_ok Let_def require_relay_len_def from_be_be_bytes\<close>)

lemma uncompressed_walk_sound:
  assumes "uncompressed_walk n input labels cursor = Ok (name, consumed)"
    and "list_all utf8_valid labels" and "length (join_dots labels) + of_bool (labels \<noteq> []) \<le> cursor"
  shows "utf8_valid name \<and> length name + of_bool (name \<noteq> []) + 1 \<le> consumed \<and> consumed \<le> 255"
  using assms
proof (induction n arbitrary: labels cursor)
  case (Suc n)
  obtain len where len: "get_byte input cursor = Some len" "len AND 0xc0 = 0"
    using Suc.prems(1) by (auto simp: bnd_eq_Ok split: if_splits)
  show ?case
  proof (cases "len = 0")
    case True
    then show ?thesis using Suc.prems len by (cases "labels = []") (auto simp: utf8_valid_join Let_def split: if_splits)
  next
    case False
    let ?e = "cursor + 1 + unat len"
    obtain label where l: "get_range input (cursor + 1) ?e = Some label" "utf8_valid label" "?e < 255" "?e < 2 ^ 64"
        "uncompressed_walk n input (labels @ [label]) ?e = Ok (name, consumed)"
      using Suc.prems(1) len False by (auto simp: bnd_eq_Ok Let_def checked_add_usize_def split: if_splits)
    have "length label = unat len" using l(1) by (auto simp: get_range_def split: if_splits)
    moreover have "length (join_dots (labels @ [label])) = length (join_dots labels) + of_bool (labels \<noteq> []) + length label"
      using length_join_dots[of labels] length_join_dots[of "labels @ [label]"] by (cases "labels = []") simp_all
    ultimately have "length (join_dots (labels @ [label])) + of_bool (labels @ [label] \<noteq> []) \<le> ?e" using Suc.prems(3) by simp
    moreover have "list_all utf8_valid (labels @ [label])" using Suc.prems(2) l(2) by simp
    ultimately show ?thesis by (intro Suc.IH[OF l(5)])
  qed
qed simp

lemma parsed_rdata_ok:
  assumes "parse_amtrelay_rdata rdata = Ok r"
  shows "target_ok (ar_target r)"
proof (cases "ar_target r")
  case (RelayName name)
  then obtain relay consumed where "uncompressed_walk 128 relay [] 0 = Ok (name, consumed)" "name \<noteq> []"
    using assms by (auto simp: parse_amtrelay_rdata_def bnd_eq_Ok Let_def parse_uncompressed_dns_name_def split: if_splits)
  with uncompressed_walk_sound[OF this(1)] RelayName show ?thesis by simp
qed simp_all

section \<open>Responses\<close>

lemma read_u16_middle: "n = length front \<Longrightarrow> dns_read_u16 (front @ be_bytes 2 w @ rest) n = Ok w"
  by (simp add: dns_read_u16_def get_range_def from_be_be_bytes)

lemma read_u32_middle: "n = length front \<Longrightarrow> dns_read_u32 (front @ be_bytes 4 w @ rest) n = Ok w"
  by (simp add: dns_read_u32_def get_range_def from_be_be_bytes)

lemma trim_end_dots_idem [simp]: "trim_end_dots (trim_end_dots name) = trim_end_dots name"
  by (simp add: trim_end_dots_def)

lemma dns_name_eq_trim [simp]: "dns_name_eq (trim_end_dots name) name"
  by (simp add: dns_name_eq_def eq_ignore_ascii_case_def)

text \<open>A server's response: the header, the question of the query, and the answers.\<close>

definition response_header :: "u16 \<Rightarrow> u16 \<Rightarrow> u16 \<Rightarrow> u16 \<Rightarrow> u16 \<Rightarrow> bytes" where
  "response_header i flags ancount nscount arcount =
     be_bytes 2 i @ be_bytes 2 flags @ be_bytes 2 (1 :: u16) @ be_bytes 2 ancount @ be_bytes 2 nscount @ be_bytes 2 arcount"

definition answer_flags :: "u16 \<Rightarrow> bool" where
  "answer_flags flags \<longleftrightarrow> flags AND 0x8000 \<noteq> 0 \<and> flags AND 0x7800 = 0 \<and> flags AND 0x0200 = 0 \<and> flags AND 0x0040 = 0 \<and>
     flags AND 0x000f = 0"

lemma length_response_header [simp]: "length (response_header i flags ancount nscount arcount) = 12"
  by (simp add: response_header_def)

lemma header_fields:
  "dns_read_u16 (response_header i flags ancount nscount arcount @ r) 0 = Ok i"
  "dns_read_u16 (response_header i flags ancount nscount arcount @ r) 2 = Ok flags"
  "dns_read_u16 (response_header i flags ancount nscount arcount @ r) 4 = Ok 1"
  "dns_read_u16 (response_header i flags ancount nscount arcount @ r) 6 = Ok ancount"
  using read_u16_middle[of 0 "[]" i] read_u16_middle[of 2 "be_bytes 2 i" flags]
    read_u16_middle[of 4 "be_bytes 2 i @ be_bytes 2 flags" 1]
    read_u16_middle[of 6 "be_bytes 2 i @ be_bytes 2 flags @ be_bytes 2 (1 :: u16)" ancount]
  by (simp_all add: response_header_def)

lemma build_dns_query_Ok:
  assumes "build_dns_query i name qtype = Ok query"
  shows "drop 12 query = enc_labels (name_labels name) @ 0 # be_bytes 2 qtype @ be_bytes 2 DNS_CLASS_IN"
    "length query = 12 + length (enc_labels (name_labels name)) + 5"
    "length (trim_end_dots name) \<le> 253" "list_all (\<lambda>l. l \<noteq> [] \<and> length l \<le> 63) (name_labels name)"
  using assms by (auto simp: build_dns_query_def bnd_eq_Ok put_dns_name_Ok)

lemma query_labels_ok:
  assumes "build_dns_query i name qtype = Ok query" "utf8_valid name"
  shows "list_all label_ok (name_labels name)" "length (name_labels name) \<le> 127"
proof -
  have "put_dns_name [] name = Ok (enc_labels (name_labels name) @ [0])"
    using build_dns_query_Ok(3,4)[OF assms(1)] by (simp add: put_dns_name_Ok)
  from written_labels_ok[OF this assms(2)] show ok: "list_all label_ok (name_labels name)" .
  show "length (name_labels name) \<le> 127" using labels_within_loop(1)[OF ok] build_dns_query_Ok(3)[OF assms(1)] by simp
qed

lemma validate_own_query:
  assumes q: "build_dns_query i name qtype = Ok query" "utf8_valid name" and "answer_flags flags"
    and r: "response = response_header i flags ancount nscount arcount @ drop 12 query @ answers" "length response < 2 ^ 64"
  shows "validate_dns_response i name qtype response = Ok (unat ancount, length query)"
proof -
  let ?h = "response_header i flags ancount nscount arcount"
  let ?ls = "name_labels name"
  have resp: "response = ?h @ enc_labels ?ls @ 0 # be_bytes 2 qtype @ be_bytes 2 DNS_CLASS_IN @ answers"
    using r(1) build_dns_query_Ok(1)[OF q(1)] by simp
  have "Suc (length ?ls + (127 - length ?ls)) = 128" using query_labels_ok(2)[OF q] by simp
  with name_walk_labels[OF query_labels_ok(1)[OF q] r(2) resp, of "127 - length ?ls" "[]" None]
  have name: "parse_dns_name response 12 = Ok (trim_end_dots name, length query - 4)"
    using build_dns_query_Ok(2)[OF q(1)] by (simp add: parse_dns_name_def)
  have "dns_read_u16 response (length query - 4) = Ok qtype"
    using read_u16_middle[of "length query - 4" "?h @ enc_labels ?ls @ [0]" qtype] build_dns_query_Ok(2)[OF q(1)] resp by simp
  moreover have "dns_read_u16 response (length query - 2) = Ok DNS_CLASS_IN"
    using read_u16_middle[of "length query - 2" "?h @ enc_labels ?ls @ 0 # be_bytes 2 qtype" DNS_CLASS_IN]
      build_dns_query_Ok(2)[OF q(1)] resp by simp
  moreover have "length query - 4 + 2 = length query - 2" "length query - 4 + 4 = length query" "length query \<le> length response"
    using build_dns_query_Ok(2)[OF q(1)] resp by simp_all
  moreover have "12 \<le> length response" using resp by simp
  ultimately show ?thesis
    using header_fields[of i flags ancount nscount arcount] name assms(3)
    unfolding validate_dns_response_def
    by (simp add: r(1) answer_flags_def DNS_HEADER_LEN_def Let_def)
qed

text \<open>An AMTRELAY answer of a server: the owner is a pointer to the question.\<close>

definition enc_answer :: "amt_relay_record \<times> u32 \<Rightarrow> bytes" where
  "enc_answer = (\<lambda>(r, ttl). [0xc0, 0x0c] @ be_bytes 2 AMTRELAY_RRTYPE @ be_bytes 2 DNS_CLASS_IN @ be_bytes 4 ttl @
     be_bytes 2 (of_nat (length (enc_rdata r)) :: u16) @ enc_rdata r)"

definition timed_record :: "amt_relay_record \<times> u32 \<Rightarrow> amt_relay_record timed" where
  "timed_record = (\<lambda>(r, ttl). \<lparr>timed_value = r, timed_ttl = from_secs (unat ttl)\<rparr>)"

lemma length_enc_rdata:
  assumes "sendable (ar_target r)"
  shows "length (enc_rdata r) \<le> 257"
proof (cases "ar_target r")
  case (RelayName name)
  then show ?thesis using labels_within_loop(2)[of "split_dots name"] assms by (simp add: enc_rdata_def)
qed (simp_all add: enc_rdata_def)

lemma pointer_to_question:
  assumes "list_all label_ok ls" and "length ls \<le> 126" and "length message < 2 ^ 64"
    and "message = header @ enc_labels ls @ 0 # rest" "length header = 12" and "message = front @ [0xc0, 0x0c] @ after"
  shows "parse_dns_name message (length front) = Ok (join_dots ls, length front + 2)"
proof -
  have "get_byte message (length front) = Some 0xc0" "get_byte message (Suc (length front)) = Some 0x0c"
    using assms(6) get_byte_middle[of "front @ [0xc0]" "0x0c" after] by simp_all
  moreover have "Suc (length ls + (126 - length ls)) = 127" using assms(2) by simp
  moreover have "12 < length message" using assms(4,5) by simp
  ultimately show ?thesis
    using name_walk_labels[OF assms(1,3,4), of "126 - length ls" "[]" "Some (length front + 2)"] assms(5)
    by (simp add: parse_dns_name_def name_walk.simps(2)[of 127, simplified])
qed

lemma amtrelay_answer_enc:
  assumes "parse_dns_name message (length front) = Ok (owner, length front + 2)" and "dns_name_eq owner name"
    and "message = front @ enc_answer (r, ttl) @ after" and "length message < 2 ^ 64" and "sendable (ar_target r)"
  shows "amtrelay_answer name message (length front, acc) =
    Ok (length front + length (enc_answer (r, ttl)), acc\<lparr>rr_records := rr_records acc @ [timed_record (r, ttl)]\<rparr>)"
proof -
  let ?f = "front @ [0xc0, 0x0c]"
  let ?n = "length (enc_rdata r)"
  have n: "unat (of_nat ?n :: u16) = ?n" using length_enc_rdata[OF assms(5)] by (simp add: unat_of_nat_u16)
  have m: "message = ?f @ be_bytes 2 AMTRELAY_RRTYPE @ be_bytes 2 DNS_CLASS_IN @ be_bytes 4 ttl @
     be_bytes 2 (of_nat ?n :: u16) @ enc_rdata r @ after"
    using assms(3) by (simp add: enc_answer_def)
  define k where "k = length front + 2"
  have "dns_read_u16 message k = Ok AMTRELAY_RRTYPE" using m read_u16_middle[of k ?f] by (simp add: k_def)
  moreover have "dns_read_u16 message (k + 2) = Ok DNS_CLASS_IN"
    using m read_u16_middle[of "k + 2" "?f @ be_bytes 2 AMTRELAY_RRTYPE"] by (simp add: k_def)
  moreover have "dns_read_u32 message (k + 4) = Ok ttl"
    using m read_u32_middle[of "k + 4" "?f @ be_bytes 2 AMTRELAY_RRTYPE @ be_bytes 2 DNS_CLASS_IN"] by (simp add: k_def)
  moreover have "dns_read_u16 message (k + 8) = Ok (of_nat ?n)"
    using m read_u16_middle[of "k + 8" "?f @ be_bytes 2 AMTRELAY_RRTYPE @ be_bytes 2 DNS_CLASS_IN @ be_bytes 4 ttl"] by (simp add: k_def)
  moreover have "k + 10 + ?n \<le> length message" using m by (simp add: k_def)
  ultimately have h: "parse_answer_header ''answer'' message (length front) =
      Ok (owner, AMTRELAY_RRTYPE, DNS_CLASS_IN, from_secs (unat ttl), k + 10, k + 10 + ?n)"
    using assms(1,4) n by (simp add: parse_answer_header_def checked_add_usize_def k_def[symmetric] Let_def del: add_2_eq_Suc')
  have "(slice message (k + 10) (k + 10 + ?n) :: (driad_error, bytes) res) = Ok (enc_rdata r)"
    using m by (simp add: slice_ok k_def)
  then show ?thesis
    using h assms(2) parse_enc_rdata[OF assms(5)]
    by (simp add: amtrelay_answer_def timed_record_def enc_answer_def k_def)
qed

lemma amtrelay_answers_enc:
  assumes "\<forall>front r after. message = front @ enc_answer r @ after \<longrightarrow>
      parse_dns_name message (length front) = Ok (owner, length front + 2)"
    and "dns_name_eq owner name" and "length message < 2 ^ 64" and "list_all (\<lambda>(r, _). sendable (ar_target r)) rs"
    and "message = front @ concat (map enc_answer rs) @ after" and "length xs = length rs"
  shows "\<exists>offset. for_each xs (\<lambda>_. amtrelay_answer name message) (length front, acc) =
    Ok (offset, acc\<lparr>rr_records := rr_records acc @ map timed_record rs\<rparr>)"
  using assms(4-6)
proof (induction rs arbitrary: front acc xs)
  case (Cons a rs)
  obtain r ttl where a: "a = (r, ttl)" by fastforce
  obtain x xs' where xs: "xs = x # xs'" "length xs' = length rs" using Cons.prems(3) by (cases xs) auto
  have m: "message = front @ enc_answer (r, ttl) @ concat (map enc_answer rs) @ after" using Cons.prems(2) a by simp
  have "amtrelay_answer name message (length front, acc) =
    Ok (length (front @ enc_answer a), acc\<lparr>rr_records := rr_records acc @ [timed_record a]\<rparr>)"
    using amtrelay_answer_enc[OF assms(1)[rule_format, OF m] assms(2) m assms(3)] Cons.prems(1) a by simp
  then show ?case
    using Cons.IH[of "front @ enc_answer a" xs' "acc\<lparr>rr_records := rr_records acc @ [timed_record a]\<rparr>"] Cons.prems xs by simp
qed simp

section \<open>Strings that come out of a response\<close>

lemma name_walk_utf8:
  assumes "name_walk n message labels cursor nxt = Ok (name, next)" and "list_all utf8_valid labels"
  shows "utf8_valid name"
  using assms
proof (induction n arbitrary: labels cursor nxt)
  case (Suc n)
  then show ?case
    by (auto simp: bnd_eq_Ok Let_def utf8_valid_join split: if_splits)
qed simp

lemma parse_dns_name_utf8: "parse_dns_name message offset = Ok (name, next) \<Longrightarrow> utf8_valid name"
  unfolding parse_dns_name_def by (erule name_walk_utf8) simp

lemma to_lower_DOT: "to_lower b = to_lower DOT \<longleftrightarrow> b = DOT"
proof
  assume "to_lower b = to_lower DOT"
  then have b: "to_lower b = 46" by (simp add: to_lower_def DOT_def)
  show "b = DOT"
  proof (cases "65 \<le> b \<and> b \<le> 90")
    case True
    then have "unat b \<le> 90" by (simp add: word_le_nat_alt)
    then have "unat (b + 32) = unat b + 32" by (subst unat_add_lem[THEN iffD1]) simp_all
    moreover have "65 \<le> unat b" using True by (simp add: word_le_nat_alt)
    ultimately have "unat (b + 32) \<noteq> 46" by simp
    then show ?thesis using b True by (auto simp: to_lower_def)
  qed (use b in \<open>auto simp: to_lower_def DOT_def\<close>)
qed simp

text \<open>A \<open>DNAME\<close> substitution cuts the query name at a dot, hence between characters.\<close>

lemma apply_dname_utf8:
  assumes "apply_dname query owner target = Some alias" "utf8_valid query" "utf8_valid target"
  shows "utf8_valid alias"
proof (cases "eq_ignore_ascii_case (trim_end_dots query) (trim_end_dots owner)")
  case True
  then show ?thesis using assms(1) utf8_valid_trim[OF assms(3)] by (auto simp: apply_dname_def)
next
  case False
  define q where "q = trim_end_dots query"
  define s where "s = DOT # trim_end_dots owner"
  have a: "length s \<le> length q" "map to_lower (drop (length q - length s) q) = map to_lower s"
    "alias = take (length q - length s) q @ DOT # trim_end_dots target"
    using assms(1) False by (auto simp: apply_dname_def q_def s_def to_ascii_lowercase_def drop_map Let_def split: if_splits)
  then obtain rest where "drop (length q - length s) q = DOT # rest"
    by (auto simp: s_def to_lower_DOT)
  then have "q = take (length q - length s) q @ DOT # rest" by (metis append_take_drop_id)
  moreover have "utf8_valid q" using assms(2) by (simp add: q_def utf8_valid_trim)
  ultimately have "utf8_valid (take (length q - length s) q)" by (metis utf8_valid_dot)
  then show ?thesis using a(3) utf8_valid_trim[OF assms(3)] by (simp add: utf8_valid_dot)
qed

definition response_ok :: "dns_amt_relay_response \<Rightarrow> bool" where
  "response_ok r \<longleftrightarrow> list_all (\<lambda>t. target_ok (ar_target (timed_value t))) (rr_records r) \<and>
     list_all (\<lambda>t. utf8_valid (timed_value t)) (rr_aliases r)"

lemma record_answer_ok:
  assumes "(case parse_amtrelay_rdata rdata of Ok record \<Rightarrow> Ok (acc\<lparr>rr_records := rr_records acc @ [\<lparr>timed_value = record, timed_ttl = ttl\<rparr>]\<rparr>)
      | Err _ \<Rightarrow> Ok acc | Panic \<Rightarrow> Panic) = Ok acc'" "response_ok acc"
  shows "response_ok acc'"
  using assms parsed_rdata_ok[of rdata] by (cases "parse_amtrelay_rdata rdata") (auto simp: response_ok_def)

lemma alias_answer_ok:
  assumes "response_ok acc" "utf8_valid alias"
  shows "response_ok (acc\<lparr>rr_aliases := rr_aliases acc @ [\<lparr>timed_value = alias, timed_ttl = ttl\<rparr>]\<rparr>)"
  using assms by (simp add: response_ok_def)

lemma dname_answer_ok:
  assumes "apply_dname name owner target = Some alias" "parse_dns_name message start = Ok (target, next)"
    and "response_ok acc" "utf8_valid name"
  shows "response_ok (acc\<lparr>rr_aliases := rr_aliases acc @ [\<lparr>timed_value = alias, timed_ttl = ttl\<rparr>]\<rparr>)"
  by (rule alias_answer_ok[OF assms(3) apply_dname_utf8[OF assms(1,4) parse_dns_name_utf8[OF assms(2)]]])

lemma amtrelay_answer_ok:
  assumes "amtrelay_answer name message (offset, acc) = Ok (offset', acc')" "response_ok acc" "utf8_valid name"
  shows "response_ok acc'"
  using assms
  by (auto simp: amtrelay_answer_def bnd_eq_Ok intro: alias_answer_ok parse_dns_name_utf8 dname_answer_ok
      dest: record_answer_ok split: if_splits option.splits)

lemma amtrelay_answers_ok:
  assumes "for_each xs (\<lambda>_. amtrelay_answer name message) (offset, acc) = Ok (offset', acc')" "response_ok acc" "utf8_valid name"
  shows "response_ok acc'"
  using assms
proof (induction xs arbitrary: offset acc)
  case (Cons x xs)
  then show ?case by (auto simp: bnd_eq_Ok dest: amtrelay_answer_ok)
qed simp

section \<open>Properties of the codec\<close>

text \<open>What the resolver asks, a server can answer.  For every name that can be asked for, a
  response that repeats the question and carries any AMTRELAY records of that name, with their
  owners compressed to a pointer, whatever follows the answers, parses to exactly these records with their
  lifetimes.  (A name of 127 labels leaves no step for the pointer in the loop of 128.)\<close>

lemma amtrelay_response_parses:
  assumes "build_dns_query i name AMTRELAY_RRTYPE = Ok query" and "utf8_valid name" and "length (name_labels name) \<le> 126"
    and "answer_flags flags" and "length rs < 2 ^ 16" and "list_all (\<lambda>(r, _). sendable (ar_target r)) rs"
    and "response = response_header i flags (of_nat (length rs)) nscount arcount @ drop 12 query @ concat (map enc_answer rs) @ tail"
    and "length response < 2 ^ 64"
  shows "parse_dns_response i name response = Ok \<lparr>rr_records = map timed_record rs, rr_aliases = []\<rparr>"
proof -
  let ?h = "response_header i flags (of_nat (length rs)) nscount arcount"
  have n: "unat (of_nat (length rs) :: u16) = length rs" using assms(5) by (simp add: unat_of_nat_u16)
  have v: "validate_dns_response i name AMTRELAY_RRTYPE response = Ok (length rs, length query)"
    using validate_own_query[OF assms(1,2,4,7,8)] n by simp
  have q: "response = ?h @ enc_labels (name_labels name) @ 0 #
      (be_bytes 2 AMTRELAY_RRTYPE @ be_bytes 2 DNS_CLASS_IN @ concat (map enc_answer rs) @ tail)"
    using assms(7) build_dns_query_Ok(1)[OF assms(1)] by simp
  have "parse_dns_name response (length front) = Ok (trim_end_dots name, length front + 2)"
    if "response = front @ enc_answer r @ after" for front r after
    using pointer_to_question[OF query_labels_ok(1)[OF assms(1,2)] assms(3,8) q, of front] that
    by (cases r) (simp add: enc_answer_def)
  then have p: "\<forall>front r after. response = front @ enc_answer r @ after \<longrightarrow>
      parse_dns_name response (length front) = Ok (trim_end_dots name, length front + 2)" by blast
  have len: "length (?h @ drop 12 query) = length query"
    using build_dns_query_Ok(2)[OF assms(1)] by simp
  obtain offset where "for_each [0..<length rs] (\<lambda>_. amtrelay_answer name response)
      (length (?h @ drop 12 query), \<lparr>rr_records = [], rr_aliases = []\<rparr>) =
      Ok (offset, \<lparr>rr_records = map timed_record rs, rr_aliases = []\<rparr>)"
    using amtrelay_answers_enc[where front = "?h @ drop 12 query" and after = tail and xs = "[0..<length rs]"
        and acc = "\<lparr>rr_records = [], rr_aliases = []\<rparr>", OF p dns_name_eq_trim assms(8,6)] assms(7) by auto
  then show ?thesis using v by (simp add: parse_dns_response_def len del: length_append)
qed

definition sample_name :: dname where
  "sample_name = [97, DOT, 98]"

text \<open>C36: the strings and records that come out of a response are well-formed, whatever the bytes.
  The parsers do not panic; every AMTRELAY record has a target of its type, a relay name being a
  nonempty UTF-8 string of at most 253 bytes; and every alias, also one that a \<open>DNAME\<close> substitution
  cut out of the query name, is valid UTF-8.\<close>

theorem parsed_response_welltyped:
  assumes "utf8_valid name"
  shows "no_panic (parse_dns_response i name response) \<and> no_panic (parse_address_response i name qtype response) \<and>
    (case parse_dns_response i name response of
       Ok r \<Rightarrow> list_all (\<lambda>t. target_ok (ar_target (timed_value t))) (rr_records r) \<and>
         list_all (\<lambda>t. utf8_valid (timed_value t)) (rr_aliases r)
     | _ \<Rightarrow> True)"
proof -
  have "response_ok r" if r: "parse_dns_response i name response = Ok r" for r
  proof -
    obtain ancount offset offset' where
      "for_each [0..<ancount] (\<lambda>_. amtrelay_answer name response) (offset, \<lparr>rr_records = [], rr_aliases = []\<rparr>) = Ok (offset', r)"
      using r by (auto simp: parse_dns_response_def bnd_eq_Ok)
    then show ?thesis by (rule amtrelay_answers_ok) (simp_all add: response_ok_def assms)
  qed
  then show ?thesis by (auto simp: response_ok_def split: res.split)
qed

theorem parsed_response_welltyped_witness:
  "no_panic (parse_dns_response 7 sample_name [])"
  using parsed_response_welltyped[of sample_name 7 "[]"] by (simp add: sample_name_def DOT_def)

end
