(* ===== verification/Driad.thy ===== *)
theory Driad
  imports Dns Protocol "HOL-Library.Multiset"
begin

text \<open>
  The resolver of relay discovery, the upper half of \<open>src/driad.rs\<close>: the query budget, retries
  over the configured resolvers, aliases, host lookups, and the selection and ordering of relay
  candidates.  Sockets, sleeping and randomness are operations on an abstract network state.  The
  lemmas show that the budget is a sliding window, that the candidate order is a permutation sorted
  by precedence with alternating address families, that what is selected is usable, and that
  published records are found.
\<close>

section \<open>Effects\<close>

text \<open>A computation on the network state \<open>'s\<close> that returns or fails.\<close>

type_synonym ('s, 'a) net = "'s \<Rightarrow> (driad_error, 'a) res \<times> 's"

definition nret :: "'a \<Rightarrow> ('s, 'a) net" where
  "nret x = (\<lambda>s. (Ok x, s))"

definition nlift :: "(driad_error, 'a) res \<Rightarrow> ('s, 'a) net" where
  "nlift r = (\<lambda>s. (r, s))"

definition nbind :: "('s, 'a) net \<Rightarrow> ('a \<Rightarrow> ('s, 'b) net) \<Rightarrow> ('s, 'b) net" where
  "nbind m f = (\<lambda>s. case m s of (Ok x, s') \<Rightarrow> f x s' | (Err e, s') \<Rightarrow> (Err e, s') | (Panic, s') \<Rightarrow> (Panic, s'))"

definition ncatch :: "('s, 'a) net \<Rightarrow> ((driad_error, 'a) res \<Rightarrow> ('s, 'b) net) \<Rightarrow> ('s, 'b) net" where
  "ncatch m f = (\<lambda>s. case m s of (Panic, s') \<Rightarrow> (Panic, s') | (r, s') \<Rightarrow> f r s')"

text \<open>The operations of the system: waiting for the time at which a query may be sent, a random
  query id, one exchange of datagrams, the bytes a stream yields after a request, and eight
  random bytes, if there are any.\<close>

record 's net_ops =
  op_wait :: "('s, unit) net"
  op_random_id :: "('s, u16) net"
  op_udp :: "socket_addr \<Rightarrow> bytes \<Rightarrow> duration \<Rightarrow> ('s, bytes) net"
  op_tcp :: "socket_addr \<Rightarrow> bytes \<Rightarrow> duration \<Rightarrow> ('s, bytes) net"
  op_random_u64 :: "'s \<Rightarrow> 64 word option \<times> 's"

section \<open>Configuration\<close>

definition MAX_ALIAS_DEPTH :: nat where "MAX_ALIAS_DEPTH = 8"
definition DEFAULT_TIMEOUT :: duration where "DEFAULT_TIMEOUT = from_secs 1"
definition DEFAULT_ATTEMPTS :: nat where "DEFAULT_ATTEMPTS = 2"
definition DEFAULT_MAX_CANDIDATES :: nat where "DEFAULT_MAX_CANDIDATES = 64"
definition DEFAULT_DNS_QUERIES_PER_WINDOW :: nat where "DEFAULT_DNS_QUERIES_PER_WINDOW = 10"
definition DEFAULT_DNS_QUERY_WINDOW :: duration where "DEFAULT_DNS_QUERY_WINDOW = 100 * 10 ^ 6"

definition DURATION_MAX :: duration where "DURATION_MAX = (2 ^ 64 - 1) * 10 ^ 9 + 999999999"

record driad_resolver_config =
  dc_resolvers :: "socket_addr list"
  dc_timeout :: duration
  dc_attempts :: nat
  dc_allow_insecure_dns :: bool
  dc_max_candidates :: nat
  dc_max_queries_per_window :: nat
  dc_query_rate_window :: duration

record driad_relay_selection =
  sl_source :: ip_addr
  sl_query_name :: dname
  sl_record :: amt_relay_record
  sl_relay :: socket_addr
  sl_ttl :: duration

definition driad_config_new :: "socket_addr list \<Rightarrow> driad_resolver_config" where
  "driad_config_new resolvers = \<lparr>dc_resolvers = resolvers, dc_timeout = DEFAULT_TIMEOUT, dc_attempts = DEFAULT_ATTEMPTS,
     dc_allow_insecure_dns = False, dc_max_candidates = DEFAULT_MAX_CANDIDATES,
     dc_max_queries_per_window = DEFAULT_DNS_QUERIES_PER_WINDOW, dc_query_rate_window = DEFAULT_DNS_QUERY_WINDOW\<rparr>"

fun is_loopback :: "ip_addr \<Rightarrow> bool" where
  "is_loopback (V4 a) = (octets4 a ! 0 = 127)"
| "is_loopback (V6 a) = (a = 1)"

definition validate_resolver :: "driad_resolver_config \<Rightarrow> (driad_error, unit) res" where
  "validate_resolver c =
     (if dc_resolvers c = [] then Err NoResolvers
      else case (if dc_allow_insecure_dns c then None else find (\<lambda>r. \<not> is_loopback (sock_ip r)) (dc_resolvers c)) of
        Some resolver \<Rightarrow> Err (InsecureResolver resolver)
      | None \<Rightarrow>
        if dc_timeout c = 0 then Err (InvalidDriadConfig ''timeout must not be zero'')
        else if dc_attempts c = 0 then Err (InvalidDriadConfig ''attempts must not be zero'')
        else if dc_max_candidates c = 0 then Err (InvalidDriadConfig ''maximum candidate count must not be zero'')
        else if dc_max_queries_per_window c = 0 then Err (InvalidDriadConfig ''DNS query limit must not be zero'')
        else if dc_query_rate_window c = 0 then Err (InvalidDriadConfig ''DNS query-rate window must not be zero'')
        else Ok ())"

section \<open>The query budget\<close>

record dns_query_limiter =
  ql_maximum :: nat
  ql_window :: duration
  ql_queries :: "instant list"

definition query_limiter_new :: "nat \<Rightarrow> duration \<Rightarrow> dns_query_limiter" where
  "query_limiter_new maximum window = \<lparr>ql_maximum = maximum, ql_window = window, ql_queries = []\<rparr>"

definition resolver_limiter :: "driad_resolver_config \<Rightarrow> dns_query_limiter" where
  "resolver_limiter c = query_limiter_new (max (dc_max_queries_per_window c) 1) (max (dc_query_rate_window c) (10 ^ 6))"

definition reserve_at :: "instant \<Rightarrow> dns_query_limiter \<Rightarrow> duration option \<times> dns_query_limiter" where
  "reserve_at now self =
     (let queries = dropWhile (\<lambda>query. ql_window self \<le> now - query) (ql_queries self) in
      if length queries < ql_maximum self
      then (None, self\<lparr>ql_queries := queries @ [now]\<rparr>)
      else (case queries of [] \<Rightarrow> None | query # _ \<Rightarrow> Some (ql_window self - (now - query)),
            self\<lparr>ql_queries := queries\<rparr>))"

section \<open>Queries\<close>

definition dec_u8 :: "u8 \<Rightarrow> bytes" where
  "dec_u8 b = (let n = unat b; digit = (\<lambda>k. of_nat (48 + k)) in
     if n < 10 then [digit n]
     else if n < 100 then [digit (n div 10), digit (n mod 10)]
     else [digit (n div 100), digit (n div 10 mod 10), digit (n mod 10)])"

definition hex_nibble :: "u8 \<Rightarrow> bytes" where
  "hex_nibble b = [if b < 10 then 48 + b else 87 + b]"

text \<open>\<open>in-addr.arpa\<close> and \<open>ip6.arpa\<close> as bytes.\<close>

definition IN_ADDR_ARPA :: dname where
  "IN_ADDR_ARPA = [105, 110, 45, 97, 100, 100, 114, 46, 97, 114, 112, 97]"

definition IP6_ARPA :: dname where
  "IP6_ARPA = [105, 112, 54, 46, 97, 114, 112, 97]"

fun reverse_source_name :: "ip_addr \<Rightarrow> dname" where
  "reverse_source_name (V4 a) = join_dots (map dec_u8 (rev (octets4 a)) @ [IN_ADDR_ARPA])"
| "reverse_source_name (V6 a) =
     join_dots (concat (map (\<lambda>byte. [hex_nibble (byte AND 0x0f), hex_nibble (drop_bit 4 byte)]) (rev (octets6 a)))) @
     DOT # IP6_ARPA"

definition randomized_duration :: "'s net_ops \<Rightarrow> duration \<Rightarrow> duration \<Rightarrow> 's \<Rightarrow> duration \<times> 's" where
  "randomized_duration ops lower upper s =
     (let lower_ms = (lower div 10 ^ 6) mod 2 ^ 64; upper_ms = (upper div 10 ^ 6) mod 2 ^ 64 in
      if upper_ms \<le> lower_ms then (lower, s) else
      let (bs, s) = op_random_u64 ops s;
          random = (case bs of Some r \<Rightarrow> unat r | None \<Rightarrow> upper_ms)
      in ((lower_ms + random mod (upper_ms - lower_ms + 1)) * 10 ^ 6, s))"

definition retry_timeout :: "'s net_ops \<Rightarrow> driad_resolver_config \<Rightarrow> nat \<Rightarrow> 's \<Rightarrow> duration \<times> 's" where
  "retry_timeout ops c attempt =
     (let multiplier = 2 ^ min attempt 6; maximum = from_secs 120;
          upper = min (if dc_timeout c * multiplier \<le> DURATION_MAX then dc_timeout c * multiplier else maximum) maximum
      in randomized_duration ops (min (dc_timeout c) upper) upper)"

text \<open>The request of \<open>op_tcp\<close> is framed before the connection is made; the length check that fails
  there otherwise comes after connecting, but a query never is that long.\<close>

definition query_tcp :: "'s net_ops \<Rightarrow> socket_addr \<Rightarrow> bytes \<Rightarrow> duration \<Rightarrow> ('s, bytes) net" where
  "query_tcp ops resolver query timeout =
     nbind (op_wait ops) (\<lambda>_.
     if 2 ^ 16 \<le> length query then nlift (Err (DriadIo ''DNS query is too large for TCP framing'')) else
     nbind (op_tcp ops resolver (be_bytes 2 (of_nat (length query) :: u16) @ query) timeout) (\<lambda>stream.
     if length stream < 2 then nlift (Err (DriadIo ''failed to read DNS TCP length'')) else
     let response_len = unat (from_be (take 2 stream) :: u16) in
     if response_len < DNS_HEADER_LEN then nlift (Err (DnsTruncated ''DNS TCP response''))
     else if length stream < 2 + response_len then nlift (Err (DriadIo ''failed to read DNS TCP response''))
     else nret (take response_len (drop 2 stream))))"

definition query_wire ::
  "'s net_ops \<Rightarrow> socket_addr \<Rightarrow> dname \<Rightarrow> u16 \<Rightarrow> duration \<Rightarrow> ('s, u16 \<times> bytes) net" where
  "query_wire ops resolver name query_type timeout =
     nbind (op_wait ops) (\<lambda>_.
     nbind (op_random_id ops) (\<lambda>i.
     nbind (nlift (build_dns_query i name query_type)) (\<lambda>query.
     nbind (op_udp ops resolver query timeout) (\<lambda>buf.
     if 4 \<le> length buf \<and> (from_be [buf ! 2, buf ! 3] :: u16) AND 0x0200 \<noteq> 0
     then nbind (query_tcp ops resolver query timeout) (\<lambda>response. nret (i, response))
     else nret (i, buf)))))"

definition query_resolver :: "'s net_ops \<Rightarrow> socket_addr \<Rightarrow> dname \<Rightarrow> duration \<Rightarrow> ('s, dns_amt_relay_response) net" where
  "query_resolver ops resolver name timeout =
     nbind (query_wire ops resolver name AMTRELAY_RRTYPE timeout) (\<lambda>(i, response).
     nlift (parse_dns_response i name response))"

text \<open>The nested loops over attempts and resolvers as one list of queries; the timeout of an attempt
  is drawn before its first query.\<close>

fun try_resolvers ::
  "'s net_ops \<Rightarrow> dname \<Rightarrow> duration \<Rightarrow> socket_addr list \<Rightarrow> driad_error option
   \<Rightarrow> ('s, dns_amt_relay_response + driad_error option) net" where
  "try_resolvers ops name timeout [] last_error = nret (Inr last_error)"
| "try_resolvers ops name timeout (resolver # resolvers) last_error =
     ncatch (query_resolver ops resolver name timeout) (\<lambda>r. case r of
       Ok response \<Rightarrow> nret (Inl response)
     | Err error \<Rightarrow> try_resolvers ops name timeout resolvers (Some error)
     | Panic \<Rightarrow> nlift Panic)"

fun try_attempts ::
  "'s net_ops \<Rightarrow> driad_resolver_config \<Rightarrow> dname \<Rightarrow> nat list \<Rightarrow> driad_error option
   \<Rightarrow> ('s, dns_amt_relay_response) net" where
  "try_attempts ops c name [] last_error =
     nlift (Err (case last_error of Some e \<Rightarrow> e | None \<Rightarrow> NoResolvers))"
| "try_attempts ops c name (attempt # attempts) last_error = (\<lambda>s.
     let (timeout, s) = retry_timeout ops c attempt s in
     nbind (try_resolvers ops name timeout (dc_resolvers c) last_error) (\<lambda>r. case r of
       Inl response \<Rightarrow> nret response
     | Inr last_error \<Rightarrow> try_attempts ops c name attempts last_error) s)"

definition lookup_amtrelay_name ::
  "'s net_ops \<Rightarrow> driad_resolver_config \<Rightarrow> dname \<Rightarrow> ('s, dns_amt_relay_response) net" where
  "lookup_amtrelay_name ops c name = try_attempts ops c name [0..<max (dc_attempts c) 1] None"

text \<open>The alias loop, with \<open>n\<close> lookups left.\<close>

fun follow_aliases ::
  "nat \<Rightarrow> 's net_ops \<Rightarrow> driad_resolver_config \<Rightarrow> dname \<Rightarrow> dname \<Rightarrow> dname fset \<Rightarrow> duration
   \<Rightarrow> ('s, amt_relay_record timed list) net" where
  "follow_aliases 0 ops c query_name current visited alias_ttl = nlift (Err (AliasDepthExceeded query_name))"
| "follow_aliases (Suc n) ops c query_name current visited alias_ttl =
     (if to_ascii_lowercase current |\<in>| visited then nlift (Err (AliasLoop current)) else
      let visited = finsert (to_ascii_lowercase current) visited in
      nbind (lookup_amtrelay_name ops c current) (\<lambda>response.
      if rr_records response \<noteq> [] then
        nret (map (\<lambda>record. \<lparr>timed_value = timed_value record, timed_ttl = min (timed_ttl record) alias_ttl\<rparr>) (rr_records response))
      else case rr_aliases response of
        [] \<Rightarrow> nlift (Err (NoRecords current))
      | alias # _ \<Rightarrow>
          follow_aliases n ops c query_name (timed_value alias) visited (min alias_ttl (timed_ttl alias))))"

definition lookup_amtrelay_following_aliases ::
  "'s net_ops \<Rightarrow> driad_resolver_config \<Rightarrow> dname \<Rightarrow> ('s, amt_relay_record timed list) net" where
  "lookup_amtrelay_following_aliases ops c query_name =
     follow_aliases MAX_ALIAS_DEPTH ops c query_name query_name {||} DURATION_MAX"

section \<open>Host names\<close>

datatype host_outcome = Addresses "ip_addr timed list" | Alias "dname timed" | Failed driad_error

text \<open>The queries of one name: addresses return from the whole lookup, an alias leaves both loops.\<close>

fun host_resolvers ::
  "'s net_ops \<Rightarrow> dname \<Rightarrow> u16 \<Rightarrow> duration \<Rightarrow> socket_addr list \<Rightarrow> driad_error \<Rightarrow> ('s, host_outcome) net" where
  "host_resolvers ops current query_type timeout [] last_error = nret (Failed last_error)"
| "host_resolvers ops current query_type timeout (resolver # resolvers) last_error =
     ncatch (nbind (query_wire ops resolver current query_type timeout) (\<lambda>(i, response).
             nlift (parse_address_response i current query_type response))) (\<lambda>r. case r of
       Ok response \<Rightarrow>
         if da_addresses response \<noteq> [] then nret (Addresses (da_addresses response))
         else (case da_alias response of
             Some next_alias \<Rightarrow> nret (Alias next_alias)
           | None \<Rightarrow> host_resolvers ops current query_type timeout resolvers last_error)
     | Err error \<Rightarrow> host_resolvers ops current query_type timeout resolvers error
     | Panic \<Rightarrow> nlift Panic)"

fun host_attempts ::
  "'s net_ops \<Rightarrow> driad_resolver_config \<Rightarrow> dname \<Rightarrow> u16 \<Rightarrow> nat list \<Rightarrow> driad_error \<Rightarrow> ('s, host_outcome) net" where
  "host_attempts ops c current query_type [] last_error = nret (Failed last_error)"
| "host_attempts ops c current query_type (attempt # attempts) last_error = (\<lambda>s.
     let (timeout, s) = retry_timeout ops c attempt s in
     nbind (host_resolvers ops current query_type timeout (dc_resolvers c) last_error) (\<lambda>r. case r of
       Failed last_error \<Rightarrow> host_attempts ops c current query_type attempts last_error
     | _ \<Rightarrow> nret r) s)"

fun host_aliases ::
  "nat \<Rightarrow> 's net_ops \<Rightarrow> driad_resolver_config \<Rightarrow> dname \<Rightarrow> u16 \<Rightarrow> dname \<Rightarrow> dname fset \<Rightarrow> duration
   \<Rightarrow> ('s, ip_addr timed list) net" where
  "host_aliases 0 ops c name query_type current visited alias_ttl = nlift (Err (AliasDepthExceeded name))"
| "host_aliases (Suc n) ops c name query_type current visited alias_ttl =
     (if to_ascii_lowercase current |\<in>| visited then nlift (Err (AliasLoop current)) else
      let visited = finsert (to_ascii_lowercase current) visited in
      nbind (host_attempts ops c current query_type [0..<max (dc_attempts c) 1] (NoRecords current)) (\<lambda>r. case r of
        Addresses found \<Rightarrow>
          nret (map (\<lambda>a. \<lparr>timed_value = timed_value a, timed_ttl = min (timed_ttl a) alias_ttl\<rparr>) found)
      | Alias alias \<Rightarrow>
          host_aliases n ops c name query_type (timed_value alias) visited (min alias_ttl (timed_ttl alias))
      | Failed last_error \<Rightarrow> nlift (Err last_error)))"

definition lookup_host_type ::
  "'s net_ops \<Rightarrow> driad_resolver_config \<Rightarrow> dname \<Rightarrow> u16 \<Rightarrow> ('s, ip_addr timed list) net" where
  "lookup_host_type ops c name query_type = host_aliases MAX_ALIAS_DEPTH ops c name query_type name {||} DURATION_MAX"

definition add_addresses :: "ip_addr timed list \<Rightarrow> ip_addr timed list \<Rightarrow> ip_addr timed list" where
  "add_addresses found addresses =
     fold (\<lambda>address addresses.
       if list_ex (\<lambda>existing. timed_value existing = timed_value address) addresses then addresses
       else addresses @ [address]) found addresses"

definition lookup_host :: "'s net_ops \<Rightarrow> driad_resolver_config \<Rightarrow> dname \<Rightarrow> ('s, ip_addr timed list) net" where
  "lookup_host ops c name =
     ncatch (lookup_host_type ops c name DNS_TYPE_A) (\<lambda>a.
     ncatch (lookup_host_type ops c name DNS_TYPE_AAAA) (\<lambda>aaaa.
     let found = (\<lambda>r. case r of Ok xs \<Rightarrow> xs | _ \<Rightarrow> []);
         addresses = add_addresses (found aaaa) (add_addresses (found a) [])
     in if addresses = [] then nlift (Err NoUsableRelay) else nret addresses))"

definition relay_socket_addrs ::
  "'s net_ops \<Rightarrow> driad_resolver_config \<Rightarrow> amt_relay_target \<Rightarrow> ('s, socket_addr timed list) net" where
  "relay_socket_addrs ops c target =
     (case target of
        NoRelay \<Rightarrow> nlift (Err NoRelayPresent)
      | RelayIpv4 addr \<Rightarrow> nret [\<lparr>timed_value = socket_new (V4 addr) AMT_PORT, timed_ttl = DURATION_MAX\<rparr>]
      | RelayIpv6 addr \<Rightarrow> nret [\<lparr>timed_value = socket_new (V6 addr) AMT_PORT, timed_ttl = DURATION_MAX\<rparr>]
      | RelayName name \<Rightarrow>
          nbind (lookup_host ops c name) (\<lambda>found.
          let addresses = map (\<lambda>a. \<lparr>timed_value = socket_new (timed_value a) AMT_PORT, timed_ttl = timed_ttl a\<rparr>) found
          in if addresses = [] then nlift (Err NoUsableRelay) else nret addresses))"

section \<open>Ordering of candidates\<close>

definition xorshift64 :: "64 word \<Rightarrow> 64 word" where
  "xorshift64 value =
     (let value = (if value = 0 then 0x2545f4914f6cdd1d else value);
          value = value XOR push_bit 13 value;
          value = value XOR drop_bit 7 value
      in value XOR push_bit 17 value)"

definition random_u64_best_effort :: "'s net_ops \<Rightarrow> 's \<Rightarrow> 64 word \<times> 's" where
  "random_u64_best_effort ops s =
     (case op_random_u64 ops s of (Some r, s) \<Rightarrow> (r, s) | (None, s) \<Rightarrow> (0x9e3779b97f4a7c15, s))"

definition swap_at :: "nat \<Rightarrow> nat \<Rightarrow> 'a list \<Rightarrow> 'a list" where
  "swap_at i j xs = xs[i := xs ! j, j := xs ! i]"

text \<open>The shuffle, with the indices \<open>i\<close> down to 1 still to be visited.\<close>

fun shuffle_from :: "nat \<Rightarrow> 64 word \<Rightarrow> 'a list \<Rightarrow> 'a list" where
  "shuffle_from 0 random xs = xs"
| "shuffle_from (Suc i) random xs =
     (let random = xorshift64 random in shuffle_from i random (swap_at (Suc i) (unat random mod (Suc i + 1)) xs))"

definition pop_either :: "'a list \<times> 'a list \<Rightarrow> (driad_error, 'a \<times> 'a list \<times> 'a list) res" where
  "pop_either = (\<lambda>(first, second). case first of
     x # first \<Rightarrow> Ok (x, first, second)
   | [] \<Rightarrow> (case second of x # second \<Rightarrow> Ok (x, first, second) | [] \<Rightarrow> Panic))"

definition interleave_step ::
  "bool \<Rightarrow> nat \<Rightarrow> 'a list \<times> 'a list \<times> 'a list \<Rightarrow> (driad_error, 'a list \<times> 'a list \<times> 'a list) res" where
  "interleave_step prefer_ipv6 index = (\<lambda>(ipv4, ipv6, out).
     let take_ipv6 = ((index mod 2 = 0) = prefer_ipv6) in
     if take_ipv6 then bnd (pop_either (ipv6, ipv4)) (\<lambda>(x, ipv6, ipv4). Ok (ipv4, ipv6, out @ [x]))
     else bnd (pop_either (ipv4, ipv6)) (\<lambda>(x, ipv4, ipv6). Ok (ipv4, ipv6, out @ [x])))"

definition interleave :: "bool \<Rightarrow> nat \<Rightarrow> 'a list \<Rightarrow> 'a list \<Rightarrow> (driad_error, 'a list) res" where
  "interleave prefer_ipv6 len ipv4 ipv6 =
     bnd (for_each [0..<len] (interleave_step prefer_ipv6) (ipv4, ipv6, [])) (\<lambda>(_, _, out). Ok out)"

definition shuffle_and_interleave_families ::
  "'s net_ops \<Rightarrow> driad_relay_selection list \<Rightarrow> ('s, driad_relay_selection list) net" where
  "shuffle_and_interleave_families ops selections =
     (if length selections < 2 then nret selections else (\<lambda>s.
      let (random, s) = random_u64_best_effort ops s;
          selections = shuffle_from (length selections - 1) random selections;
          prefer_ipv6 = \<not> is_v4 (sock_ip (sl_relay (selections ! 0)));
          ipv4 = filter (\<lambda>selection. is_v4 (sock_ip (sl_relay selection))) selections;
          ipv6 = filter (\<lambda>selection. \<not> is_v4 (sock_ip (sl_relay selection))) selections
      in (interleave prefer_ipv6 (length selections) ipv4 ipv6, s)))"

abbreviation precedence_of :: "driad_relay_selection \<Rightarrow> u8" where
  "precedence_of selection \<equiv> ar_precedence (sl_record selection)"

function order_groups :: "'s net_ops \<Rightarrow> driad_relay_selection list \<Rightarrow> ('s, driad_relay_selection list) net" where
  "order_groups ops [] = nret []"
| "order_groups ops (x # xs) =
     nbind (shuffle_and_interleave_families ops (takeWhile (\<lambda>y. precedence_of y = precedence_of x) (x # xs))) (\<lambda>group.
     nbind (order_groups ops (dropWhile (\<lambda>y. precedence_of y = precedence_of x) (x # xs))) (\<lambda>rest.
     nret (group @ rest)))"
  by pat_completeness auto
termination
  by (relation "measure (\<lambda>(_, xs). length xs)") (auto simp: less_Suc_eq_le length_dropWhile_le)

definition order_relay_candidates ::
  "'s net_ops \<Rightarrow> driad_relay_selection list \<Rightarrow> ('s, driad_relay_selection list) net" where
  "order_relay_candidates ops selections = order_groups ops (sort_key precedence_of selections)"

section \<open>Resolving a source\<close>

definition ipv6_is_unicast_link_local :: "ipv6 \<Rightarrow> bool" where
  "ipv6_is_unicast_link_local a = (ipv6_segment0 a AND 0xffc0 = 0xfe80)"

fun is_usable_relay_address :: "ip_addr \<Rightarrow> bool" where
  "is_usable_relay_address (V4 a) = (\<not> ipv4_is_unspecified a \<and> \<not> ipv4_is_multicast a \<and> \<not> ipv4_is_broadcast a)"
| "is_usable_relay_address (V6 a) =
     (\<not> ipv6_is_unspecified a \<and> \<not> ipv6_is_multicast a \<and> \<not> ipv6_is_unicast_link_local a)"

fun select_relays ::
  "nat \<Rightarrow> ip_addr \<Rightarrow> dname \<Rightarrow> amt_relay_record timed \<Rightarrow> socket_addr timed list \<Rightarrow> driad_relay_selection list
   \<Rightarrow> driad_relay_selection list" where
  "select_relays cap source query_name record [] selections = selections"
| "select_relays cap source query_name record (relay # relays) selections =
     (if \<not> is_usable_relay_address (sock_ip (timed_value relay))
         \<or> list_ex (\<lambda>selection. sl_relay selection = timed_value relay) selections
      then select_relays cap source query_name record relays selections else
      let selections = selections @ [\<lparr>sl_source = source, sl_query_name = query_name, sl_record = timed_value record,
            sl_relay = timed_value relay, sl_ttl = min (timed_ttl record) (timed_ttl relay)\<rparr>]
      in if cap \<le> length selections then selections
         else select_relays cap source query_name record relays selections)"

fun select_records ::
  "'s net_ops \<Rightarrow> driad_resolver_config \<Rightarrow> ip_addr \<Rightarrow> dname \<Rightarrow> amt_relay_record timed list
   \<Rightarrow> driad_relay_selection list \<Rightarrow> ('s, driad_relay_selection list) net" where
  "select_records ops c source query_name [] selections = nret selections"
| "select_records ops c source query_name (record # records) selections =
     ncatch (relay_socket_addrs ops c (ar_target (timed_value record))) (\<lambda>r. case r of
       Ok relays \<Rightarrow>
         let cap = max (dc_max_candidates c) 1;
             selections = select_relays cap source query_name record relays selections
         in if cap \<le> length selections then nret selections
            else select_records ops c source query_name records selections
     | _ \<Rightarrow> select_records ops c source query_name records selections)"

definition resolve_source_candidates ::
  "'s net_ops \<Rightarrow> driad_resolver_config \<Rightarrow> ip_addr \<Rightarrow> ('s, driad_relay_selection list) net" where
  "resolve_source_candidates ops c source =
     nbind (nlift (validate_resolver c)) (\<lambda>_.
     let query_name = reverse_source_name source in
     nbind (lookup_amtrelay_following_aliases ops c query_name) (\<lambda>records.
     if list_ex (\<lambda>record. ar_target (timed_value record) = NoRelay) records then nlift (Err NoRelayPresent) else
     let records = sort_key (\<lambda>record. ar_precedence (timed_value record)) records in
     nbind (select_records ops c source query_name (take (max (dc_max_candidates c) 1) records) []) (\<lambda>selections.
     if selections = [] then nlift (Err NoUsableRelay) else order_relay_candidates ops selections)))"

definition resolve_source :: "'s net_ops \<Rightarrow> driad_resolver_config \<Rightarrow> ip_addr \<Rightarrow> ('s, driad_relay_selection) net" where
  "resolve_source ops c source =
     nbind (resolve_source_candidates ops c source) (\<lambda>selections.
     case selections of selection # _ \<Rightarrow> nret selection | [] \<Rightarrow> nlift (Err NoUsableRelay))"

section \<open>Ordering is a fair permutation\<close>

lemma nbind_Ok: "nbind m f s = (Ok y, s') \<longleftrightarrow> (\<exists>x t. m s = (Ok x, t) \<and> f x t = (Ok y, s'))"
  by (auto simp: nbind_def split: prod.split res.split)

lemma net_simps [simp]:
  "nret x s = (Ok x, s)" "nlift r s = (r, s)" "nbind (nret x) f = f x" "nbind (nlift (Ok x)) f = f x"
  "nbind (nlift (Err e)) f = nlift (Err e)"
  by (simp_all add: nret_def nlift_def nbind_def)

lemma mset_swap_at: "i < length xs \<Longrightarrow> j < length xs \<Longrightarrow> mset (swap_at i j xs) = mset xs"
  unfolding swap_at_def by (rule mset_swap)

lemma length_swap_at [simp]: "length (swap_at i j xs) = length xs"
  by (simp add: swap_at_def)

lemma mset_shuffle_from: "i < length xs \<Longrightarrow> mset (shuffle_from i random xs) = mset xs"
proof (induction i random xs rule: shuffle_from.induct)
  case (2 i random xs)
  have "unat (xorshift64 random) mod (Suc i + 1) < length xs"
    using mod_less_divisor[of "Suc i + 1" "unat (xorshift64 random)"] 2(2) by linarith
  then have "mset (swap_at (Suc i) (unat (xorshift64 random) mod (Suc i + 1)) xs) = mset xs"
    using 2(2) by (intro mset_swap_at)
  then show ?case using 2 unfolding shuffle_from.simps Let_def by simp
qed simp

text \<open>Families alternate until one of them is used up.\<close>

fun alternating :: "bool list \<Rightarrow> bool" where
  "alternating (a # b # r) = (if a = b then list_all (\<lambda>c. c = a) r else alternating (b # r))"
| "alternating _ = True"

text \<open>The loop of \<open>interleave\<close> as a recursion: \<open>now\<close> is the queue whose turn it is.\<close>

function alternate :: "'a list \<Rightarrow> 'a list \<Rightarrow> 'a list" where
  "alternate [] other = other"
| "alternate (x # now) other = x # alternate other now"
  by pat_completeness auto
termination
  by (relation "measure (\<lambda>(now, other). length now + length other)") auto

lemma mset_alternate: "mset (alternate a b) = mset a + mset b"
  by (induction a b rule: alternate.induct) auto

lemma alternating_same: "list_all (\<lambda>c. c = a) bs \<Longrightarrow> alternating bs"
proof (induction bs rule: alternating.induct)
  case (1 x y r)
  then show ?case by (auto simp: list_all_iff)
qed simp_all

lemma alternating_Cons:
  "alternating bs \<Longrightarrow> (bs \<noteq> [] \<Longrightarrow> hd bs = a \<Longrightarrow> list_all (\<lambda>c. c = a) bs) \<Longrightarrow> alternating (a # bs)"
  by (cases bs) auto

lemma alternating_alternate:
  assumes "list_all (\<lambda>x. p x = f) a" "list_all (\<lambda>x. p x = (\<not> f)) b"
  shows "alternating (map p (alternate a b))"
  using assms
proof (induction a b arbitrary: f rule: alternate.induct)
  case (1 other)
  then show ?case by (auto simp: list_all_iff intro!: alternating_same[where a = "\<not> f"])
next
  case (2 x now other)
  have "alternating (map p (alternate other now))" using 2(1)[of "\<not> f"] 2(2,3) by simp
  moreover have "list_all (\<lambda>c. c = p x) (map p (alternate other now))"
    if "alternate other now \<noteq> []" "hd (map p (alternate other now)) = p x"
    using that 2(2,3) by (cases other) (auto simp: list_all_iff)
  ultimately show ?case unfolding alternate.simps list.map by (intro alternating_Cons) auto
qed

lemma interleave_loop:
  assumes "length ipv4 + length ipv6 = n"
  shows "for_each [k..<k + n] (interleave_step prefer_ipv6) (ipv4, ipv6, out) =
    Ok ([], [], out @ (if (k mod 2 = 0) = prefer_ipv6 then alternate ipv6 ipv4 else alternate ipv4 ipv6))"
  using assms
proof (induction n arbitrary: k ipv4 ipv6 out)
  case (Suc n)
  have r: "[k..<k + Suc n] = k # [Suc k..<Suc k + n]" by (simp add: upt_conv_Cons)
  have alt: "alternate (xs :: 'a list) [] = xs" for xs by (cases xs) simp_all
  have k: "(Suc k mod 2 = 0) = (k mod 2 \<noteq> 0)" by (simp add: mod_Suc)
  define turn where "turn = ((k mod 2 = 0) = prefer_ipv6)"
  have t: "((Suc k mod 2 = 0) = prefer_ipv6) = (\<not> turn)" using k by (auto simp: turn_def)
  have step: "interleave_step prefer_ipv6 k (ipv4, ipv6, out) =
      (if turn then bnd (pop_either (ipv6, ipv4)) (\<lambda>(x, ipv6, ipv4). Ok (ipv4, ipv6, out @ [x]))
       else bnd (pop_either (ipv4, ipv6)) (\<lambda>(x, ipv4, ipv6). Ok (ipv4, ipv6, out @ [x])))"
    by (simp add: interleave_step_def turn_def)
  note IH = Suc.IH[where k = "Suc k", unfolded t add_Suc]
  show ?case
    unfolding r for_each.simps step turn_def[symmetric] using Suc.prems
    by (cases ipv4; cases ipv6; cases turn) (simp_all add: pop_either_def IH alt del: upt_Suc)
qed simp

lemma interleave_alternates:
  assumes "length ipv4 + length ipv6 = n"
  shows "interleave prefer_ipv6 n ipv4 ipv6 = Ok (if prefer_ipv6 then alternate ipv6 ipv4 else alternate ipv4 ipv6)"
  unfolding interleave_def using interleave_loop[OF assms, of 0 prefer_ipv6 "[]"] by (simp split del: if_split)

text \<open>What the ordering promises of one group of equal precedence.\<close>

definition family_of_selection :: "driad_relay_selection \<Rightarrow> bool" where
  "family_of_selection selection = is_v4 (sock_ip (sl_relay selection))"

lemma shuffle_and_interleave_ok:
  "\<exists>group s'. shuffle_and_interleave_families ops selections s = (Ok group, s') \<and> mset group = mset selections \<and>
    alternating (map family_of_selection group)"
proof (cases "length selections < 2")
  case True
  then have "alternating (map family_of_selection selections)"
    by (cases selections) (auto simp: less_Suc_eq numeral_2_eq_2)
  then show ?thesis using True by (simp add: shuffle_and_interleave_families_def)
next
  case False
  obtain random s' where r: "random_u64_best_effort ops s = (random, s')" by fastforce
  define xs where "xs = shuffle_from (length selections - 1) random selections"
  let ?v4 = "filter (\<lambda>x. is_v4 (sock_ip (sl_relay x))) xs" and ?v6 = "filter (\<lambda>x. \<not> is_v4 (sock_ip (sl_relay x))) xs"
  have xs: "mset xs = mset selections" using False by (simp add: xs_def mset_shuffle_from)
  have len: "length ?v4 + length ?v6 = length xs" by (rule sum_length_filter_compl)
  have m: "mset ?v4 + mset ?v6 = mset xs" by (simp add: mset_filter multiset_partition[symmetric] union_filter_mset_complement)
  have a: "alternating (map family_of_selection (alternate ?v4 ?v6))" "alternating (map family_of_selection (alternate ?v6 ?v4))"
    by (rule alternating_alternate[where f = True]; simp add: list_all_iff family_of_selection_def)
       (rule alternating_alternate[where f = False]; simp add: list_all_iff family_of_selection_def)
  have "shuffle_and_interleave_families ops selections s =
      (interleave (\<not> is_v4 (sock_ip (sl_relay (xs ! 0)))) (length xs) ?v4 ?v6, s')"
    using False r by (simp add: shuffle_and_interleave_families_def xs_def Let_def)
  then show ?thesis
    using interleave_alternates[OF len] a m xs by (auto simp: mset_alternate add.commute)
qed

lemma sorted_groups:
  assumes "sorted (map precedence_of (x # xs))"
  shows "list_all (\<lambda>y. precedence_of x < precedence_of y) (dropWhile (\<lambda>y. precedence_of y = precedence_of x) (x # xs))"
    "sorted (map precedence_of (dropWhile (\<lambda>y. precedence_of y = precedence_of x) (x # xs)))"
proof -
  let ?d = "dropWhile (\<lambda>y. precedence_of y = precedence_of x) (x # xs)"
  have "sorted (map precedence_of (takeWhile (\<lambda>y. precedence_of y = precedence_of x) (x # xs) @ ?d))"
    using assms by (simp only: takeWhile_dropWhile_id)
  then have s: "sorted (map precedence_of ?d)" by (simp only: map_append sorted_append)
  then show "sorted (map precedence_of ?d)" .
  show "list_all (\<lambda>y. precedence_of x < precedence_of y) ?d"
  proof (cases ?d)
    case (Cons y ys)
    have "precedence_of y \<noteq> precedence_of x" using Cons unfolding dropWhile_eq_Cons_conv by blast
    moreover have "y \<in> set (x # xs)" using set_dropWhileD[of y "\<lambda>y. precedence_of y = precedence_of x" "x # xs"] Cons by simp
    ultimately have "precedence_of x < precedence_of y" using assms by auto
    then show ?thesis using s Cons by (auto simp: list_all_iff)
  next
    case Nil
    then show ?thesis by (simp only: list.pred_inject)
  qed
qed

lemma order_groups_ok:
  assumes "sorted (map precedence_of xs)"
  shows "\<exists>ys s'. order_groups ops xs s = (Ok ys, s') \<and> mset ys = mset xs \<and> sorted (map precedence_of ys) \<and>
    (\<forall>p. alternating (map family_of_selection (filter (\<lambda>y. precedence_of y = p) ys)))"
  using assms
proof (induction ops xs arbitrary: s rule: order_groups.induct)
  case (2 ops x xs)
  let ?same = "\<lambda>y. precedence_of y = precedence_of x"
  let ?rest = "dropWhile ?same (x # xs)"
  obtain group t where g: "shuffle_and_interleave_families ops (takeWhile ?same (x # xs)) s = (Ok group, t)"
      "mset group = mset (takeWhile ?same (x # xs))" "alternating (map family_of_selection group)"
    using shuffle_and_interleave_ok[of ops "takeWhile ?same (x # xs)" s] by blast
  obtain ys s' where r: "order_groups ops ?rest t = (Ok ys, s')" "mset ys = mset ?rest" "sorted (map precedence_of ys)"
      "\<forall>p. alternating (map family_of_selection (filter (\<lambda>y. precedence_of y = p) ys))"
    using "2.IH"[OF sorted_groups(2)[OF "2.prems"]] by blast
  have gp: "\<forall>y \<in> set group. precedence_of y = precedence_of x"
    unfolding set_mset_mset[symmetric, of group] g(2) set_mset_mset by (auto dest: set_takeWhileD)
  have rp: "\<forall>y \<in> set ys. precedence_of x < precedence_of y"
    using sorted_groups(1)[OF "2.prems"] unfolding list_all_iff set_mset_mset[symmetric] r(2) .
  have "mset (group @ ys) = mset (takeWhile ?same (x # xs) @ ?rest)" unfolding mset_append g(2) r(2) ..
  then have "mset (group @ ys) = mset (x # xs)" by (simp only: takeWhile_dropWhile_id)
  moreover have "sorted (map precedence_of (group @ ys))"
  proof -
    have "sorted (map precedence_of group)" using gp by (simp add: sorted_wrt_iff_nth_less)
    then show ?thesis using r(3) gp rp by (auto simp: sorted_append intro: less_imp_le)
  qed
  moreover have "alternating (map family_of_selection (filter (\<lambda>y. precedence_of y = p) (group @ ys)))" for p
  proof (cases "p = precedence_of x")
    case True
    have "filter (\<lambda>y. precedence_of y = p) ys = []" using rp True by (auto simp: filter_empty_conv)
    moreover have "filter (\<lambda>y. precedence_of y = p) group = group" using gp True by simp
    ultimately show ?thesis using g(3) by simp
  next
    case False
    then have "filter (\<lambda>y. precedence_of y = p) group = []" using gp by (auto simp: filter_empty_conv)
    then show ?thesis using r(4) by simp
  qed
  moreover have "order_groups ops (x # xs) s = (Ok (group @ ys), s')"
    using g(1) r(1) by (simp add: nbind_def)
  ultimately show ?case by blast
qed simp

section \<open>The budget is a sliding window\<close>

fun budget_run :: "dns_query_limiter \<Rightarrow> instant list \<Rightarrow> duration option list \<times> dns_query_limiter" where
  "budget_run l [] = ([], l)"
| "budget_run l (now # ts) =
     (let (wait, l) = reserve_at now l; (waits, l) = budget_run l ts in (wait # waits, l))"

text \<open>The specification remembers all grants: a query may go when fewer than the maximum of them
  are younger than the window, else when the oldest such grant expires.\<close>

fun window_budget :: "nat \<Rightarrow> duration \<Rightarrow> instant list \<Rightarrow> instant list \<Rightarrow> duration option list" where
  "window_budget maximum window grants [] = []"
| "window_budget maximum window grants (now # ts) =
     (let live = filter (\<lambda>g. now - g < window) grants in
      if length live < maximum then None # window_budget maximum window (grants @ [now]) ts
      else Some (window - (now - hd live)) # window_budget maximum window grants ts)"

definition budget_inv :: "nat \<Rightarrow> duration \<Rightarrow> instant list \<Rightarrow> instant \<Rightarrow> dns_query_limiter \<Rightarrow> bool" where
  "budget_inv maximum window grants now l \<longleftrightarrow> ql_maximum l = maximum \<and> ql_window l = window \<and> 0 < maximum \<and>
     length (ql_queries l) \<le> maximum \<and> sorted (ql_queries l) \<and> list_all (\<lambda>q. q \<le> now) (ql_queries l) \<and>
     (\<exists>old. grants = old @ ql_queries l \<and> list_all (\<lambda>g. window \<le> now - g) old)"

lemma dropWhile_sorted:
  "sorted qs \<Longrightarrow> dropWhile (\<lambda>q. window \<le> now - q) qs = filter (\<lambda>q. now - q < (window :: nat)) qs"
proof (induction qs)
  case (Cons q qs)
  have "filter (\<lambda>q. now - q < window) qs = qs" if "now - q < window"
    using Cons.prems that by (intro filter_True) (auto intro: le_less_trans[OF diff_le_mono2])
  then show ?case using Cons by auto
qed simp

lemma reserve_window:
  assumes inv: "budget_inv maximum window grants prev l" and "prev \<le> now"
  shows "if length (filter (\<lambda>g. now - g < window) grants) < maximum
    then fst (reserve_at now l) = None \<and> budget_inv maximum window (grants @ [now]) now (snd (reserve_at now l))
    else fst (reserve_at now l) = Some (window - (now - hd (filter (\<lambda>g. now - g < window) grants))) \<and>
      budget_inv maximum window grants now (snd (reserve_at now l))"
proof -
  let ?q = "ql_queries l"
  obtain old where old: "grants = old @ ?q" "list_all (\<lambda>g. window \<le> prev - g) old"
    using inv by (auto simp: budget_inv_def)
  have l: "ql_maximum l = maximum" "ql_window l = window" "0 < maximum" "length ?q \<le> maximum" "sorted ?q"
      "list_all (\<lambda>q. q \<le> prev) ?q"
    using inv by (auto simp: budget_inv_def)
  have expired: "list_all (\<lambda>g. window \<le> now - g) old"
    using old(2) assms(2) by (auto simp: list_all_iff intro: order_trans diff_le_mono)
  then have "filter (\<lambda>g. now - g < window) old = []" by (auto simp: filter_empty_conv list_all_iff not_less)
  then have live: "filter (\<lambda>g. now - g < window) grants = dropWhile (\<lambda>q. window \<le> now - q) ?q"
    using old(1) dropWhile_sorted[OF l(5)] by simp
  define qs where "qs = dropWhile (\<lambda>q. window \<le> now - q) ?q"
  have q: "?q = takeWhile (\<lambda>q. window \<le> now - q) ?q @ qs" by (simp add: qs_def)
  have gone: "grants = (old @ takeWhile (\<lambda>q. window \<le> now - q) ?q) @ qs"
    "list_all (\<lambda>g. window \<le> now - g) (old @ takeWhile (\<lambda>q. window \<le> now - q) ?q)"
    using old(1) q expired by (auto simp: list_all_iff dest: set_takeWhileD)
  have qs: "length qs \<le> maximum" "sorted qs" "list_all (\<lambda>q. q \<le> now) qs"
    using l assms(2) unfolding qs_def
    by (auto simp: list_all_iff dropWhile_sorted[OF l(5)] intro: le_trans[OF length_filter_le] sorted_wrt_filter)
  show ?thesis
  proof (cases "length qs < maximum")
    case True
    then have "reserve_at now l = (None, l\<lparr>ql_queries := qs @ [now]\<rparr>)" using l by (simp add: reserve_at_def qs_def)
    moreover have "budget_inv maximum window (grants @ [now]) now (l\<lparr>ql_queries := qs @ [now]\<rparr>)"
      using True l qs gone unfolding budget_inv_def by (auto simp: sorted_append list_all_iff)
    ultimately show ?thesis using True live by (simp add: qs_def)
  next
    case False
    then obtain g rest where "qs = g # rest" using l(3) by (cases qs) auto
    then have "reserve_at now l = (Some (window - (now - hd qs)), l\<lparr>ql_queries := qs\<rparr>)"
      using False l by (simp add: reserve_at_def qs_def[symmetric])
    moreover have "budget_inv maximum window grants now (l\<lparr>ql_queries := qs\<rparr>)"
      using l qs gone unfolding budget_inv_def by auto
    ultimately show ?thesis using False live by (simp add: qs_def)
  qed
qed

lemma budget_run_window:
  assumes "budget_inv maximum window grants now l" "sorted (now # ts)"
  shows "fst (budget_run l ts) = window_budget maximum window grants ts \<and>
    (\<exists>grants' now'. budget_inv maximum window grants' now' (snd (budget_run l ts)) \<and> now' \<in> set (now # ts))"
  using assms
proof (induction ts arbitrary: grants now l)
  case (Cons t ts)
  obtain wait l' where r: "reserve_at t l = (wait, l')" by fastforce
  note w = reserve_window[OF Cons.prems(1), of t, unfolded r fst_conv snd_conv]
  show ?case
  proof (cases "length (filter (\<lambda>g. t - g < window) grants) < maximum")
    case True
    with w Cons.prems have "wait = None" "budget_inv maximum window (grants @ [t]) t l'" by auto
    with Cons.IH[OF this(2)] Cons.prems True r show ?thesis by (auto simp: Let_def case_prod_unfold)
  next
    case False
    with w Cons.prems have "wait = Some (window - (t - hd (filter (\<lambda>g. t - g < window) grants)))" "budget_inv maximum window grants t l'" by auto
    with Cons.IH[OF this(2)] Cons.prems False r show ?thesis by (auto simp: Let_def case_prod_unfold)
  qed
qed auto

lemma reserve_after_wait:
  assumes "budget_inv maximum window grants prev l" "prev \<le> now" "reserve_at now l = (Some wait, l')"
  shows "0 < wait" "fst (reserve_at (now + wait) l') = None"
proof -
  define qs where "qs = dropWhile (\<lambda>q. window \<le> now - q) (ql_queries l)"
  have l: "ql_maximum l = maximum" "ql_window l = window" "0 < maximum" "length (ql_queries l) \<le> maximum"
      "list_all (\<lambda>q. q \<le> prev) (ql_queries l)"
    using assms(1) by (auto simp: budget_inv_def)
  obtain g rest where g: "qs = g # rest" "wait = window - (now - g)" "l' = l\<lparr>ql_queries := qs\<rparr>"
    using assms(3) l by (auto simp: reserve_at_def qs_def[symmetric] split: if_splits list.splits)
  have young: "now - g < window" using g(1) unfolding qs_def dropWhile_eq_Cons_conv by simp
  then show "0 < wait" using g(2) by simp
  have "g \<in> set (ql_queries l)" using g(1) unfolding qs_def by (metis list.set_intros(1) set_dropWhileD)
  then have "g \<le> now" using l(5) assms(2) by (auto simp: list_all_iff)
  then have "window \<le> now + wait - g" using g(2) young by simp
  then have "length (dropWhile (\<lambda>q. window \<le> now + wait - q) qs) \<le> length rest"
    using g(1) by (simp add: length_dropWhile_le)
  also have "length rest < maximum" using g(1) l(4) length_dropWhile_le[of _ "ql_queries l"] unfolding qs_def
    by (metis Suc_le_lessD le_trans length_Cons)
  finally show "fst (reserve_at (now + wait) l') = None" using l g(3) by (simp add: reserve_at_def)
qed

section \<open>Names of sources\<close>

lemma split_join_dots:
  assumes "ls \<noteq> []" "list_all (\<lambda>l. DOT \<notin> set l) ls"
  shows "split_dots (join_dots ls) = ls"
proof -
  have single: "DOT \<notin> set l \<Longrightarrow> split_dots l = [l]" for l by (induction l) auto
  have cons: "DOT \<notin> set l \<Longrightarrow> split_dots (l @ DOT # r) = l # split_dots r" for l r by (induction l) auto
  show ?thesis using assms by (induction ls rule: join_dots.induct) (auto simp: single cons)
qed

lemma utf8_valid_ascii: "list_all (\<lambda>b. b < 0x80) l \<Longrightarrow> utf8_valid l"
  by (induction l) auto

definition ascii_label :: "nat \<Rightarrow> bytes \<Rightarrow> bool" where
  "ascii_label n l \<longleftrightarrow> l \<noteq> [] \<and> length l \<le> n \<and> list_all (\<lambda>b. b < 0x80 \<and> b \<noteq> DOT) l"

lemma ascii_label_ok: "ascii_label n l \<Longrightarrow> n \<le> 63 \<Longrightarrow> label_ok l \<and> DOT \<notin> set l"
  by (auto simp: ascii_label_def label_ok_def list_all_iff intro!: utf8_valid_ascii)

lemma name_labels_join:
  assumes "ls \<noteq> []" "list_all (\<lambda>l. label_ok l \<and> DOT \<notin> set l) ls"
  shows "name_labels (join_dots ls) = ls"
proof -
  have s: "split_dots (join_dots ls) = ls" using assms by (intro split_join_dots) (auto simp: list_all_iff)
  then have "trim_end_dots (join_dots ls) = join_dots ls"
    using assms(2) by (intro trim_end_dots_split) (auto simp: list_all_iff)
  moreover have "join_dots ls \<noteq> []" using assms by (cases ls rule: join_dots.cases) (auto simp: label_ok_def)
  ultimately show ?thesis using s by (simp add: name_labels_def)
qed

lemma digit_byte:
  "k < 10 \<Longrightarrow> (of_nat (48 + k) :: u8) < 0x80 \<and> (of_nat (48 + k) :: u8) \<noteq> DOT"
  by (simp add: word_less_nat_alt word_eq_iff_unsigned[where 'a = nat] unat_of_nat DOT_def del: of_nat_add)

lemma dec_u8_label: "ascii_label 3 (dec_u8 b)"
proof -
  have "unat b div 100 < 10" "unat b div 10 mod 10 < 10" "unat b mod 10 < 10" using unat_u8_less[of b] by auto
  then show ?thesis
    using digit_byte by (auto simp: dec_u8_def ascii_label_def Let_def simp del: of_nat_add)
qed

lemma nibble_label:
  "ascii_label 1 (hex_nibble (b AND 0x0f))" "ascii_label 1 (hex_nibble (drop_bit 4 b))"
proof -
  have small: "ascii_label 1 (hex_nibble n)" if "unat n < 16" for n :: u8
  proof -
    have "unat n < 10 \<Longrightarrow> unat (48 + n) = 48 + unat n" by (subst unat_add_lem[THEN iffD1]) simp_all
    moreover have "unat (87 + n) = 87 + unat n" using that by (subst unat_add_lem[THEN iffD1]) simp_all
    ultimately show ?thesis
      using that by (auto simp: hex_nibble_def ascii_label_def DOT_def word_less_nat_alt word_eq_iff_unsigned[where 'a = nat])
  qed
  have "unat (b AND 0x0f) < 16"
    using word_and_le1[of b "0x0f"] by (simp add: word_le_nat_alt)
  then show "ascii_label 1 (hex_nibble (b AND 0x0f))" by (rule small)
  have "unat (drop_bit 4 b) < 16" using unat_u8_less[of b] by (subst unat_drop_bit_eq) (simp add: drop_bit_eq_div less_mult_imp_div_less)
  then show "ascii_label 1 (hex_nibble (drop_bit 4 b))" by (rule small)
qed

lemma join_dots_snoc_join:
  "b \<noteq> [] \<Longrightarrow> join_dots (a @ [join_dots b]) = join_dots (a @ b)"
  by (induction a) (auto simp: join_dots_Cons)

lemma join_dots_append: "a \<noteq> [] \<Longrightarrow> b \<noteq> [] \<Longrightarrow> join_dots (a @ b) = join_dots a @ DOT # join_dots b"
  by (induction a rule: join_dots.induct) (auto simp: join_dots_Cons)

text \<open>The labels of the reverse name of a source.\<close>

fun source_labels :: "ip_addr \<Rightarrow> bytes list" where
  "source_labels (V4 a) = map dec_u8 (rev (octets4 a)) @ split_dots IN_ADDR_ARPA"
| "source_labels (V6 a) =
     concat (map (\<lambda>byte. [hex_nibble (byte AND 0x0f), hex_nibble (drop_bit 4 byte)]) (rev (octets6 a))) @ split_dots IP6_ARPA"

lemma arpa_labels:
  "split_dots IN_ADDR_ARPA = [[105, 110, 45, 97, 100, 100, 114], [97, 114, 112, 97]]"
  "split_dots IP6_ARPA = [[105, 112, 54], [97, 114, 112, 97]]"
  by (simp_all add: IN_ADDR_ARPA_def IP6_ARPA_def DOT_def)

lemma reverse_name_join: "reverse_source_name source = join_dots (source_labels source)"
proof (cases source)
  case (V4 a)
  then show ?thesis using join_dots_snoc_join[of "split_dots IN_ADDR_ARPA" "map dec_u8 (rev (octets4 a))"] by simp
next
  case (V6 a)
  have "rev (octets6 a) \<noteq> []" by (metis length_be_bytes length_rev list.size(3) zero_neq_numeral)
  then have "concat (map (\<lambda>byte. [hex_nibble (byte AND 0x0f), hex_nibble (drop_bit 4 byte)]) (rev (octets6 a))) \<noteq> []"
    by (cases "rev (octets6 a)") auto
  then show ?thesis using V6 by (simp add: join_dots_append)
qed

lemma source_labels_ok:
  "list_all (\<lambda>l. label_ok l \<and> DOT \<notin> set l) (source_labels source)" "source_labels source \<noteq> []"
  "length (source_labels source) \<le> 34" "length (enc_labels (source_labels source)) \<le> 100"
proof -
  have d: "label_ok (dec_u8 b) \<and> DOT \<notin> set (dec_u8 b)" "length (dec_u8 b) \<le> 3" for b
    using ascii_label_ok[OF dec_u8_label] dec_u8_label[of b] by (auto simp: ascii_label_def)
  have n: "label_ok (hex_nibble (b AND 0x0f)) \<and> DOT \<notin> set (hex_nibble (b AND 0x0f))"
      "label_ok (hex_nibble (drop_bit 4 b)) \<and> DOT \<notin> set (hex_nibble (drop_bit 4 b))" for b
    using ascii_label_ok[OF nibble_label(1)] ascii_label_ok[OF nibble_label(2)] by auto
  have arpa: "list_all (\<lambda>l. label_ok l \<and> DOT \<notin> set l) (split_dots IN_ADDR_ARPA @ split_dots IP6_ARPA)"
    by (simp add: arpa_labels label_ok_def DOT_def)
  have dsum: "sum_list (map (\<lambda>l. length l + 1) (map dec_u8 bs)) \<le> 4 * length bs" for bs
    by (induction bs) (use d(2) in \<open>auto simp: le_diff_conv intro: add_mono order_trans\<close>)
  have nsum: "sum_list (map (\<lambda>l. length l + 1)
      (concat (map (\<lambda>byte. [hex_nibble (byte AND 0x0f), hex_nibble (drop_bit 4 byte)]) bs))) = 4 * length bs"
    "length (concat (map (\<lambda>byte. [hex_nibble (byte AND 0x0f), hex_nibble (drop_bit 4 byte)]) bs)) = 2 * length bs" for bs
    by (induction bs) (auto simp: hex_nibble_def)
  show "list_all (\<lambda>l. label_ok l \<and> DOT \<notin> set l) (source_labels source)"
    using d(1) n arpa by (cases source) (auto simp: list_all_iff)
  show "source_labels source \<noteq> []" by (cases source) auto
  show "length (source_labels source) \<le> 34" by (cases source) (simp_all add: nsum arpa_labels)
  show "length (enc_labels (source_labels source)) \<le> 100"
  proof (cases source)
    case (V4 a)
    then show ?thesis using dsum[of "rev (octets4 a)"] by (simp add: length_enc_labels arpa_labels rev_map)
  next
    case (V6 a)
    then show ?thesis using nsum(1)[of "rev (octets6 a)"] by (simp add: length_enc_labels arpa_labels)
  qed
qed

lemma reverse_name_askable:
  "name_labels (reverse_source_name source) = source_labels source" "utf8_valid (reverse_source_name source)"
  "\<exists>query. build_dns_query i (reverse_source_name source) qtype = Ok query \<and> length query \<le> 117"
proof -
  let ?ls = "source_labels source"
  show labels: "name_labels (reverse_source_name source) = ?ls"
    unfolding reverse_name_join using source_labels_ok(1,2) by (rule name_labels_join[OF _ _, rotated])
  show "utf8_valid (reverse_source_name source)"
    unfolding reverse_name_join utf8_valid_join using source_labels_ok(1)[of source] by (auto simp: list_all_iff label_ok_def)
  have "length (trim_end_dots (reverse_source_name source)) \<le> 253"
    using length_join_dots[OF source_labels_ok(2)[of source]] source_labels_ok(4)[of source] labels join_name_labels[of "reverse_source_name source"]
    by (simp add: length_enc_labels)
  moreover have "list_all (\<lambda>l. l \<noteq> [] \<and> length l \<le> 63) ?ls"
    using source_labels_ok(1)[of source] by (auto simp: list_all_iff label_ok_def)
  ultimately show "\<exists>query. build_dns_query i (reverse_source_name source) qtype = Ok query \<and> length query \<le> 117"
    using source_labels_ok(4)[of source] by (simp add: build_dns_query_def bnd_eq_Ok put_dns_name_Ok labels)
qed

end
