(* ===== verification/Discovery.thy ===== *)
theory Discovery
  imports Driad
begin

text \<open>
  What relay discovery (\<open>src/driad.rs\<close>, modelled in \<open>Dns\<close> and \<open>Driad\<close>) achieves: the resolver
  never panics, its query rate is bounded, the candidates it returns are usable and fairly
  ordered, and relays that a server publishes are found.
\<close>

section \<open>Panic freedom of the resolver\<close>

definition calm :: "('s, 'a) net \<Rightarrow> bool" where
  "calm m \<longleftrightarrow> (\<forall>s. fst (m s) \<noteq> Panic)"

text \<open>The operations of the system return or fail.\<close>

definition net_total :: "'s net_ops \<Rightarrow> bool" where
  "net_total ops \<longleftrightarrow> calm (op_wait ops) \<and> calm (op_random_id ops) \<and> (\<forall>r q t. calm (op_udp ops r q t)) \<and>
     (\<forall>r q t. calm (op_tcp ops r q t))"

lemma calm_basic [simp]: "calm (nret x)" "calm (nlift r) \<longleftrightarrow> no_panic r"
  by (auto simp: calm_def no_panic_iff)

lemma calm_nbind [intro]: "calm m \<Longrightarrow> (\<And>x. calm (f x)) \<Longrightarrow> calm (nbind m f)"
  by (auto simp: calm_def nbind_def split: prod.split res.split) (metis fst_conv)

lemma calm_ncatch [intro]: "calm m \<Longrightarrow> (\<And>r. r \<noteq> Panic \<Longrightarrow> calm (f r)) \<Longrightarrow> calm (ncatch m f)"
  by (auto simp: calm_def ncatch_def split: prod.split res.split) (metis fst_conv)

lemma calm_state [intro]: "(\<And>x s. calm (f x)) \<Longrightarrow> calm (\<lambda>s. let (x, t) = g s in f x t)"
  by (auto simp: calm_def split: prod.split)

lemma no_panic_build_dns_query [simp]: "no_panic (build_dns_query i name qtype)"
proof -
  have "no_panic (for_each ls (\<lambda>label out. if label = [] \<or> 63 < length label then Err (InvalidDnsName x)
             else Ok (out @ [of_nat (length label)] @ label)) out)" for ls x out
    by (rule no_panic_for_each) auto
  then show ?thesis by (auto simp: build_dns_query_def put_dns_name_def Let_def intro!: no_panic_bnd)
qed

lemma calm_query_wire [simp]: "net_total ops \<Longrightarrow> calm (query_wire ops resolver name qtype timeout)"
  unfolding query_wire_def query_tcp_def net_total_def Let_def by (auto intro!: calm_nbind)

lemma calm_try_resolvers: "net_total ops \<Longrightarrow> calm (try_resolvers ops name timeout rs e)"
  by (induction rs arbitrary: e) (auto simp: query_resolver_def intro!: calm_ncatch calm_nbind split: res.split)

lemma calm_try_attempts: "net_total ops \<Longrightarrow> calm (try_attempts ops c name as e)"
proof (induction as arbitrary: e)
  case (Cons a as)
  then show ?case unfolding try_attempts.simps by (intro calm_state calm_nbind calm_try_resolvers) (auto split: sum.split)
qed simp

lemma calm_follow_aliases: "net_total ops \<Longrightarrow> calm (follow_aliases n ops c q cur visited ttl)"
  by (induction n arbitrary: cur visited ttl)
     (auto simp: lookup_amtrelay_name_def Let_def calm_try_attempts intro!: calm_nbind split: list.split)

lemma calm_host_resolvers: "net_total ops \<Longrightarrow> calm (host_resolvers ops cur qtype timeout rs e)"
  by (induction rs arbitrary: e) (auto intro!: calm_ncatch calm_nbind split: res.split option.split)

lemma calm_host_attempts: "net_total ops \<Longrightarrow> calm (host_attempts ops c cur qtype as e)"
proof (induction as arbitrary: e)
  case (Cons a as)
  then show ?case unfolding host_attempts.simps by (intro calm_state calm_nbind calm_host_resolvers) (auto split: host_outcome.split)
qed simp

lemma calm_host_aliases: "net_total ops \<Longrightarrow> calm (host_aliases n ops c name qtype cur visited ttl)"
  by (induction n arbitrary: cur visited ttl)
     (auto simp: Let_def calm_host_attempts intro!: calm_nbind split: host_outcome.split)

lemma calm_relay_socket_addrs: "net_total ops \<Longrightarrow> calm (relay_socket_addrs ops c target)"
  by (cases target)
     (auto simp: relay_socket_addrs_def lookup_host_def lookup_host_type_def Let_def calm_host_aliases intro!: calm_nbind calm_ncatch)

lemma calm_select_records: "net_total ops \<Longrightarrow> calm (select_records ops c source name records sels)"
proof (induction records arbitrary: sels)
  case (Cons r records)
  then show ?case
    unfolding select_records.simps by (intro calm_ncatch calm_relay_socket_addrs) (auto simp: Let_def split: res.split)
qed simp

lemma order_relay_candidates_ok:
  "\<exists>ys s'. order_relay_candidates ops xs s = (Ok ys, s') \<and> mset ys = mset xs \<and> sorted (map precedence_of ys) \<and>
    (\<forall>p. alternating (map family_of_selection (filter (\<lambda>y. precedence_of y = p) ys)))"
  using order_groups_ok[of "sort_key precedence_of xs" ops s] by (simp add: order_relay_candidates_def)

lemma no_panic_validate_resolver [simp]: "no_panic (validate_resolver c)"
  by (auto simp: validate_resolver_def split: option.split)

lemma calm_resolve: "net_total ops \<Longrightarrow> calm (resolve_source_candidates ops c source)"
proof -
  assume total: "net_total ops"
  have "calm (order_relay_candidates ops sels)" for sels
    unfolding calm_def by (metis order_relay_candidates_ok fst_conv res.distinct(4))
  with total show ?thesis
    unfolding resolve_source_candidates_def lookup_amtrelay_following_aliases_def Let_def
    by (auto intro!: calm_nbind simp: calm_follow_aliases calm_select_records)
qed

section \<open>What is selected\<close>

definition selection_ok :: "ip_addr \<Rightarrow> driad_relay_selection \<Rightarrow> bool" where
  "selection_ok source sel \<longleftrightarrow> sl_source sel = source \<and> is_usable_relay_address (sock_ip (sl_relay sel)) \<and>
     sock_port (sl_relay sel) = AMT_PORT \<and> ar_target (sl_record sel) \<noteq> NoRelay"

definition selections_inv :: "nat \<Rightarrow> ip_addr \<Rightarrow> driad_relay_selection list \<Rightarrow> bool" where
  "selections_inv cap source sels \<longleftrightarrow> length sels \<le> cap \<and> distinct (map sl_relay sels) \<and> list_all (selection_ok source) sels"

lemma sock_port_new [simp]: "sock_port (socket_new ip port) = port"
  by (cases ip) simp_all

lemma sock_ip_new [simp]: "sock_ip (socket_new ip port) = ip"
  by (cases ip) simp_all

lemma relay_socket_addrs_ok:
  assumes "relay_socket_addrs ops c target s = (Ok relays, s')"
  shows "target \<noteq> NoRelay \<and> list_all (\<lambda>r. sock_port (timed_value r) = AMT_PORT) relays"
  using assms by (cases target) (auto simp: relay_socket_addrs_def nbind_Ok Let_def list_all_iff split: if_splits)

lemma select_relays_inv:
  assumes "selections_inv cap source sels" "length sels < cap" "list_all (\<lambda>r. sock_port (timed_value r) = AMT_PORT) relays"
    and "ar_target (timed_value record) \<noteq> NoRelay"
  shows "selections_inv cap source (select_relays cap source name record relays sels)"
  using assms(1-3)
proof (induction relays arbitrary: sels)
  case (Cons r relays)
  show ?case
  proof (cases "is_usable_relay_address (sock_ip (timed_value r)) \<and> \<not> list_ex (\<lambda>s. sl_relay s = timed_value r) sels")
    case True
    let ?sels = "sels @ [\<lparr>sl_source = source, sl_query_name = name, sl_record = timed_value record,
            sl_relay = timed_value r, sl_ttl = min (timed_ttl record) (timed_ttl r)\<rparr>]"
    have "selections_inv cap source ?sels"
      using True Cons.prems assms(4) by (auto simp: selections_inv_def selection_ok_def list_ex_iff)
    with True Cons show ?thesis by (auto simp: Let_def)
  qed (use Cons in auto)
qed simp

lemma select_records_inv:
  assumes cap: "max (dc_max_candidates c) (Suc 0) = cap"
    and "select_records ops c source name records sels s = (Ok sels', s')"
    and "selections_inv cap source sels" "length sels < cap"
  shows "selections_inv cap source sels'"
  using assms(2-4)
proof (induction records arbitrary: sels s)
  case (Cons r records)
  obtain res t where r: "relay_socket_addrs ops c (ar_target (timed_value r)) s = (res, t)" by fastforce
  show ?case
  proof (cases res)
    case (Ok relays)
    let ?sels = "select_relays cap source name r relays sels"
    have inv: "selections_inv cap source ?sels"
      using relay_socket_addrs_ok[of ops c _ s relays t] r Ok Cons.prems(2,3) by (intro select_relays_inv) auto
    show ?thesis
    proof (cases "cap \<le> length ?sels")
      case True
      then show ?thesis using Cons.prems(1) r Ok inv by (simp add: ncatch_def Let_def cap)
    next
      case False
      then show ?thesis using Cons.prems(1) r Ok inv by (intro Cons.IH[of ?sels t]) (simp_all add: ncatch_def Let_def cap)
    qed
  next
    case (Err e)
    then show ?thesis using Cons.prems r by (intro Cons.IH[of sels t]) (simp_all add: ncatch_def)
  qed (use Cons.prems(1) r in \<open>simp add: ncatch_def\<close>)
qed simp

section \<open>Properties of discovery\<close>

text \<open>Candidates are ordered fairly.  Whatever the random numbers, ordering returns a
  permutation of the candidates, sorted by precedence, in which within one precedence the address
  families alternate until one of them is used up; the queue that must not be empty never is.\<close>

lemma candidates_ordered:
  "\<exists>ys s'. order_relay_candidates ops xs s = (Ok ys, s') \<and> mset ys = mset xs \<and> sorted (map precedence_of ys) \<and>
    (\<forall>p. alternating (map family_of_selection (filter (\<lambda>y. precedence_of y = p) ys)))"
  by (rule order_relay_candidates_ok)

text \<open>C35: the query budget bounds the rate.  Over any sequence of requests at increasing times, the
  queue of grants decides like a sliding window over all grants, so that no window sees more
  than the maximum of queries; and a refused query that waits as long as it is told, and not
  at most zero, is granted next.\<close>

theorem dns_budget_window:
  assumes "0 < maximum" and "sorted ts"
  shows "fst (budget_run (query_limiter_new maximum window) ts) = window_budget maximum window [] ts \<and>
    (case reserve_at now (snd (budget_run (query_limiter_new maximum window) ts)) of
       (Some wait, l) \<Rightarrow> (\<forall>t \<in> set ts. t \<le> now) \<longrightarrow> 0 < wait \<and> fst (reserve_at (now + wait) l) = None
     | (None, _) \<Rightarrow> True)"
proof -
  have inv: "budget_inv maximum window [] t (query_limiter_new maximum window)" for t
    using assms(1) by (simp add: budget_inv_def query_limiter_new_def)
  define first where "first = (case ts of [] \<Rightarrow> now | t # _ \<Rightarrow> t)"
  have "sorted (first # ts)" using assms(2) by (cases ts) (auto simp: first_def)
  from budget_run_window[OF inv this] obtain grants t where
    r: "fst (budget_run (query_limiter_new maximum window) ts) = window_budget maximum window [] ts"
    "budget_inv maximum window grants t (snd (budget_run (query_limiter_new maximum window) ts))" "t \<in> set (first # ts)" by blast
  have "t \<le> now" if "\<forall>t \<in> set ts. t \<le> now" using r(3) that by (cases ts) (auto simp: first_def)
  with r(1) reserve_after_wait[OF r(2), of now] show ?thesis by (auto split: option.split prod.split)
qed

theorem dns_budget_window_witness:
  "fst (budget_run (query_limiter_new 2 10) [0, 4, 5, 11]) = [None, None, Some 5, None]"
  using dns_budget_window[of 2 "[0, 4, 5, 11]" 10] by simp

text \<open>C34: what discovery returns can be used.  If the system calls return, resolving a source never
  panics, and a result has between one and the maximum number of candidates, sorted by precedence and
  without repetition, each a usable unicast address on the AMT port, taken from a record that names
  a relay; and it was asked of loopback resolvers only, unless the configuration allows others.\<close>

theorem resolved_candidates_usable:
  assumes "net_total ops"
  shows "case resolve_source_candidates ops c source s of
      (Ok sels, _) \<Rightarrow> sels \<noteq> [] \<and> length sels \<le> dc_max_candidates c \<and> distinct (map sl_relay sels) \<and>
        sorted (map precedence_of sels) \<and> list_all (selection_ok source) sels \<and>
        (\<not> dc_allow_insecure_dns c \<longrightarrow> list_all (\<lambda>r. is_loopback (sock_ip r)) (dc_resolvers c))
    | (Err _, _) \<Rightarrow> True
    | (Panic, _) \<Rightarrow> False"
proof -
  have "sels \<noteq> [] \<and> length sels \<le> dc_max_candidates c \<and> distinct (map sl_relay sels) \<and>
      sorted (map precedence_of sels) \<and> list_all (selection_ok source) sels \<and>
      (\<not> dc_allow_insecure_dns c \<longrightarrow> list_all (\<lambda>r. is_loopback (sock_ip r)) (dc_resolvers c))"
    if r: "resolve_source_candidates ops c source s = (Ok sels, s')" for sels s'
  proof -
    have valid: "validate_resolver c = Ok ()"
      using r by (auto simp: resolve_source_candidates_def nbind_Ok)
    then have c: "0 < dc_max_candidates c" "dc_allow_insecure_dns c \<or> list_all (\<lambda>r. is_loopback (sock_ip r)) (dc_resolvers c)"
      by (auto simp: validate_resolver_def find_None_iff list_all_iff split: if_splits option.splits)
    obtain name records xs t u where x: "select_records ops c source name records [] t = (Ok xs, u)" "xs \<noteq> []"
        "order_relay_candidates ops xs u = (Ok sels, s')"
      using r by (auto simp: resolve_source_candidates_def nbind_Ok Let_def split: if_splits)
    have "selections_inv (dc_max_candidates c) source xs"
      using c(1) by (intro select_records_inv[OF _ x(1)]) (auto simp: selections_inv_def)
    moreover have m: "mset sels = mset xs" and "sorted (map precedence_of sels)"
      using order_relay_candidates_ok[of ops xs u] x(3) by auto
    moreover have "mset (map sl_relay sels) = mset (map sl_relay xs)" using m by simp
    moreover note mset_eq_setD[OF m] mset_eq_length[OF m]
    ultimately show ?thesis
      using c x(2) mset_eq_imp_distinct_iff[of "map sl_relay sels" "map sl_relay xs"]
      by (auto simp: selections_inv_def list_all_iff)
  qed
  moreover have "fst (resolve_source_candidates ops c source s) \<noteq> Panic"
    using calm_resolve[OF assms] by (simp add: calm_def)
  ultimately show ?thesis by (auto split: prod.split res.split)
qed

text \<open>A resolver whose server publishes the records \<open>rs\<close> for a name: waiting and drawing an id succeed,
  and a query for the name is answered with the question repeated and the records.\<close>

definition publishes :: "'s net_ops \<Rightarrow> socket_addr \<Rightarrow> dname \<Rightarrow> (amt_relay_record \<times> u32) list \<Rightarrow> bool" where
  "publishes ops resolver name rs \<longleftrightarrow>
     (\<forall>s. fst (op_wait ops s) = Ok ()) \<and> (\<forall>s. \<exists>i. fst (op_random_id ops s) = Ok i) \<and>
     (\<forall>i query t s. build_dns_query i name AMTRELAY_RRTYPE = Ok query \<longrightarrow>
        fst (op_udp ops resolver query t s) =
          Ok (response_header i 0x8180 (of_nat (length rs)) 0 0 @ drop 12 query @ concat (map enc_answer rs)))"

lemma length_enc_answers:
  "list_all (\<lambda>(r, _). sendable (ar_target r)) rs \<Longrightarrow> length (concat (map enc_answer rs)) \<le> 300 * length rs"
proof (induction rs)
  case (Cons a rs)
  obtain r ttl where a: "a = (r, ttl)" by fastforce
  have "length (enc_answer a) \<le> 300" using length_enc_rdata[of r] Cons.prems by (simp add: a enc_answer_def)
  then show ?case using Cons by simp
qed simp

lemma published_response_parses:
  assumes "publishes ops resolver (reverse_source_name source) rs" and "length rs < 2 ^ 16"
    and "list_all (\<lambda>(r, _). sendable (ar_target r)) rs"
  shows "\<exists>s'. query_resolver ops resolver (reverse_source_name source) timeout s =
    (Ok \<lparr>rr_records = map timed_record rs, rr_aliases = []\<rparr>, s')"
proof -
  let ?name = "reverse_source_name source"
  obtain s1 where w: "op_wait ops s = (Ok (), s1)" using assms(1) by (metis publishes_def prod.collapse)
  obtain i s2 where i: "op_random_id ops s1 = (Ok i, s2)" using assms(1) by (metis publishes_def prod.collapse)
  obtain query where q: "build_dns_query i ?name AMTRELAY_RRTYPE = Ok query" "length query \<le> 117"
    using reverse_name_askable(3) by blast
  define response where "response = response_header i 0x8180 (of_nat (length rs)) 0 0 @ drop 12 query @ concat (map enc_answer rs)"
  obtain s3 where u: "op_udp ops resolver query timeout s2 = (Ok response, s3)"
    using assms(1) q(1) unfolding publishes_def response_def by (metis prod.collapse)
  have "[response ! 2, response ! 3] = be_bytes 2 (0x8180 :: u16)"
    by (simp add: response_def response_header_def be_simps nth_append)
  then have "(from_be [response ! 2, response ! 3] :: u16) AND 0x0200 = 0" by (simp add: from_be_be_bytes)
  with w i q(1) u have "query_wire ops resolver ?name AMTRELAY_RRTYPE timeout s = (Ok (i, response), s3)"
    by (simp add: query_wire_def nbind_def)
  moreover have "parse_dns_response i ?name response = Ok \<lparr>rr_records = map timed_record rs, rr_aliases = []\<rparr>"
  proof (rule amtrelay_response_parses[OF q(1) reverse_name_askable(2) _ _ assms(2,3)])
    show "length (name_labels ?name) \<le> 126" using source_labels_ok(3)[of source] by (simp add: reverse_name_askable(1))
    show "answer_flags 0x8180" by (simp add: answer_flags_def)
    show "response = response_header i 0x8180 (of_nat (length rs)) 0 0 @ drop 12 query @ concat (map enc_answer rs) @ []"
      by (simp add: response_def)
    show "length response < 2 ^ 64"
      using length_enc_answers[OF assms(3)] q(2) assms(2) by (simp add: response_def)
  qed
  ultimately show ?thesis by (simp add: query_resolver_def nbind_def)
qed

text \<open>Selecting from records with literal addresses needs no network.\<close>

fun target_address :: "amt_relay_target \<Rightarrow> ip_addr" where
  "target_address (RelayIpv4 a) = V4 a"
| "target_address (RelayIpv6 a) = V6 a"
| "target_address _ = V4 0"

fun is_literal :: "amt_relay_target \<Rightarrow> bool" where
  "is_literal (RelayIpv4 _) = True"
| "is_literal (RelayIpv6 _) = True"
| "is_literal _ = False"

lemma relay_socket_addrs_literal:
  "is_literal target \<Longrightarrow> relay_socket_addrs ops c target s =
     (Ok [\<lparr>timed_value = socket_new (target_address target) AMT_PORT, timed_ttl = DURATION_MAX\<rparr>], s)"
  by (cases target) (simp_all add: relay_socket_addrs_def)

definition usable_relays :: "amt_relay_record timed list \<Rightarrow> socket_addr set" where
  "usable_relays records = {socket_new a AMT_PORT | a. a \<in> (\<lambda>r. target_address (ar_target (timed_value r))) ` set records \<and>
     is_usable_relay_address a}"

lemma usable_relays_simps:
  "usable_relays [] = {}"
  "usable_relays (r # records) = (let a = target_address (ar_target (timed_value r)) in
     if is_usable_relay_address a then {socket_new a AMT_PORT} else {}) \<union> usable_relays records"
  by (auto simp: usable_relays_def Let_def)

lemma select_records_literal:
  assumes cap: "max (dc_max_candidates c) (Suc 0) = cap"
    and "list_all (\<lambda>r. is_literal (ar_target (timed_value r))) records" and "length sels + length records \<le> cap" and "length sels < cap"
  shows "\<exists>sels'. select_records ops c source name records sels s = (Ok sels', s) \<and>
    sl_relay ` set sels' = sl_relay ` set sels \<union> usable_relays records"
  using assms(2-4)
proof (induction records arbitrary: sels)
  case (Cons r records)
  define a where "a = target_address (ar_target (timed_value r))"
  define relay where "relay = \<lparr>timed_value = socket_new a AMT_PORT, timed_ttl = DURATION_MAX\<rparr>"
  define sels' where "sels' = select_relays cap source name r [relay] sels"
  have addrs: "relay_socket_addrs ops c (ar_target (timed_value r)) s = (Ok [relay], s)"
    using Cons.prems(1) by (simp add: relay_socket_addrs_literal relay_def a_def)
  have set: "sl_relay ` set sels' = sl_relay ` set sels \<union> (if is_usable_relay_address a then {socket_new a AMT_PORT} else {})"
    by (auto simp: sels'_def relay_def list_ex_iff Let_def) (metis image_eqI)
  have len: "length sels' \<le> Suc (length sels)" by (simp add: sels'_def Let_def)
  have step: "select_records ops c source name (r # records) sels s =
      (if cap \<le> length sels' then (Ok sels', s) else select_records ops c source name records sels' s)"
    using addrs by (simp add: ncatch_def Let_def cap sels'_def del: select_relays.simps)
  show ?case
  proof (cases "cap \<le> length sels'")
    case True
    then have "records = []" using len Cons.prems(2,3) by (cases records) auto
    then show ?thesis using True set step by (simp add: usable_relays_simps a_def Let_def)
  next
    case False
    then show ?thesis
      using Cons.IH[of sels'] Cons.prems len set step by (auto simp: usable_relays_simps a_def Let_def)
  qed
qed (simp add: usable_relays_simps)

lemma lookup_first_answer:
  assumes "dc_resolvers c = resolver # others" and "\<And>timeout s. \<exists>s'. query_resolver ops resolver name timeout s = (Ok response, s')"
    and "rr_records response \<noteq> []"
  shows "\<exists>s'. lookup_amtrelay_following_aliases ops c name s =
    (Ok (map (\<lambda>r. \<lparr>timed_value = timed_value r, timed_ttl = min (timed_ttl r) DURATION_MAX\<rparr>) (rr_records response)), s')"
proof -
  obtain timeout t where t: "retry_timeout ops c 0 s = (timeout, t)" by fastforce
  obtain u where u: "query_resolver ops resolver name timeout t = (Ok response, u)" using assms(2) by blast
  have "[0..<max (dc_attempts c) 1] = 0 # [1..<max (dc_attempts c) 1]" by (simp add: upt_rec)
  then have "lookup_amtrelay_name ops c name s = (Ok response, u)"
    using t u assms(1) by (simp add: lookup_amtrelay_name_def nbind_def ncatch_def)
  moreover have depth: "MAX_ALIAS_DEPTH = Suc 7" by (simp add: MAX_ALIAS_DEPTH_def)
  ultimately show ?thesis
    unfolding lookup_amtrelay_following_aliases_def depth follow_aliases.simps using assms(3) by (simp add: nbind_def)
qed

lemma usable_relays_cong:
  assumes "(\<lambda>r. ar_target (timed_value r)) ` set xs = (\<lambda>r. ar_target (timed_value r)) ` set ys"
  shows "usable_relays xs = usable_relays ys"
proof -
  have "(\<lambda>r. target_address (ar_target (timed_value r))) ` set xs = (\<lambda>r. target_address (ar_target (timed_value r))) ` set ys"
    using arg_cong[OF assms, of "image target_address"] by (simp add: image_image)
  then show ?thesis by (simp only: usable_relays_def)
qed

text \<open>C33: a published relay is found.  If the first resolver's server publishes AMTRELAY records with
  literal addresses for the reverse name of the source, no more than the candidate limit and at least
  one of them usable, then resolving the source succeeds and yields exactly the usable addresses on
  the AMT port.\<close>

theorem published_relays_found:
  assumes "validate_resolver c = Ok ()" and "dc_resolvers c = resolver # others"
    and "publishes ops resolver (reverse_source_name source) rs"
    and "list_all (\<lambda>(r, _). is_literal (ar_target r)) rs" and "length rs < 2 ^ 16" and "length rs \<le> dc_max_candidates c"
    and "list_ex (\<lambda>(r, _). is_usable_relay_address (target_address (ar_target r))) rs"
  shows "\<exists>sels s'. resolve_source_candidates ops c source s = (Ok sels, s') \<and>
    sl_relay ` set sels = {socket_new a AMT_PORT | a.
      a \<in> (\<lambda>(r, _). target_address (ar_target r)) ` set rs \<and> is_usable_relay_address a}"
proof -
  let ?name = "reverse_source_name source"
  have rs: "rs \<noteq> []" "0 < dc_max_candidates c" using assms(6,7) by (cases rs; simp)+
  have sendable: "is_literal t \<Longrightarrow> sendable t" for t by (cases t) simp_all
  then have "list_all (\<lambda>(r, _). sendable (ar_target r)) rs" using assms(4) by (auto simp: list_all_iff)
  note answer = published_response_parses[OF assms(3,5) this]
  define records where "records = map (\<lambda>r. \<lparr>timed_value = timed_value r, timed_ttl = min (timed_ttl r) DURATION_MAX\<rparr>) (map timed_record rs)"
  obtain t where t: "lookup_amtrelay_following_aliases ops c ?name s = (Ok records, t)"
    using lookup_first_answer[OF assms(2) answer] rs(1) by (auto simp: records_def)
  have targets: "(\<lambda>r. ar_target (timed_value r)) ` set records = (\<lambda>(r, _). ar_target r) ` set rs"
    by (force simp: records_def timed_record_def image_image)
  define ordered where "ordered = sort_key (\<lambda>r. ar_precedence (timed_value r)) records"
  have s: "set ordered = set records" "length ordered = length rs" by (simp_all add: ordered_def records_def)
  have literal: "is_literal (ar_target (timed_value r))" if "r \<in> set records" for r
    using that assms(4) by (auto simp: records_def timed_record_def list_all_iff)
  have "usable_relays ordered = usable_relays records" by (rule usable_relays_cong) (simp add: s)
  moreover have addresses: "(\<lambda>r. target_address (ar_target (timed_value r))) ` set records = (\<lambda>(r, _). target_address (ar_target r)) ` set rs"
    using arg_cong[OF targets, of "image target_address"] by (simp add: image_image case_prod_unfold)
  ultimately have relays: "usable_relays ordered = {socket_new a AMT_PORT | a.
      a \<in> (\<lambda>(r, _). target_address (ar_target r)) ` set rs \<and> is_usable_relay_address a}"
    by (simp only: usable_relays_def)
  obtain sels where sels: "select_records ops c source ?name ordered [] t = (Ok sels, t)" "sl_relay ` set sels = usable_relays ordered"
    using select_records_literal[OF refl, of ordered "[]" c ops source ?name t] literal s assms(6) rs(2) by (auto simp: list_all_iff)
  have "usable_relays ordered \<noteq> {}" using assms(7) unfolding relays by (fastforce simp: list_ex_iff)
  then have ne: "sels \<noteq> []" using sels(2) by auto
  obtain ys u where ys: "order_relay_candidates ops sels t = (Ok ys, u)" "mset ys = mset sels"
    using order_relay_candidates_ok[of ops sels t] by blast
  have no: "\<not> list_ex (\<lambda>r. ar_target (timed_value r) = NoRelay) records" using literal by (fastforce simp: list_ex_iff)
  have "take (max (dc_max_candidates c) 1) ordered = ordered" using assms(6) s(2) by simp
  then have "resolve_source_candidates ops c source s = (Ok ys, u)"
    using t no sels(1) ne ys(1) assms(1) unfolding ordered_def
    by (simp add: resolve_source_candidates_def nbind_def Let_def)
  then show ?thesis using sels(2) relays mset_eq_setD[OF ys(2)] by auto
qed

definition sample_relay_record :: amt_relay_record where
  "sample_relay_record = \<lparr>ar_precedence = 10, ar_discovery_optional = False, ar_target = RelayIpv4 0xC0000205\<rparr>"

text \<open>A network in which every query is answered with one record.\<close>

definition sample_net :: "unit net_ops" where
  "sample_net = \<lparr>op_wait = nret (), op_random_id = nret 7,
     op_udp = (\<lambda>_ query _. nret (response_header (from_be (take 2 query)) 0x8180 1 0 0 @ drop 12 query @ enc_answer (sample_relay_record, 300))),
     op_tcp = (\<lambda>_ _ _. nlift (Err (DriadIo ''refused''))), op_random_u64 = (\<lambda>s. (None, s))\<rparr>"

lemma sample_net_publishes: "publishes sample_net resolver name [(sample_relay_record, 300)]"
proof -
  have "from_be (take 2 query) = i" if "build_dns_query i name AMTRELAY_RRTYPE = Ok query" for i :: u16 and query
    using that by (auto simp: build_dns_query_def bnd_eq_Ok put_dns_name_Ok from_be_be_bytes)
  then show ?thesis by (auto simp: publishes_def sample_net_def)
qed

theorem published_relays_found_witness:
  "\<exists>sels s'. resolve_source_candidates sample_net (driad_config_new [SockV4 0x7F000001 53]) (V4 0xC0000201) () = (Ok sels, s') \<and>
     sl_relay ` set sels = {SockV4 0xC0000205 2268}"
proof -
  let ?c = "driad_config_new [SockV4 0x7F000001 53]"
  have "validate_resolver ?c = Ok ()" "length [(sample_relay_record, 300 :: u32)] \<le> dc_max_candidates ?c"
    by (simp_all add: validate_resolver_def driad_config_new_def DEFAULT_TIMEOUT_def DEFAULT_ATTEMPTS_def DEFAULT_MAX_CANDIDATES_def
        DEFAULT_DNS_QUERIES_PER_WINDOW_def DEFAULT_DNS_QUERY_WINDOW_def from_secs_def eval_simps)
  then show ?thesis
    using published_relays_found[OF _ _ sample_net_publishes, of ?c "SockV4 0x7F000001 53" "[]" "V4 0xC0000201" "()"]
    by (simp add: driad_config_new_def sample_relay_record_def AMT_PORT_def eval_simps cong: conj_cong)
qed

theorem resolved_candidates_usable_witness:
  "fst (resolve_source_candidates sample_net (driad_config_new [SockV4 0x7F000001 53]) (V4 0xC0000201) ()) \<noteq> Panic"
proof -
  have "net_total sample_net" by (simp add: net_total_def sample_net_def)
  from resolved_candidates_usable[OF this, of "driad_config_new [SockV4 0x7F000001 53]" "V4 0xC0000201" "()"]
  show ?thesis by (auto split: prod.splits res.splits)
qed

end
