(* ===== verification/Relay_Daemon.thy ===== *)
theory Relay_Daemon
  imports Session Upstream
begin

text \<open>
  The control plane of the relay daemon, \<open>src/daemon.rs\<close>: rate limiting of control datagrams, the
  transaction that commits a membership change only once its upstream subscriptions are
  joined, and the expiry of idle gateways.  The capture library and HMAC are parameters, as in
  \<open>Upstream\<close> and \<open>Relay\<close>.  The lemmas show that what any gateway wants is captured upstream in
  every run, that gateways expire exactly when idle, and that the global rate is bounded.
\<close>

section \<open>Rate limiting\<close>

text \<open>Tokens are counted in units of a billionth, so that a refill over nanoseconds is exact; the
  program computes the same quantities in \<open>f64\<close>, whose rounding is not modelled.\<close>

definition TOKEN :: nat where "TOKEN = 10 ^ 9"

record token_bucket =
  tb_rate :: nat
  tb_burst :: nat
  tb_tokens :: nat
  tb_last_refill :: instant
  tb_last_seen :: instant

definition bucket_new :: "nat \<Rightarrow> nat \<Rightarrow> instant \<Rightarrow> token_bucket" where
  "bucket_new rate burst now = \<lparr>tb_rate = rate, tb_burst = burst, tb_tokens = burst * TOKEN, tb_last_refill = now, tb_last_seen = now\<rparr>"

definition bucket_take :: "instant \<Rightarrow> token_bucket \<Rightarrow> bool \<times> token_bucket" where
  "bucket_take now self =
     (let self = self\<lparr>tb_tokens := min (tb_tokens self + (now - tb_last_refill self) * tb_rate self) (tb_burst self * TOKEN),
                     tb_last_refill := now, tb_last_seen := now\<rparr>
      in if tb_tokens self < TOKEN then (False, self)
         else (True, self\<lparr>tb_tokens := tb_tokens self - TOKEN\<rparr>))"

record control_rate_limiter =
  rl_per_source_rate :: nat
  rl_per_source_burst :: nat
  rl_global :: token_bucket
  rl_sources :: "(ip_addr, token_bucket) btree_map"
  rl_source_capacity :: nat
  rl_last_cleanup :: instant

definition rate_limiter_new :: "nat \<Rightarrow> nat \<Rightarrow> nat \<Rightarrow> nat \<Rightarrow> nat \<Rightarrow> instant \<Rightarrow> control_rate_limiter" where
  "rate_limiter_new per_source_rate per_source_burst global_rate global_burst source_capacity now =
     \<lparr>rl_per_source_rate = max per_source_rate 1, rl_per_source_burst = max per_source_burst 1,
      rl_global = bucket_new (max global_rate 1) (max global_burst 1) now, rl_sources = fmempty,
      rl_source_capacity = source_capacity, rl_last_cleanup = now\<rparr>"

definition cleanup_sources :: "instant \<Rightarrow> control_rate_limiter \<Rightarrow> control_rate_limiter" where
  "cleanup_sources now self =
     (if from_secs 60 \<le> now - rl_last_cleanup self
      then self\<lparr>rl_sources := fmfilter (\<lambda>k. case fmlookup (rl_sources self) k of
                  Some bucket \<Rightarrow> now - tb_last_seen bucket < from_secs 60 | None \<Rightarrow> False) (rl_sources self),
                rl_last_cleanup := now\<rparr>
      else self)"

definition rate_allow :: "instant \<Rightarrow> ip_addr \<Rightarrow> control_rate_limiter \<Rightarrow> bool \<times> control_rate_limiter" where
  "rate_allow now source self =
     (let self = cleanup_sources now self in
      if fmlookup (rl_sources self) source = None \<and> rl_source_capacity self \<le> fcard (fmdom (rl_sources self)) then (False, self) else
      let bucket = (case fmlookup (rl_sources self) source of
            Some bucket \<Rightarrow> bucket | None \<Rightarrow> bucket_new (rl_per_source_rate self) (rl_per_source_burst self) now);
          (granted, bucket) = bucket_take now bucket;
          self = self\<lparr>rl_sources := fmupd source bucket (rl_sources self)\<rparr>
      in if \<not> granted then (False, self) else
         let (granted, global) = bucket_take now (rl_global self) in (granted, self\<lparr>rl_global := global\<rparr>))"

section \<open>Activity of gateways\<close>

type_synonym gateway_activity = "(socket_addr, instant) btree_map"

definition mark_seen_at :: "socket_addr \<Rightarrow> instant \<Rightarrow> gateway_activity \<Rightarrow> gateway_activity" where
  "mark_seen_at endpoint now last_seen = fmupd endpoint now last_seen"

definition activity_remove :: "socket_addr \<Rightarrow> gateway_activity \<Rightarrow> gateway_activity" where
  "activity_remove endpoint last_seen = fmdrop endpoint last_seen"

definition stale_endpoints_at :: "duration \<Rightarrow> instant \<Rightarrow> gateway_activity \<Rightarrow> socket_addr list" where
  "stale_endpoints_at timeout now last_seen =
     map fst (filter (\<lambda>(_, seen). seen \<le> now \<and> timeout \<le> now - seen) (map_iter last_seen))"

definition prune_gateway :: "socket_addr \<Rightarrow> nat \<times> relay \<times> gateway_activity \<Rightarrow> nat \<times> relay \<times> gateway_activity" where
  "prune_gateway endpoint = (\<lambda>(expired, r, activity).
     let activity = activity_remove endpoint activity; (removed, r) = remove_gateway r endpoint
     in (if removed then expired + 1 else expired, r, activity))"

definition prune_stale_gateways :: "instant \<Rightarrow> duration \<Rightarrow> relay \<times> gateway_activity \<Rightarrow> nat \<times> relay \<times> gateway_activity" where
  "prune_stale_gateways now timeout = (\<lambda>(r, activity).
     fold prune_gateway (stale_endpoints_at timeout now activity) (0, r, activity))"

section \<open>The control plane\<close>

record ('c, 'i) relay_daemon =
  rd_relay :: relay
  rd_upstream :: "('c, 'i) upstream_manager"
  rd_activity :: gateway_activity

definition sync_upstream ::
  "('c, 'i, 'e) capture_ops \<Rightarrow> relay_state \<Rightarrow> ('c, 'i) upstream_manager \<Rightarrow> ('e, upstream_reconcile) res \<times> ('c, 'i) upstream_manager" where
  "sync_upstream ops st upstream = reconcile ops (upstream_subscriptions st) upstream"

text \<open>What became of a control datagram, which is also what is counted for it; a response goes
  back to the peer.\<close>

datatype 'e control_outcome =
    ControlResponse bytes
  | ControlUpdated nat
  | ControlTornDown bool
  | ControlRejectedAuth
  | ControlIgnored
  | ControlInvalid relay_error
  | ControlUpstreamFailed 'e
  | ControlPanic

definition finish_action :: "instant \<Rightarrow> socket_addr \<Rightarrow> relay_action \<Rightarrow> ('c, 'i) relay_daemon \<Rightarrow> 'e control_outcome \<times> ('c, 'i) relay_daemon" where
  "finish_action now peer action d =
     (case action of
        Send response \<Rightarrow> (ControlResponse response, d)
      | AcceptedMembershipUpdate _ _ records_applied _ \<Rightarrow>
          (ControlUpdated records_applied,
           d\<lparr>rd_activity := (if contains_endpoint (r_state (rd_relay d)) peer then mark_seen_at peer now (rd_activity d)
                            else activity_remove peer (rd_activity d))\<rparr>)
      | AcceptedTeardown gateway removed \<Rightarrow>
          (ControlTornDown removed,
           d\<lparr>rd_activity := activity_remove (socket_new (teardown_ip gateway) (ge_port gateway)) (rd_activity d)\<rparr>)
      | RejectedAuth \<Rightarrow> (ControlRejectedAuth, d)
      | Ignored \<Rightarrow> (ControlIgnored, d))"

definition handle_amt_datagram ::
  "hmac_fun \<Rightarrow> ('c, 'i, 'e) capture_ops \<Rightarrow> relay_secret option \<Rightarrow> instant \<Rightarrow> socket_addr \<Rightarrow> bytes
   \<Rightarrow> ('c, 'i) relay_daemon \<Rightarrow> 'e control_outcome \<times> ('c, 'i) relay_daemon" where
  "handle_amt_datagram hmac ops fresh now peer datagram d =
     (let (prepared, r) = prepare_datagram hmac fresh now (rd_relay d) peer datagram;
          d = d\<lparr>rd_relay := r\<rparr>
      in case prepared of
           Err error \<Rightarrow> (ControlInvalid error, d)
         | Panic \<Rightarrow> (ControlPanic, d)
         | Ok (action, None) \<Rightarrow> finish_action now peer action d
         | Ok (action, Some candidate) \<Rightarrow>
             let (synced, upstream) = sync_upstream ops candidate (rd_upstream d);
                 d = d\<lparr>rd_upstream := upstream\<rparr>
             in (case synced of
                   Err error \<Rightarrow>
                     (ControlUpstreamFailed error,
                      if contains_endpoint (r_state (rd_relay d)) peer
                      then d\<lparr>rd_activity := mark_seen_at peer now (rd_activity d)\<rparr> else d)
                 | Panic \<Rightarrow> (ControlPanic, d)
                 | Ok _ \<Rightarrow> finish_action now peer action (d\<lparr>rd_relay := commit_state candidate (rd_relay d)\<rparr>)))"

text \<open>The periodic maintenance: gateways idle for the timeout, if there is one, are removed, and the
  upstream subscriptions are reconciled; a failure of that is only logged.\<close>

definition maintain :: "('c, 'i, 'e) capture_ops \<Rightarrow> instant \<Rightarrow> duration option \<Rightarrow> ('c, 'i) relay_daemon \<Rightarrow> ('c, 'i) relay_daemon" where
  "maintain ops now gateway_idle_timeout d =
     (let (r, activity) = (case gateway_idle_timeout of
            Some timeout \<Rightarrow> snd (prune_stale_gateways now timeout (rd_relay d, rd_activity d))
          | None \<Rightarrow> (rd_relay d, rd_activity d))
      in d\<lparr>rd_relay := r, rd_activity := activity, rd_upstream := snd (sync_upstream ops (r_state r) (rd_upstream d))\<rparr>)"

section \<open>The global rate\<close>

text \<open>The tokens a bucket would have if it were refilled now.\<close>

definition available :: "instant \<Rightarrow> token_bucket \<Rightarrow> nat" where
  "available now b = min (tb_tokens b + (now - tb_last_refill b) * tb_rate b) (tb_burst b * TOKEN)"

lemma available_grows:
  assumes "t \<le> now" "tb_last_refill b \<le> t"
  shows "available now b \<le> available t b + (now - t) * tb_rate b"
proof -
  have "now - tb_last_refill b = (t - tb_last_refill b) + (now - t)" using assms by simp
  then have "(now - tb_last_refill b) * tb_rate b = (t - tb_last_refill b) * tb_rate b + (now - t) * tb_rate b"
    by (simp only: distrib_right)
  then show ?thesis unfolding available_def by (simp add: min_def)
qed

lemma bucket_take_available:
  "available now (snd (bucket_take now b)) + (if fst (bucket_take now b) then TOKEN else 0) \<le> available now b"
  "tb_rate (snd (bucket_take now b)) = tb_rate b" "tb_burst (snd (bucket_take now b)) = tb_burst b"
  "tb_last_refill (snd (bucket_take now b)) = now"
  by (auto simp: bucket_take_def available_def Let_def)

lemma rate_allow_global:
  "rl_global (snd (rate_allow now source l)) = rl_global l \<and> \<not> fst (rate_allow now source l) \<or>
   rl_global (snd (rate_allow now source l)) = snd (bucket_take now (rl_global l)) \<and>
     fst (rate_allow now source l) = fst (bucket_take now (rl_global l))"
proof -
  have "rl_global (cleanup_sources now l) = rl_global l" by (simp add: cleanup_sources_def)
  then show ?thesis by (auto simp: rate_allow_def Let_def case_prod_unfold)
qed

fun rate_run :: "control_rate_limiter \<Rightarrow> (instant \<times> ip_addr) list \<Rightarrow> bool list \<times> control_rate_limiter" where
  "rate_run l [] = ([], l)"
| "rate_run l ((now, source) # requests) =
     (let (granted, l) = rate_allow now source l; (grants, l) = rate_run l requests in (granted # grants, l))"

definition grants :: "bool list \<Rightarrow> nat" where
  "grants bs = length (filter (\<lambda>b. b) bs)"

definition global_inv :: "nat \<Rightarrow> nat \<Rightarrow> instant \<Rightarrow> control_rate_limiter \<Rightarrow> bool" where
  "global_inv rate burst t l \<longleftrightarrow> tb_rate (rl_global l) = rate \<and> tb_burst (rl_global l) = burst \<and> tb_last_refill (rl_global l) \<le> t"

lemma rate_allow_step:
  assumes "global_inv rate burst t l" "t \<le> now"
  shows "global_inv rate burst now (snd (rate_allow now source l))"
    "available now (rl_global (snd (rate_allow now source l))) + (if fst (rate_allow now source l) then TOKEN else 0) \<le> available now (rl_global l)"
  using assms rate_allow_global[of now source l] bucket_take_available[of now "rl_global l"]
  by (auto simp: global_inv_def)

lemma rate_run_spends:
  assumes "global_inv rate burst t l" "sorted (t # map fst requests)"
  shows "grants (fst (rate_run l requests)) * TOKEN \<le> available t (rl_global l) + (last (t # map fst requests) - t) * rate \<and>
    global_inv rate burst (last (t # map fst requests)) (snd (rate_run l requests))"
  using assms
proof (induction requests arbitrary: t l)
  case Nil
  then show ?case by (simp add: grants_def)
next
  case (Cons r requests)
  obtain now source where r: "r = (now, source)" by fastforce
  let ?l = "snd (rate_allow now source l)" and ?fin = "last (now # map fst requests)"
  have t: "t \<le> now" "sorted (now # map fst requests)" using Cons.prems(2) r by simp_all
  note step = rate_allow_step[OF Cons.prems(1) t(1), of source]
  note IH = Cons.IH[OF step(1) t(2)]
  have "now \<le> ?fin" using t(2) by (cases requests rule: rev_cases) auto
  have g: "grants (fst (rate_run l (r # requests))) = (if fst (rate_allow now source l) then 1 else 0) + grants (fst (rate_run ?l requests))"
    by (simp add: r grants_def Let_def case_prod_unfold)
  have "grants (fst (rate_run l (r # requests))) * TOKEN \<le> available now (rl_global l) + (?fin - now) * rate"
    using step(2) IH unfolding g by (auto simp: distrib_right)
  also have "\<dots> \<le> available t (rl_global l) + (now - t) * rate + (?fin - now) * rate"
    using available_grows[OF t(1), of "rl_global l"] Cons.prems(1) by (simp add: global_inv_def)
  also have "\<dots> = available t (rl_global l) + (?fin - t) * rate"
    using t(1) \<open>now \<le> ?fin\<close> by (simp add: distrib_right[symmetric])
  finally show ?case using IH by (simp add: r Let_def case_prod_unfold)
qed



section \<open>Captured traffic and activity\<close>

definition covers :: "('c, 'i) upstream_manager \<Rightarrow> relay_state \<Rightarrow> bool" where
  "covers upstream st \<longleftrightarrow> (\<forall>e g s. wanted st e g s \<longrightarrow>
     fmlookup (um_active upstream) (asm g) \<noteq> None \<or> fmlookup (um_active upstream) (ssm g s) \<noteq> None)"

definition tracked :: "instant \<Rightarrow> gateway_activity \<Rightarrow> relay_state \<Rightarrow> bool" where
  "tracked t activity st \<longleftrightarrow> (\<forall>e. contains_endpoint st e \<longrightarrow> fmlookup activity e \<noteq> None) \<and>
     (\<forall>e seen. fmlookup activity e = Some seen \<longrightarrow> seen \<le> t)"

definition daemon_inv :: "instant \<Rightarrow> ('c, 'i) relay_daemon \<Rightarrow> bool" where
  "daemon_inv t d \<longleftrightarrow> relay_inv (rd_relay d) \<and> covers (rd_upstream d) (r_state (rd_relay d)) \<and>
     tracked t (rd_activity d) (r_state (rd_relay d))"

lemma sync_upstream_cases:
  assumes "capture_total ops" and "state_inv st" and "sync_upstream ops st upstream = (r, upstream')"
  obtains (failed) e where "r = Err e" "um_active upstream' = um_active upstream"
  | (synced) u where "r = Ok u" "covers upstream' st"
proof -
  have rec: "reconcile ops (upstream_subscriptions st) upstream = (r, upstream')"
    using assms(3) by (simp add: sync_upstream_def)
  from assms(1) rec show ?thesis
  proof (cases rule: reconcile_cases)
    case (failed e)
    then show ?thesis using that(1) by blast
  next
    case (success new self1 R)
    have "s \<in> set (upstream_subscriptions st) \<longleftrightarrow> s |\<in>| rs_subscriptions st" for s
      by (simp add: upstream_subscriptions_def)
    then have "covers upstream' st"
      using subscriptions_raw(1)[OF assms(2)] success(5) unfolding covers_def by blast
    then show ?thesis using that(2) success(8) by blast
  qed
qed

lemma covers_mono:
  assumes "covers upstream st" "um_active upstream' = um_active upstream"
    "\<And>e. fmlookup (rs_endpoints st') e \<noteq> None \<Longrightarrow> fmlookup (rs_endpoints st') e = fmlookup (rs_endpoints st) e"
  shows "covers upstream' st'"
proof -
  have "wanted st e g s" if "wanted st' e g s" for e g s
  proof -
    have "fmlookup (rs_endpoints st') e \<noteq> None" using that by (auto simp: wanted_def endpoint_interest_def split: option.splits)
    from assms(3)[OF this] that show ?thesis by (simp add: wanted_def endpoint_interest_def)
  qed
  then show ?thesis using assms(1) unfolding covers_def assms(2) by blast
qed

lemma prepared_cases:
  assumes ok: "fst (prepare_datagram hmac fresh now r peer d) = Ok (action, next_state)"
  obtains (update) p l n s where "action = AcceptedMembershipUpdate p l n s"
    "next_state = None \<or> (\<exists>rp. next_state = Some (snd (apply_report_limited (r_state r) peer rp (rc_limits (r_config r)))))"
  | (teardown) g removed where "action = AcceptedTeardown g removed"
    "next_state = None \<and> \<not> contains_endpoint (r_state r) (socket_new (teardown_ip g) (ge_port g)) \<or>
     next_state = Some (snd (remove_endpoint (r_state r) (socket_new (teardown_ip g) (ge_port g))))"
  | (other) "next_state = None" "(\<exists>b. action = Send b) \<or> action = RejectedAuth \<or> action = Ignored"
proof -
  let ?r = "rotate_secret_if_due fresh now r"
  from ok obtain m where m: "fst (prepare_message hmac now ?r peer m) = Ok (action, next_state)"
    by (cases "decode d") (simp_all add: prepare_datagram_def Let_def)
  show ?thesis
  proof (cases m)
    case (MembershipUpdate mac nonce u)
    with m show ?thesis
      by (auto simp: prepare_message_def prepare_update_def case_prod_unfold bnd_eq_Ok
          split: if_splits option.splits intro: update other)
  next
    case (Teardown mac nonce g)
    with m show ?thesis
      by (auto simp: prepare_message_def prepare_teardown_def Let_def case_prod_unfold remove_endpoint_view(2)
          contains_endpoint_def split: if_splits intro: teardown other)
  qed (use m in \<open>auto simp: prepare_message_def prepare_discovery_def prepare_request_def Let_def
        split: if_splits intro: other\<close>)
qed

lemma tracked_mark:
  assumes "tracked t activity st" "t \<le> now" "\<And>e. e \<noteq> peer \<Longrightarrow> contains_endpoint st' e = contains_endpoint st e"
  shows "tracked now (mark_seen_at peer now activity) st'"
  using assms by (fastforce simp: tracked_def mark_seen_at_def)

lemma tracked_remove:
  assumes "tracked t activity st" "t \<le> now" "\<And>e. e \<noteq> peer \<Longrightarrow> contains_endpoint st' e = contains_endpoint st e"
    "\<not> contains_endpoint st' peer"
  shows "tracked now (activity_remove peer activity) st'"
  using assms by (fastforce simp: tracked_def activity_remove_def)

lemma tracked_later: "tracked t activity st \<Longrightarrow> t \<le> now \<Longrightarrow> tracked now activity st"
  by (fastforce simp: tracked_def)

lemma tracked_finish:
  assumes "fst (prepare_datagram hmac fresh now r peer dg) = Ok (action, next_state)"
    and "state_inv (r_state r)" and "tracked t (rd_activity d) (r_state r)" and "t \<le> now"
    and "r_state (rd_relay d) = (case next_state of Some st \<Rightarrow> st | None \<Rightarrow> r_state r)"
  shows "tracked now (rd_activity (snd (finish_action now peer action d))) (r_state (rd_relay d))"
  using assms(1)
proof (cases rule: prepared_cases)
  case (update p l n s)
  then have "contains_endpoint (r_state (rd_relay d)) e = contains_endpoint (r_state r) e" if "e \<noteq> peer" for e
    using that assms(5) apply_report_limited_other[OF assms(2) that] by (auto simp: contains_endpoint_def)
  then show ?thesis
    using update(1) tracked_mark[OF assms(3,4)] tracked_remove[OF assms(3,4)] by (simp add: finish_action_def)
next
  case (teardown g removed)
  let ?e = "socket_new (teardown_ip g) (ge_port g)"
  have "contains_endpoint (r_state (rd_relay d)) e = contains_endpoint (r_state r) e" if "e \<noteq> ?e" for e
    using teardown(2) assms(5) that by (auto simp: contains_endpoint_def remove_endpoint_view(1))
  moreover have "\<not> contains_endpoint (r_state (rd_relay d)) ?e"
    using teardown(2) assms(5) by (auto simp: contains_endpoint_def remove_endpoint_view(1))
  ultimately show ?thesis
    using teardown(1) tracked_remove[OF assms(3,4)] by (simp add: finish_action_def)
next
  case other
  then show ?thesis using tracked_later[OF assms(3,4)] assms(5) by (auto simp: finish_action_def)
qed

lemma finish_action_keeps [simp]:
  "rd_relay (snd (finish_action now peer action d)) = rd_relay d"
  "rd_upstream (snd (finish_action now peer action d)) = rd_upstream d"
  by (simp_all add: finish_action_def split: relay_action.split)

lemma relay_inv_commit:
  assumes "relay_inv r" "fst (prepare_datagram hmac fresh now r peer dg) = Ok (action, Some st)"
  shows "relay_inv (commit_state st (snd (prepare_datagram hmac fresh now r peer dg)))"
  using relay_inv_handle[OF assms(1), of hmac fresh now peer dg] assms(2) by (simp add: handle_datagram_snd)

lemma daemon_inv_handle:
  assumes ops: "capture_total ops" and inv: "daemon_inv t d" and now: "t \<le> now"
  shows "daemon_inv now (snd (handle_amt_datagram hmac ops fresh now peer dg d))"
proof -
  obtain prepared r where p: "prepare_datagram hmac fresh now (rd_relay d) peer dg = (prepared, r)" by fastforce
  have r: "relay_inv r" "r_state r = r_state (rd_relay d)"
    using relay_inv_prepare[of "rd_relay d" hmac fresh now peer dg] prepare_datagram_keeps(1)[of hmac fresh now "rd_relay d" peer dg] inv p
    by (simp_all add: daemon_inv_def)
  have sinv: "state_inv (r_state (rd_relay d))" and track: "tracked t (rd_activity d) (r_state (rd_relay d))"
    and cov: "covers (rd_upstream d) (r_state (rd_relay d))"
    using inv by (simp_all add: daemon_inv_def relay_inv_def)
  note later = tracked_later[OF track now]
  show ?thesis
  proof (cases prepared)
    case (Ok x)
    obtain action next_state where x: "x = (action, next_state)" by fastforce
    have ok: "fst (prepare_datagram hmac fresh now (rd_relay d) peer dg) = Ok (action, next_state)" using p Ok x by simp
    note finish = tracked_finish[OF ok sinv _ now]
    show ?thesis
    proof (cases next_state)
      case None
      then show ?thesis
        using p Ok x r cov track finish[of "d\<lparr>rd_relay := r\<rparr>"]
        by (simp add: handle_amt_datagram_def daemon_inv_def Let_def)
    next
      case (Some st)
      have st: "relay_inv (commit_state st r)" "state_inv st"
        using relay_inv_commit[of "rd_relay d" hmac fresh now peer dg action st] ok Some p inv
        by (simp_all add: daemon_inv_def relay_inv_def)
      obtain synced upstream where s: "sync_upstream ops st (rd_upstream d) = (synced, upstream)" by fastforce
      from ops st(2) s show ?thesis
      proof (cases rule: sync_upstream_cases)
        case (failed e)
        have "covers upstream (r_state r)" using covers_mono[OF cov failed(2), of "r_state r"] r(2) by simp
        then show ?thesis
          using p Ok x Some s failed(1) r later tracked_mark[OF track now, of peer "r_state r"]
          by (simp add: handle_amt_datagram_def daemon_inv_def Let_def)
      next
        case (synced u)
        then show ?thesis
          using p Ok x Some s st(1) track finish[of "d\<lparr>rd_upstream := upstream, rd_relay := commit_state st r\<rparr>"]
          by (simp add: handle_amt_datagram_def daemon_inv_def Let_def)
      qed
    qed
  qed (use p r cov later in \<open>simp_all add: handle_amt_datagram_def daemon_inv_def Let_def\<close>)
qed

lemma prune_gateway_eq:
  "prune_gateway e (n, r, activity) =
     (if fst (remove_gateway r e) then n + 1 else n, snd (remove_gateway r e), activity_remove e activity)"
  by (simp add: prune_gateway_def Let_def case_prod_unfold)

lemma prune_gateways_fold:
  assumes "fold prune_gateway es (n, r, activity) = (n', r', activity')"
  shows "relay_inv r \<Longrightarrow> relay_inv r'"
    and "fmlookup (rs_endpoints (r_state r')) e = (if e \<in> set es then None else fmlookup (rs_endpoints (r_state r)) e)"
    and "fmlookup activity' e = (if e \<in> set es then None else fmlookup activity e)"
proof -
  have "(relay_inv r \<longrightarrow> relay_inv r') \<and>
      fmlookup (rs_endpoints (r_state r')) e = (if e \<in> set es then None else fmlookup (rs_endpoints (r_state r)) e) \<and>
      fmlookup activity' e = (if e \<in> set es then None else fmlookup activity e)"
    using assms
  proof (induction es arbitrary: n r activity)
    case (Cons x es)
    let ?r = "snd (remove_gateway r x)"
    have "fold prune_gateway es (if fst (remove_gateway r x) then n + 1 else n, ?r, activity_remove x activity) = (n', r', activity')"
      using Cons.prems by (simp only: fold.simps comp_apply prune_gateway_eq)
    from Cons.IH[OF this] show ?case
      using relay_inv_remove_gateway[of r x] by (auto simp: activity_remove_def remove_endpoint_view(1))
  qed simp
  then show "relay_inv r \<Longrightarrow> relay_inv r'"
    and "fmlookup (rs_endpoints (r_state r')) e = (if e \<in> set es then None else fmlookup (rs_endpoints (r_state r)) e)"
    and "fmlookup activity' e = (if e \<in> set es then None else fmlookup activity e)" by blast+
qed

lemma stale_iff:
  "e \<in> set (stale_endpoints_at timeout now activity) \<longleftrightarrow>
     (\<exists>seen. fmlookup activity e = Some seen \<and> seen \<le> now \<and> timeout \<le> now - seen)"
  by (force simp: stale_endpoints_at_def map_iter_get)

text \<open>The gateways that maintenance at a time expires.\<close>

definition idle :: "duration option \<Rightarrow> instant \<Rightarrow> gateway_activity \<Rightarrow> socket_addr \<Rightarrow> bool" where
  "idle gateway_idle_timeout now activity e =
     (case gateway_idle_timeout of None \<Rightarrow> False
      | Some timeout \<Rightarrow> e \<in> set (stale_endpoints_at timeout now activity))"

lemma maintain_view:
  assumes "maintain ops now timeout d = d'"
  shows "relay_inv (rd_relay d) \<Longrightarrow> relay_inv (rd_relay d')"
    and "fmlookup (rs_endpoints (r_state (rd_relay d'))) e =
      (if idle timeout now (rd_activity d) e then None else fmlookup (rs_endpoints (r_state (rd_relay d))) e)"
    and "fmlookup (rd_activity d') e = (if idle timeout now (rd_activity d) e then None else fmlookup (rd_activity d) e)"
    and "rd_upstream d' = snd (sync_upstream ops (r_state (rd_relay d')) (rd_upstream d))"
proof -
  obtain n r a where p: "fold prune_gateway (stale_endpoints_at (the timeout) now (rd_activity d))
      (0, rd_relay d, rd_activity d) = (n, r, a)" by (metis prod_cases3)
  note f = prune_gateways_fold[OF p]
  show "relay_inv (rd_relay d) \<Longrightarrow> relay_inv (rd_relay d')"
    and "fmlookup (rs_endpoints (r_state (rd_relay d'))) e =
      (if idle timeout now (rd_activity d) e then None else fmlookup (rs_endpoints (r_state (rd_relay d))) e)"
    and "fmlookup (rd_activity d') e = (if idle timeout now (rd_activity d) e then None else fmlookup (rd_activity d) e)"
    and "rd_upstream d' = snd (sync_upstream ops (r_state (rd_relay d')) (rd_upstream d))"
    using p f f(2,3)[of e] assms by (cases timeout; auto simp: maintain_def Let_def prune_stale_gateways_def idle_def)+
qed

lemma daemon_inv_maintain:
  assumes ops: "capture_total ops" and inv: "daemon_inv t d" and now: "t \<le> now"
  shows "daemon_inv now (maintain ops now timeout d)"
proof -
  define d' where "d' = maintain ops now timeout d"
  note v = maintain_view[OF d'_def[symmetric]]
  have r: "relay_inv (rd_relay d')" using v(1) inv by (simp add: daemon_inv_def)
  have "tracked now (rd_activity d') (r_state (rd_relay d'))"
    using inv now v(2,3) by (fastforce simp: daemon_inv_def tracked_def contains_endpoint_def split: if_splits)
  moreover have "covers (rd_upstream d') (r_state (rd_relay d'))"
  proof -
    obtain res upstream where s: "sync_upstream ops (r_state (rd_relay d')) (rd_upstream d) = (res, upstream)" by fastforce
    have "state_inv (r_state (rd_relay d'))" using r by (simp add: relay_inv_def)
    from ops this s show ?thesis
    proof (cases rule: sync_upstream_cases)
      case (failed e)
      have "covers upstream (r_state (rd_relay d'))"
        by (rule covers_mono[OF _ failed(2)]) (use inv v(2) in \<open>auto simp: daemon_inv_def split: if_splits\<close>)
      then show ?thesis using v(4) s by simp
    qed (use v(4) s in simp)
  qed
  ultimately show ?thesis using r by (simp add: daemon_inv_def d'_def)
qed

section \<open>Runs of the daemon\<close>

text \<open>The daemon starts with a new relay, nothing joined and no gateway known.  A run interleaves
  the handling of datagrams and the maintenance, at times that do not decrease.\<close>

definition daemon_start :: "instant \<Rightarrow> relay_config \<Rightarrow> upstream_config \<Rightarrow> 'c \<Rightarrow> ('c, 'i) relay_daemon" where
  "daemon_start t config upstream_config ctx =
     \<lparr>rd_relay = relay_new t config,
      rd_upstream = \<lparr>um_config = upstream_config, um_context = ctx, um_active = fmempty\<rparr>, rd_activity = fmempty\<rparr>"

inductive daemon_run ::
  "hmac_fun \<Rightarrow> ('c, 'i, 'e) capture_ops \<Rightarrow> duration option \<Rightarrow> instant \<Rightarrow> ('c, 'i) relay_daemon \<Rightarrow> instant \<Rightarrow> ('c, 'i) relay_daemon \<Rightarrow> bool"
  for hmac ops gateway_idle_timeout t0 d0 where
  start: "daemon_run hmac ops gateway_idle_timeout t0 d0 t0 d0"
| datagram: "daemon_run hmac ops gateway_idle_timeout t0 d0 t d \<Longrightarrow> t \<le> now \<Longrightarrow>
    daemon_run hmac ops gateway_idle_timeout t0 d0 now (snd (handle_amt_datagram hmac ops fresh now peer dg d))"
| upkeep: "daemon_run hmac ops gateway_idle_timeout t0 d0 t d \<Longrightarrow> t \<le> now \<Longrightarrow>
    daemon_run hmac ops gateway_idle_timeout t0 d0 now (maintain ops now gateway_idle_timeout d)"

lemma daemon_inv_start: "daemon_inv t (daemon_start t config upstream_config ctx)"
proof -
  have "\<not> wanted empty_state e g s" "\<not> contains_endpoint empty_state e" for e g s
    by (simp_all add: wanted_def endpoint_interest_def empty_state_def contains_endpoint_def)
  then show ?thesis
    using relay_inv_new[of t config]
    by (simp add: daemon_inv_def daemon_start_def covers_def tracked_def relay_new_def)
qed

lemma daemon_run_inv:
  "daemon_run hmac ops timeout t0 d0 t d \<Longrightarrow> capture_total ops \<Longrightarrow> daemon_inv t0 d0 \<Longrightarrow> daemon_inv t d"
  by (induction rule: daemon_run.induct) (auto intro: daemon_inv_handle daemon_inv_maintain)

text \<open>A gateway that joins one source of a group, in one datagram.\<close>

definition sample_daemon :: "(nat list, nat) relay_daemon" where
  "sample_daemon = daemon_start 0 (for_bind (replicate 32 7) (SockV4 0xC0000264 2268)) \<lparr>uc_interface = None, uc_interface_index = None\<rparr> []"

definition sample_update :: bytes where
  "sample_update = encode (MembershipUpdate
     (response_mac_with_secret sample_hmac (rc_secret (r_config sample_relay)) (sock_ip sample_gateway) (sock_port sample_gateway) 9)
     9 (case build_membership_report sample_join of Ok packet \<Rightarrow> packet | _ \<Rightarrow> []))"

lemma sample_rotation: "rotate_secret_if_due None 0 sample_relay = sample_relay"
  by (simp add: rotate_secret_if_due_def sample_relay_def relay_new_def elapsed_def split: option.split)

lemma sample_prepared:
  "\<exists>n subs l. prepare_datagram sample_hmac None 0 sample_relay sample_gateway sample_update =
     (Ok (AcceptedMembershipUpdate Igmpv3 l n subs, Some sample_state), sample_relay)"
proof -
  note p = sample_session_possible[unfolded session_possible_def]
  obtain packet where b: "build_membership_report sample_join = Ok packet"
    using p by (cases "build_membership_report sample_join") auto
  let ?mac = "response_mac_with_secret sample_hmac (rc_secret (r_config sample_relay)) (sock_ip sample_gateway) (sock_port sample_gateway) 9"
  have m: "valid_response_mac sample_hmac 0 sample_relay ?mac (sock_ip sample_gateway) (sock_port sample_gateway) 9"
    by (simp add: valid_response_mac_iff)
  have s: "state_inv (r_state sample_relay)" "r_state sample_relay = empty_state"
    using sample_relay_inv by (simp_all add: relay_inv_def sample_relay_def relay_new_def)
  have e: "rs_endpoints empty_state \<noteq> rs_endpoints (snd (apply_report empty_state sample_gateway sample_join))"
    using sample_state_endpoints by (auto simp: sample_state_def empty_state_def)
  obtain n subs st where "prepare_update sample_hmac 0 sample_relay sample_gateway ?mac 9 packet =
      Ok (AcceptedMembershipUpdate (rp_protocol sample_join) (length packet) n subs, st)"
    "case st of None \<Rightarrow> rs_endpoints (r_state sample_relay) = rs_endpoints (snd (apply_report (r_state sample_relay) sample_gateway sample_join))
      | Some st \<Rightarrow> st = snd (apply_report (r_state sample_relay) sample_gateway sample_join)"
    using prepare_built_update[OF s(1) m b] p by blast
  then show ?thesis
    using e b by (cases st) (simp_all add: s(2) sample_update_def prepare_datagram_def sample_rotation decode_encode_raw
        prepare_message_def sample_state_def sample_join_def[THEN arg_cong[of _ _ rp_protocol]])
qed

lemma list_ops_accept: "fst (add_desired list_ops subs new self) \<noteq> Err x"
  by (induction list_ops subs new self rule: add_desired.induct) (auto simp: list_ops_def Let_def)

lemma remove_stale_no_error: "fst (remove_stale ops subs counts self) \<noteq> Err x"
  by (induction ops subs counts self rule: remove_stale.induct) (auto simp: Let_def split: option.split res.split prod.split)

lemma list_ops_synced: "fst (sync_upstream list_ops st upstream) \<noteq> Err x"
  using list_ops_accept[of "set_iter (fset_of_list (upstream_subscriptions st))" "[]" upstream]
    remove_stale_no_error[of list_ops]
  unfolding sync_upstream_def reconcile_def Let_def
  by (auto split: prod.split res.split) (metis fst_conv)+

lemma sample_joined:
  "r_state (rd_relay (snd (handle_amt_datagram sample_hmac list_ops None 0 sample_gateway sample_update sample_daemon))) = sample_state"
  "fmlookup (rd_activity (snd (handle_amt_datagram sample_hmac list_ops None 0 sample_gateway sample_update sample_daemon))) sample_gateway = Some 0"
proof -
  obtain res upstream where s: "sync_upstream list_ops sample_state (rd_upstream sample_daemon) = (res, upstream)" by fastforce
  have r: "rd_relay sample_daemon = sample_relay" by (simp add: sample_daemon_def daemon_start_def sample_relay_def)
  have "\<exists>u. res = Ok u"
    using list_ops_total sample_state_inv s
  proof (cases rule: sync_upstream_cases)
    case (failed e)
    then show ?thesis using list_ops_synced[of sample_state "rd_upstream sample_daemon" e] s by simp
  qed simp
  moreover have "contains_endpoint sample_state sample_gateway" by (simp add: contains_endpoint_def sample_state_endpoints)
  ultimately show "r_state (rd_relay (snd (handle_amt_datagram sample_hmac list_ops None 0 sample_gateway sample_update sample_daemon))) = sample_state"
    "fmlookup (rd_activity (snd (handle_amt_datagram sample_hmac list_ops None 0 sample_gateway sample_update sample_daemon))) sample_gateway = Some 0"
    using sample_prepared s r by (auto simp: handle_amt_datagram_def Let_def finish_action_def mark_seen_at_def)
qed

text \<open>C11: what a gateway wants is captured.  In every run of the daemon, with a capture library
  that may fail at any call, whenever a source of a group has a gateway to be forwarded to, the
  group or that source of it is subscribed upstream; a membership change whose subscriptions
  cannot be joined is not committed.\<close>

theorem wanted_traffic_captured:
  assumes "capture_total ops"
    and "daemon_run hmac ops timeout t0 (daemon_start t0 config upstream_config ctx) t d"
    and "e \<in> set (matching_endpoints (r_state (rd_relay d)) source grp)"
  shows "fmlookup (um_active (rd_upstream d)) (asm grp) \<noteq> None \<or> fmlookup (um_active (rd_upstream d)) (ssm grp source) \<noteq> None"
proof -
  have inv: "daemon_inv t d" by (rule daemon_run_inv[OF assms(2,1) daemon_inv_start])
  then have "wanted (r_state (rd_relay d)) e grp source"
    using assms(3) matching_endpoints_raw(1)[of "r_state (rd_relay d)"] by (simp add: daemon_inv_def relay_inv_def)
  with inv show ?thesis unfolding daemon_inv_def covers_def by blast
qed

theorem wanted_traffic_captured_witness:
  "\<exists>d. daemon_run sample_hmac list_ops None 0 sample_daemon 0 d \<and>
     sample_gateway \<in> set (matching_endpoints (r_state (rd_relay d)) (V4 0xC0000201) (V4 0xE8010203)) \<and>
     (fmlookup (um_active (rd_upstream d)) (asm (V4 0xE8010203)) \<noteq> None \<or>
      fmlookup (um_active (rd_upstream d)) (ssm (V4 0xE8010203) (V4 0xC0000201)) \<noteq> None)"
proof -
  let ?d = "snd (handle_amt_datagram sample_hmac list_ops None 0 sample_gateway sample_update sample_daemon)"
  have run: "daemon_run sample_hmac list_ops None 0 sample_daemon 0 ?d"
    by (rule daemon_run.datagram[OF daemon_run.start]) simp
  have "sample_gateway \<in> set (matching_endpoints (r_state (rd_relay ?d)) (V4 0xC0000201) (V4 0xE8010203))"
    unfolding sample_joined(1) using matching_endpoints_raw(1)[OF sample_state_inv] sample_state_wanted by blast
  then show ?thesis
    using wanted_traffic_captured[OF list_ops_total run[unfolded sample_daemon_def]] run unfolding sample_daemon_def by blast
qed

text \<open>C37: idle gateways expire, and only they.  In every run, maintenance with an idle timeout
  keeps exactly the gateways marked as active less than the timeout ago, each with the interests it
  had; every gateway with interests has such a mark.\<close>

theorem idle_gateways_expire:
  assumes "capture_total ops"
    and "daemon_run hmac ops (Some timeout) t0 (daemon_start t0 config upstream_config ctx) t d"
    and "t \<le> now"
  shows "fmlookup (rs_endpoints (r_state (rd_relay (maintain ops now (Some timeout) d)))) e =
    (case fmlookup (rd_activity d) e of
       Some seen \<Rightarrow> if now < seen + timeout then fmlookup (rs_endpoints (r_state (rd_relay d))) e else None
     | None \<Rightarrow> None)"
proof -
  have inv: "tracked t (rd_activity d) (r_state (rd_relay d))"
    using daemon_run_inv[OF assms(2,1) daemon_inv_start] by (simp add: daemon_inv_def)
  show ?thesis
  proof (cases "fmlookup (rd_activity d) e")
    case None
    then have "fmlookup (rs_endpoints (r_state (rd_relay d))) e = None"
      using inv by (auto simp: tracked_def contains_endpoint_def)
    then show ?thesis using None by (simp add: maintain_view(2)[OF refl])
  next
    case (Some seen)
    then have "seen \<le> now" using inv assms(3) by (fastforce simp: tracked_def)
    then show ?thesis using Some by (auto simp: maintain_view(2)[OF refl] idle_def stale_iff)
  qed
qed

theorem idle_gateways_expire_witness:
  "\<exists>d. daemon_run sample_hmac list_ops (Some 10) 0 sample_daemon 0 d \<and>
     fmlookup (rs_endpoints (r_state (rd_relay (maintain list_ops 9 (Some 10) d)))) sample_gateway \<noteq> None \<and>
     fmlookup (rs_endpoints (r_state (rd_relay (maintain list_ops 10 (Some 10) d)))) sample_gateway = None"
proof -
  let ?d = "snd (handle_amt_datagram sample_hmac list_ops None 0 sample_gateway sample_update sample_daemon)"
  have run: "daemon_run sample_hmac list_ops (Some 10) 0 sample_daemon 0 ?d"
    by (rule daemon_run.datagram[OF daemon_run.start]) simp
  note expire = idle_gateways_expire[OF list_ops_total run[unfolded sample_daemon_def], folded sample_daemon_def, of _ sample_gateway]
  have "fmlookup (rs_endpoints (r_state (rd_relay (maintain list_ops 9 (Some 10) ?d)))) sample_gateway \<noteq> None"
    "fmlookup (rs_endpoints (r_state (rd_relay (maintain list_ops 10 (Some 10) ?d)))) sample_gateway = None"
    using expire[of 9] expire[of 10] by (simp_all add: sample_joined sample_state_endpoints)
  with run show ?thesis by blast
qed

end
