(* ===== verification/Relay_Forward.thy ===== *)
theory Relay_Forward
  imports Relay Ecn Upstream Pmtu
begin

text \<open>
  The data plane of the relay daemon, \<open>src/daemon.rs\<close>: the work budget, the choice between
  sending, fragmenting and dropping for each gateway, the ECN field of the tunnel, path MTU feedback
  to the source, and the loop that drains the capture queue.  The tunnel socket is a parameter that
  may refuse any datagram; what is handed to it is recorded in order.  The lemmas show that the loop
  with its caches sends to every gateway exactly what a plain definition says, and that whatever the
  socket does, everything sent is wanted where it goes, fits the path and parses there.
\<close>

section \<open>The work budget\<close>

definition MAX_RELAY_DATA_DRAIN :: nat where "MAX_RELAY_DATA_DRAIN = 512"
definition RELAY_DATA_FAIRNESS_BUDGET :: duration where "RELAY_DATA_FAIRNESS_BUDGET = 2 * 10 ^ 6"

record relay_work_budget =
  wb_started :: instant
  wb_packet_limit :: nat
  wb_time_limit :: duration
  wb_packets :: nat

definition budget_new :: "instant \<Rightarrow> nat \<Rightarrow> duration \<Rightarrow> relay_work_budget" where
  "budget_new now packet_limit time_limit =
     \<lparr>wb_started = now, wb_packet_limit = packet_limit, wb_time_limit = time_limit, wb_packets = 0\<rparr>"

definition can_take_packet :: "instant \<Rightarrow> relay_work_budget \<Rightarrow> bool" where
  "can_take_packet now self \<longleftrightarrow> wb_packets self < wb_packet_limit self \<and>
     (wb_packets self = 0 \<or> now - wb_started self < wb_time_limit self)"

definition record_packet :: "relay_work_budget \<Rightarrow> relay_work_budget" where
  "record_packet self = self\<lparr>wb_packets := wb_packets self + 1\<rparr>"

definition budget_exhausted :: "instant \<Rightarrow> relay_work_budget \<Rightarrow> bool" where
  "budget_exhausted now self \<longleftrightarrow> wb_packets self = wb_packet_limit self \<or>
     wb_packets self \<noteq> 0 \<and> wb_time_limit self \<le> now - wb_started self"

section \<open>Tunnel datagrams\<close>

fun outer_ip_header :: "socket_addr \<Rightarrow> nat" where
  "outer_ip_header (SockV4 _ _) = 20"
| "outer_ip_header (SockV6 _ _ _ _) = 40"

definition tunnel_mtu :: "nat \<Rightarrow> socket_addr \<Rightarrow> nat" where
  "tunnel_mtu path_mtu endpoint = path_mtu - (outer_ip_header endpoint + 8 + 2)"

definition tunnel_ecn :: "instant \<Rightarrow> relay \<Rightarrow> socket_addr \<Rightarrow> bytes \<Rightarrow> ecn_codepoint \<times> bool" where
  "tunnel_ecn now r endpoint packet =
     (if gateway_ecn_capable now r endpoint
      then (case ip_ecn packet of Ok ecn \<Rightarrow> ecn | _ \<Rightarrow> NotEct, True) else (NotEct, False))"

datatype prepared_tunnel_data =
    TunnelPackets "bytes list"
  | TunnelDrop ipv4_fragment_error
  | TunnelDropIpv6

definition requires_pmtu_feedback :: "prepared_tunnel_data \<Rightarrow> bool" where
  "requires_pmtu_feedback self \<longleftrightarrow> self = TunnelDrop FragDontFragment \<or> self = TunnelDropIpv6"

definition prepare_oversized_tunnel_data :: "bytes \<Rightarrow> nat \<Rightarrow> ('e, prepared_tunnel_data) res" where
  "prepare_oversized_tunnel_data packet mtu =
     (if map_option (drop_bit 4) (get_byte packet 0) \<noteq> Some 4 then Ok TunnelDropIpv6
      else case fragment_ipv4_for_tunnel packet mtu of
             Ok fragments \<Rightarrow> Ok (TunnelPackets (map (\<lambda>fragment. encode (MulticastData fragment)) fragments))
           | Err error \<Rightarrow> Ok (TunnelDrop error)
           | Panic \<Rightarrow> Panic)"

section \<open>Path MTU feedback\<close>

record ('c, 'p) relay_pmtu_feedback =
  pf_enabled :: bool
  pf_sender :: "('c, 'p) pmtu_feedback_sender option"

datatype 't relay_pmtu_outcome =
    PfDisabled | PfSent nat | PfRateLimited | PfSuppressed | PfAddressFamilyUnavailable
  | PfFailed "'t pmtu_feedback_error"

definition relay_pmtu_send ::
  "('c \<Rightarrow> 'p \<Rightarrow> bytes \<Rightarrow> ('t, nat) res \<times> 'c) \<Rightarrow> instant \<Rightarrow> ('c, 'p) relay_pmtu_feedback \<Rightarrow> bytes \<Rightarrow> nat
   \<Rightarrow> ('e, 't relay_pmtu_outcome \<times> ('c, 'p) relay_pmtu_feedback) res" where
  "relay_pmtu_send send_ip_datagram now self packet mtu =
     (if \<not> pf_enabled self then Ok (PfDisabled, self) else
      case pf_sender self of
        None \<Rightarrow> Ok (PfDisabled, self)
      | Some sender \<Rightarrow>
          let (r, sender) = pmtu_send send_ip_datagram now sender packet mtu;
              self = self\<lparr>pf_sender := Some sender\<rparr>
          in (case r of
                Ok (PmtuSent bytes_sent) \<Rightarrow> Ok (PfSent bytes_sent, self)
              | Ok PmtuRateLimited \<Rightarrow> Ok (PfRateLimited, self)
              | Ok PmtuSuppressed \<Rightarrow> Ok (PfSuppressed, self)
              | Ok PmtuAddressFamilyUnavailable \<Rightarrow> Ok (PfAddressFamilyUnavailable, self)
              | Err error \<Rightarrow> Ok (PfFailed error, self)
              | Panic \<Rightarrow> Panic))"

datatype 't relay_pmtu_start_error = PfNeedsInterface | PfSender "'t pmtu_feedback_error"

definition relay_pmtu_new ::
  "('c \<Rightarrow> ip_addr \<Rightarrow> u32 option \<Rightarrow> ('t, 'p) res \<times> 'c) \<Rightarrow> 'c \<Rightarrow> bool \<Rightarrow> upstream_config
   \<Rightarrow> ('t relay_pmtu_start_error, ('c, 'p) relay_pmtu_feedback) res" where
  "relay_pmtu_new add_publication new_context enabled upstream =
     (if \<not> enabled then Ok \<lparr>pf_enabled = False, pf_sender = None\<rparr> else
      bnd (ok_or (uc_interface upstream) PfNeedsInterface) (\<lambda>local_address.
      bnd (map_err PfSender (pmtu_sender_new add_publication new_context local_address (uc_interface_index upstream))) (\<lambda>sender.
      Ok \<lparr>pf_enabled = True, pf_sender = Some sender\<rparr>)))"

section \<open>Counters and the socket\<close>

record forward_counters =
  fc_unmatched_packets :: nat
  fc_packets_forwarded :: nat
  fc_bytes_forwarded :: nat
  fc_fragments_sent :: nat
  fc_mtu_drops :: nat
  fc_send_errors :: nat
  fc_forward_errors :: nat
  fc_ecn_normal_mode :: nat
  fc_pmtu_sent :: nat
  fc_pmtu_bytes_sent :: nat
  fc_pmtu_rate_limited :: nat
  fc_pmtu_suppressed :: nat
  fc_pmtu_unavailable :: nat
  fc_pmtu_errors :: nat

text \<open>What is sent: the datagram, the gateway it goes to and the ECN field of the outer header.\<close>

type_synonym tunnel_send = "bytes \<times> socket_addr \<times> ecn_codepoint"

record ('s, 'c, 'p) forwarder =
  fw_socket :: 's
  fw_sent :: "tunnel_send list"
  fw_feedback :: "('c, 'p) relay_pmtu_feedback"
  fw_counters :: forward_counters

type_synonym 's send_fun = "'s \<Rightarrow> bytes \<Rightarrow> socket_addr \<Rightarrow> ecn_codepoint \<Rightarrow> bool \<times> 's"

definition send_tunnel_datagram ::
  "'s send_fun \<Rightarrow> bytes \<Rightarrow> socket_addr \<Rightarrow> ecn_codepoint \<Rightarrow> ('s, 'c, 'p) forwarder \<Rightarrow> bool \<times> ('s, 'c, 'p) forwarder" where
  "send_tunnel_datagram send_to datagram endpoint ecn fw =
     (let (sent, socket) = send_to (fw_socket fw) datagram endpoint ecn;
          fw = fw\<lparr>fw_socket := socket, fw_sent := fw_sent fw @ [(datagram, endpoint, ecn)]\<rparr>
      in if sent then (True, fw)
         else (False, fw\<lparr>fw_counters := (fw_counters fw)\<lparr>fc_send_errors := fc_send_errors (fw_counters fw) + 1,
                fc_forward_errors := fc_forward_errors (fw_counters fw) + 1\<rparr>\<rparr>))"

definition record_pmtu_feedback :: "'t relay_pmtu_outcome \<Rightarrow> forward_counters \<Rightarrow> forward_counters" where
  "record_pmtu_feedback outcome c =
     (case outcome of
        PfDisabled \<Rightarrow> c
      | PfSent bytes_sent \<Rightarrow> c\<lparr>fc_pmtu_sent := fc_pmtu_sent c + 1, fc_pmtu_bytes_sent := fc_pmtu_bytes_sent c + bytes_sent\<rparr>
      | PfRateLimited \<Rightarrow> c\<lparr>fc_pmtu_rate_limited := fc_pmtu_rate_limited c + 1\<rparr>
      | PfSuppressed \<Rightarrow> c\<lparr>fc_pmtu_suppressed := fc_pmtu_suppressed c + 1\<rparr>
      | PfAddressFamilyUnavailable \<Rightarrow> c\<lparr>fc_pmtu_unavailable := fc_pmtu_unavailable c + 1\<rparr>
      | PfFailed _ \<Rightarrow> c\<lparr>fc_pmtu_errors := fc_pmtu_errors c + 1\<rparr>)"

section \<open>Forwarding one captured datagram\<close>

text \<open>The variables of the loop over the gateways: what is prepared for either outer family, the
  MTU to report, and the gateways and bytes served.\<close>

record ('s, 'c, 'p) tunnel_loop =
  tl_fw :: "('s, 'c, 'p) forwarder"
  tl_prepared_ipv4_outer :: "prepared_tunnel_data option"
  tl_prepared_ipv6_outer :: "prepared_tunnel_data option"
  tl_feedback_mtu :: "nat option"
  tl_successful_endpoints :: nat
  tl_successful_bytes :: nat

definition tally :: "(forward_counters \<Rightarrow> forward_counters) \<Rightarrow> ('s, 'c, 'p) forwarder \<Rightarrow> ('s, 'c, 'p) forwarder" where
  "tally f fw = fw\<lparr>fw_counters := f (fw_counters fw)\<rparr>"

definition tally_normal_mode :: "bool \<Rightarrow> ('s, 'c, 'p) forwarder \<Rightarrow> ('s, 'c, 'p) forwarder" where
  "tally_normal_mode normal_mode fw =
     (if normal_mode then tally (\<lambda>c. c\<lparr>fc_ecn_normal_mode := fc_ecn_normal_mode c + 1\<rparr>) fw else fw)"

definition tally_mtu_drop :: "('s, 'c, 'p) tunnel_loop \<Rightarrow> ('s, 'c, 'p) tunnel_loop" where
  "tally_mtu_drop l = l\<lparr>tl_fw := tally (\<lambda>c. c\<lparr>fc_mtu_drops := fc_mtu_drops c + 1\<rparr>) (tl_fw l)\<rparr>"

definition prepared_for ::
  "bytes \<Rightarrow> nat \<Rightarrow> socket_addr \<Rightarrow> ('s, 'c, 'p) tunnel_loop \<Rightarrow> ('e, prepared_tunnel_data \<times> ('s, 'c, 'p) tunnel_loop) res" where
  "prepared_for inner_packet mtu endpoint l =
     (case endpoint of
        SockV4 _ _ \<Rightarrow> (case tl_prepared_ipv4_outer l of
            Some prepared \<Rightarrow> Ok (prepared, l)
          | None \<Rightarrow> bnd (prepare_oversized_tunnel_data inner_packet mtu) (\<lambda>prepared.
              Ok (prepared, l\<lparr>tl_prepared_ipv4_outer := Some prepared\<rparr>)))
      | SockV6 _ _ _ _ \<Rightarrow> (case tl_prepared_ipv6_outer l of
            Some prepared \<Rightarrow> Ok (prepared, l)
          | None \<Rightarrow> bnd (prepare_oversized_tunnel_data inner_packet mtu) (\<lambda>prepared.
              Ok (prepared, l\<lparr>tl_prepared_ipv6_outer := Some prepared\<rparr>))))"

fun send_fragments ::
  "'s send_fun \<Rightarrow> instant \<Rightarrow> relay \<Rightarrow> socket_addr \<Rightarrow> bytes list \<Rightarrow> ('s, 'c, 'p) tunnel_loop
   \<Rightarrow> ('e, bool \<times> ('s, 'c, 'p) tunnel_loop) res" where
  "send_fragments send_to now r endpoint [] l = Ok (True, l)"
| "send_fragments send_to now r endpoint (fragment # fragments) l =
     bnd (slice_from fragment 2) (\<lambda>inner.
     let (ecn, normal_mode) = tunnel_ecn now r endpoint inner;
         (sent, fw) = send_tunnel_datagram send_to fragment endpoint ecn (tl_fw l)
     in if sent
        then send_fragments send_to now r endpoint fragments
          (l\<lparr>tl_fw := tally (\<lambda>c. c\<lparr>fc_fragments_sent := fc_fragments_sent c + 1\<rparr>) (tally_normal_mode normal_mode fw),
             tl_successful_bytes := tl_successful_bytes l + (length fragment - 2)\<rparr>)
        else Ok (False, l\<lparr>tl_fw := fw\<rparr>))"

definition serve_endpoint ::
  "'s send_fun \<Rightarrow> instant \<Rightarrow> relay \<Rightarrow> nat \<Rightarrow> bool \<Rightarrow> bytes \<Rightarrow> bytes \<Rightarrow> socket_addr \<Rightarrow> ('s, 'c, 'p) tunnel_loop
   \<Rightarrow> ('e, ('s, 'c, 'p) tunnel_loop) res" where
  "serve_endpoint send_to now r path_mtu ssm_feedback_allowed response inner_packet endpoint l =
     (let mtu = tunnel_mtu path_mtu endpoint in
      if length inner_packet \<le> mtu then
        let (ecn, normal_mode) = tunnel_ecn now r endpoint inner_packet;
            (sent, fw) = send_tunnel_datagram send_to response endpoint ecn (tl_fw l)
        in Ok (if sent
               then l\<lparr>tl_fw := tally_normal_mode normal_mode fw,
                      tl_successful_endpoints := tl_successful_endpoints l + 1,
                      tl_successful_bytes := tl_successful_bytes l + length inner_packet\<rparr>
               else l\<lparr>tl_fw := fw\<rparr>)
      else
        bnd (prepared_for inner_packet mtu endpoint l) (\<lambda>(prepared, l).
        case prepared of
          TunnelPackets fragments \<Rightarrow>
            bnd (send_fragments send_to now r endpoint fragments l) (\<lambda>(complete, l).
            Ok (if complete then l\<lparr>tl_successful_endpoints := tl_successful_endpoints l + 1\<rparr> else tally_mtu_drop l))
        | _ \<Rightarrow>
            let l = tally_mtu_drop l
            in Ok (if ssm_feedback_allowed \<and> requires_pmtu_feedback prepared
                   then l\<lparr>tl_feedback_mtu := Some (case tl_feedback_mtu l of None \<Rightarrow> mtu | Some current \<Rightarrow> min current mtu)\<rparr>
                   else l)))"

fun serve_endpoints ::
  "'s send_fun \<Rightarrow> instant \<Rightarrow> relay \<Rightarrow> nat \<Rightarrow> bool \<Rightarrow> bytes \<Rightarrow> bytes \<Rightarrow> socket_addr list \<Rightarrow> ('s, 'c, 'p) tunnel_loop
   \<Rightarrow> ('e, ('s, 'c, 'p) tunnel_loop) res" where
  "serve_endpoints send_to now r path_mtu ssm_feedback_allowed response inner_packet [] l = Ok l"
| "serve_endpoints send_to now r path_mtu ssm_feedback_allowed response inner_packet (endpoint # endpoints) l =
     bnd (serve_endpoint send_to now r path_mtu ssm_feedback_allowed response inner_packet endpoint l)
       (serve_endpoints send_to now r path_mtu ssm_feedback_allowed response inner_packet endpoints)"

definition forward_datagram ::
  "'s send_fun \<Rightarrow> ('c \<Rightarrow> 'p \<Rightarrow> bytes \<Rightarrow> ('t, nat) res \<times> 'c) \<Rightarrow> instant \<Rightarrow> relay \<Rightarrow> nat \<Rightarrow> upstream_datagram
   \<Rightarrow> ('s, 'c, 'p) forwarder \<Rightarrow> ('e, ('s, 'c, 'p) forwarder) res" where
  "forward_datagram send_to send_ip_datagram now r path_mtu datagram fw =
     (let endpoints = matching_endpoints (r_state r) (ud_source datagram) (ud_group datagram) in
      if endpoints = [] then Ok (tally (\<lambda>c. c\<lparr>fc_unmatched_packets := fc_unmatched_packets c + 1\<rparr>) fw) else
      bnd (normalized_amt_datagram datagram) (\<lambda>response.
      bnd (slice_from response 2) (\<lambda>inner_packet.
      let ssm_feedback_allowed = has_ssm_interest (r_state r) (ud_source datagram) (ud_group datagram) in
      bnd (serve_endpoints send_to now r path_mtu ssm_feedback_allowed response inner_packet endpoints
             \<lparr>tl_fw = fw, tl_prepared_ipv4_outer = None, tl_prepared_ipv6_outer = None, tl_feedback_mtu = None,
              tl_successful_endpoints = 0, tl_successful_bytes = 0\<rparr>) (\<lambda>l.
      bnd (case tl_feedback_mtu l of
             None \<Rightarrow> Ok (tl_fw l)
           | Some mtu \<Rightarrow> bnd (relay_pmtu_send send_ip_datagram now (fw_feedback (tl_fw l)) inner_packet mtu)
               (\<lambda>(outcome, feedback). Ok (tally (record_pmtu_feedback outcome) ((tl_fw l)\<lparr>fw_feedback := feedback\<rparr>)))) (\<lambda>fw.
      Ok (tally (\<lambda>c. c\<lparr>fc_packets_forwarded := fc_packets_forwarded c + tl_successful_endpoints l,
                       fc_bytes_forwarded := fc_bytes_forwarded c + tl_successful_bytes l\<rparr>) fw))))))"

section \<open>Draining the capture queue\<close>

text \<open>The \<open>n\<close>-th reading of the clock and what the queue holds are parameters; everything done for
  one datagram happens at one time.\<close>

function drain_loop ::
  "'s send_fun \<Rightarrow> ('c \<Rightarrow> 'p \<Rightarrow> bytes \<Rightarrow> ('t, nat) res \<times> 'c) \<Rightarrow> (nat \<Rightarrow> instant) \<Rightarrow> ('q \<Rightarrow> ('e, upstream_datagram option) res \<times> 'q)
   \<Rightarrow> relay \<Rightarrow> nat \<Rightarrow> relay_work_budget \<Rightarrow> 'q \<Rightarrow> ('s, 'c, 'p) forwarder
   \<Rightarrow> ('e, relay_work_budget) res \<times> 'q \<times> ('s, 'c, 'p) forwarder" where
  "drain_loop send_to send_ip_datagram clock try_recv r path_mtu budget queue fw =
     (if \<not> can_take_packet (clock (wb_packets budget)) budget then (Ok budget, queue, fw) else
      case try_recv queue of
        (Err e, queue) \<Rightarrow> (Err e, queue, fw)
      | (Panic, queue) \<Rightarrow> (Panic, queue, fw)
      | (Ok None, queue) \<Rightarrow> (Ok budget, queue, fw)
      | (Ok (Some datagram), queue) \<Rightarrow>
          (case forward_datagram send_to send_ip_datagram (clock (wb_packets budget)) r path_mtu datagram fw of
             Ok fw \<Rightarrow> drain_loop send_to send_ip_datagram clock try_recv r path_mtu (record_packet budget) queue fw
           | Err e \<Rightarrow> (Err e, queue, fw)
           | Panic \<Rightarrow> (Panic, queue, fw)))"
  by pat_completeness auto
termination
  by (relation "measure (\<lambda>(_, _, _, _, _, _, budget, _, _). wb_packet_limit budget - wb_packets budget)")
     (auto simp: can_take_packet_def record_packet_def)

declare drain_loop.simps [simp del]

definition drain_upstream ::
  "'s send_fun \<Rightarrow> ('c \<Rightarrow> 'p \<Rightarrow> bytes \<Rightarrow> ('t, nat) res \<times> 'c) \<Rightarrow> (nat \<Rightarrow> instant) \<Rightarrow> ('q \<Rightarrow> ('e, upstream_datagram option) res \<times> 'q)
   \<Rightarrow> relay \<Rightarrow> nat \<Rightarrow> 'q \<Rightarrow> ('s, 'c, 'p) forwarder \<Rightarrow> ('e, bool) res \<times> 'q \<times> ('s, 'c, 'p) forwarder" where
  "drain_upstream send_to send_ip_datagram clock try_recv r path_mtu queue fw =
     (let (outcome, queue, fw) = drain_loop send_to send_ip_datagram clock try_recv r path_mtu
            (budget_new (clock 0) MAX_RELAY_DATA_DRAIN RELAY_DATA_FAIRNESS_BUDGET) queue fw
      in (bnd outcome (\<lambda>budget. Ok (budget_exhausted (clock (wb_packets budget + 1)) budget)), queue, fw))"

section \<open>What each gateway is sent\<close>

definition prepared_value :: "bytes \<Rightarrow> nat \<Rightarrow> prepared_tunnel_data" where
  "prepared_value packet mtu =
     (if map_option (drop_bit 4) (get_byte packet 0) \<noteq> Some 4 then TunnelDropIpv6
      else case fragment_ipv4_for_tunnel packet mtu of
             Ok fragments \<Rightarrow> TunnelPackets (map (\<lambda>fragment. encode (MulticastData fragment)) fragments)
           | Err error \<Rightarrow> TunnelDrop error | Panic \<Rightarrow> TunnelDropIpv6)"

lemma prepare_oversized_total: "prepare_oversized_tunnel_data packet mtu = Ok (prepared_value packet mtu)"
  using no_panic_fragment_ipv4[of packet mtu]
  by (auto simp: prepare_oversized_tunnel_data_def prepared_value_def split: res.split)

text \<open>The datagrams a gateway is to get, none at all when the packet has to be dropped for it.\<close>

definition tunnel_plan :: "nat \<Rightarrow> bytes \<Rightarrow> socket_addr \<Rightarrow> bytes list option" where
  "tunnel_plan path_mtu packet e =
     (if length packet \<le> tunnel_mtu path_mtu e then Some [encode (MulticastData packet)]
      else case prepared_value packet (tunnel_mtu path_mtu e) of TunnelPackets ds \<Rightarrow> Some ds | _ \<Rightarrow> None)"

definition tunnel_sends :: "instant \<Rightarrow> relay \<Rightarrow> nat \<Rightarrow> bytes \<Rightarrow> socket_addr \<Rightarrow> tunnel_send list" where
  "tunnel_sends now r path_mtu packet e =
     (case tunnel_plan path_mtu packet e of None \<Rightarrow> []
      | Some ds \<Rightarrow> map (\<lambda>d. (d, e, fst (tunnel_ecn now r e (drop 2 d)))) ds)"

text \<open>The gateways whose source has to learn of a smaller MTU.\<close>

definition blocked :: "nat \<Rightarrow> bytes \<Rightarrow> socket_addr \<Rightarrow> bool" where
  "blocked path_mtu packet e \<longleftrightarrow> tunnel_mtu path_mtu e < length packet \<and>
     requires_pmtu_feedback (prepared_value packet (tunnel_mtu path_mtu e))"

definition feedback_of :: "bool \<Rightarrow> nat \<Rightarrow> bytes \<Rightarrow> socket_addr list \<Rightarrow> nat option" where
  "feedback_of allowed path_mtu packet es =
     (let mtus = map (tunnel_mtu path_mtu) (filter (blocked path_mtu packet) es)
      in if allowed \<and> mtus \<noteq> [] then Some (Min (set mtus)) else None)"

definition accepting :: "'s send_fun \<Rightarrow> bool" where
  "accepting send_to \<longleftrightarrow> (\<forall>s d e ecn. fst (send_to s d e ecn))"

definition cache_ok :: "nat \<Rightarrow> bytes \<Rightarrow> ('s, 'c, 'p) tunnel_loop \<Rightarrow> bool" where
  "cache_ok path_mtu packet l \<longleftrightarrow>
     (\<forall>p. tl_prepared_ipv4_outer l = Some p \<longrightarrow> p = prepared_value packet (path_mtu - 30)) \<and>
     (\<forall>p. tl_prepared_ipv6_outer l = Some p \<longrightarrow> p = prepared_value packet (path_mtu - 50))"

definition sent :: "('s, 'c, 'p) tunnel_loop \<Rightarrow> tunnel_send list" where
  "sent l = fw_sent (tl_fw l)"

definition drops :: "('s, 'c, 'p) tunnel_loop \<Rightarrow> nat" where
  "drops l = fc_mtu_drops (fw_counters (tl_fw l))"

text \<open>The part of the forwarder the loop over the gateways does not touch.\<close>

definition outside :: "('s, 'c, 'p) tunnel_loop \<Rightarrow> ('c, 'p) relay_pmtu_feedback \<times> nat" where
  "outside l = (fw_feedback (tl_fw l), fc_packets_forwarded (fw_counters (tl_fw l)))"

named_theorems forwarder_simps

lemma send_tunnel_view [forwarder_simps]:
  "fw_sent (snd (send_tunnel_datagram send_to d e ecn fw)) = fw_sent fw @ [(d, e, ecn)]"
  "fw_feedback (snd (send_tunnel_datagram send_to d e ecn fw)) = fw_feedback fw"
  "fc_mtu_drops (fw_counters (snd (send_tunnel_datagram send_to d e ecn fw))) = fc_mtu_drops (fw_counters fw)"
  "fc_packets_forwarded (fw_counters (snd (send_tunnel_datagram send_to d e ecn fw))) = fc_packets_forwarded (fw_counters fw)"
  "accepting send_to \<Longrightarrow> fst (send_tunnel_datagram send_to d e ecn fw)"
  by (auto simp: send_tunnel_datagram_def accepting_def Let_def case_prod_unfold)

lemma tally_view [forwarder_simps]:
  "fw_sent (tally f fw) = fw_sent fw" "fw_feedback (tally f fw) = fw_feedback fw" "fw_counters (tally f fw) = f (fw_counters fw)"
  "fw_sent (tally_normal_mode b fw) = fw_sent fw" "fw_feedback (tally_normal_mode b fw) = fw_feedback fw"
  "fc_mtu_drops (fw_counters (tally_normal_mode b fw)) = fc_mtu_drops (fw_counters fw)"
  "fc_packets_forwarded (fw_counters (tally_normal_mode b fw)) = fc_packets_forwarded (fw_counters fw)"
  by (simp_all add: tally_def tally_normal_mode_def)

lemmas loop_view = sent_def drops_def outside_def cache_ok_def forwarder_simps

lemma prepared_for_value:
  assumes "cache_ok path_mtu packet l"
  shows "\<exists>l'. (prepared_for packet (tunnel_mtu path_mtu e) e l :: ('e, _) res) = Ok (prepared_value packet (tunnel_mtu path_mtu e), l') \<and>
    cache_ok path_mtu packet l' \<and> tl_fw l' = tl_fw l \<and> tl_feedback_mtu l' = tl_feedback_mtu l \<and>
    tl_successful_endpoints l' = tl_successful_endpoints l"
  using assms
  by (cases e) (auto simp: prepared_for_def prepare_oversized_total cache_ok_def tunnel_mtu_def split: option.split)

lemma length_encode_data: "encode (MulticastData p) = header MtMulticastData # 0 # p"
  by (simp add: encode_def)

lemma send_fragments_view:
  assumes "\<And>d. d \<in> set ds \<Longrightarrow> 2 \<le> length d"
  shows "\<exists>complete l' k. (send_fragments send_to now r e ds l :: ('e, _) res) = Ok (complete, l') \<and>
    sent l' = sent l @ take k (map (\<lambda>d. (d, e, fst (tunnel_ecn now r e (drop 2 d)))) ds) \<and> drops l' = drops l \<and>
    outside l' = outside l \<and> tl_prepared_ipv4_outer l' = tl_prepared_ipv4_outer l \<and>
    tl_prepared_ipv6_outer l' = tl_prepared_ipv6_outer l \<and> tl_feedback_mtu l' = tl_feedback_mtu l \<and>
    tl_successful_endpoints l' = tl_successful_endpoints l \<and> (accepting send_to \<longrightarrow> complete \<and> k = length ds)"
  using assms
proof (induction ds arbitrary: l)
  case Nil
  then show ?case by auto
next
  case (Cons d ds)
  let ?ecn = "fst (tunnel_ecn now r e (drop 2 d))" and ?n = "snd (tunnel_ecn now r e (drop 2 d))"
  let ?fw = "snd (send_tunnel_datagram send_to d e ?ecn (tl_fw l))" and ?ok = "fst (send_tunnel_datagram send_to d e ?ecn (tl_fw l))"
  let ?l = "l\<lparr>tl_fw := tally (\<lambda>c. c\<lparr>fc_fragments_sent := fc_fragments_sent c + 1\<rparr>) (tally_normal_mode ?n ?fw),
      tl_successful_bytes := tl_successful_bytes l + (length d - 2)\<rparr>"
  have sl: "(slice_from d 2 :: ('e, _) res) = Ok (drop 2 d)" using Cons.prems[of d] by (simp add: slice_from_def slice_def)
  have s: "sent ?l = sent l @ [(d, e, ?ecn)]" "drops ?l = drops l" "outside ?l = outside l" by (simp_all add: loop_view)
  show ?case
  proof (cases ?ok)
    case True
    have step: "(send_fragments send_to now r e (d # ds) l :: ('e, _) res) = send_fragments send_to now r e ds ?l"
      using True sl by (simp add: Let_def case_prod_unfold)
    obtain complete l' k where ih: "(send_fragments send_to now r e ds ?l :: ('e, _) res) = Ok (complete, l')"
      "sent l' = sent ?l @ take k (map (\<lambda>d. (d, e, fst (tunnel_ecn now r e (drop 2 d)))) ds)" "drops l' = drops ?l"
      "outside l' = outside ?l" "tl_prepared_ipv4_outer l' = tl_prepared_ipv4_outer l"
      "tl_prepared_ipv6_outer l' = tl_prepared_ipv6_outer l" "tl_feedback_mtu l' = tl_feedback_mtu l"
      "tl_successful_endpoints l' = tl_successful_endpoints l" "accepting send_to \<longrightarrow> complete \<and> k = length ds"
      using Cons.IH[of ?l] Cons.prems by auto
    show ?thesis
      unfolding step by (rule exI[of _ complete], rule exI[of _ l'], rule exI[of _ "Suc k"]) (use ih s in simp)
  next
    case False
    then have "\<not> accepting send_to" using send_tunnel_view(5) by blast
    with False sl show ?thesis
      by (intro exI[of _ False] exI[of _ "l\<lparr>tl_fw := ?fw\<rparr>"] exI[of _ 1]) (simp add: Let_def case_prod_unfold loop_view)
  qed
qed

definition merge_mtu :: "nat option \<Rightarrow> nat \<Rightarrow> nat option" where
  "merge_mtu current mtu = Some (case current of None \<Rightarrow> mtu | Some c \<Rightarrow> min c mtu)"

text \<open>What serving one gateway does to the loop's variables, whatever the socket answers, and when
  it takes everything.\<close>

definition served :: "'s send_fun \<Rightarrow> instant \<Rightarrow> relay \<Rightarrow> nat \<Rightarrow> bool \<Rightarrow> bytes \<Rightarrow> socket_addr \<Rightarrow> ('s, 'c, 'p) tunnel_loop \<Rightarrow> ('s, 'c, 'p) tunnel_loop \<Rightarrow> bool" where
  "served send_to now r path_mtu allowed packet e l l' \<longleftrightarrow> cache_ok path_mtu packet l' \<and> outside l' = outside l \<and>
     (\<exists>k. sent l' = sent l @ take k (tunnel_sends now r path_mtu packet e) \<and>
        (accepting send_to \<longrightarrow> k = length (tunnel_sends now r path_mtu packet e))) \<and>
     tl_feedback_mtu l' = (if allowed \<and> blocked path_mtu packet e
        then merge_mtu (tl_feedback_mtu l) (tunnel_mtu path_mtu e) else tl_feedback_mtu l) \<and>
     (accepting send_to \<longrightarrow>
        drops l' = drops l + (if tunnel_plan path_mtu packet e = None then 1 else 0) \<and>
        tl_successful_endpoints l' = tl_successful_endpoints l + (if tunnel_plan path_mtu packet e = None then 0 else 1))"

lemma serve_whole:
  assumes "cache_ok path_mtu packet l" and fits: "length packet \<le> tunnel_mtu path_mtu e"
  shows "\<exists>l'. (serve_endpoint send_to now r path_mtu allowed (encode (MulticastData packet)) packet e l :: ('e, _) res) = Ok l' \<and>
    served send_to now r path_mtu allowed packet e l l'"
proof -
  let ?d = "encode (MulticastData packet)"
  have s: "tunnel_sends now r path_mtu packet e = [(?d, e, fst (tunnel_ecn now r e packet))]"
    using fits by (simp add: tunnel_sends_def tunnel_plan_def length_encode_data)
  have p: "tunnel_plan path_mtu packet e \<noteq> None" "\<not> blocked path_mtu packet e"
    using fits by (simp_all add: tunnel_plan_def blocked_def)
  show ?thesis
    using assms p send_tunnel_view(5)[of send_to ?d e "fst (tunnel_ecn now r e packet)" "tl_fw l"]
    by (auto simp: serve_endpoint_def served_def Let_def case_prod_unfold loop_view s intro!: exI[of _ 1])
qed

lemma prepared_packets_long:
  assumes "prepared_value packet mtu = TunnelPackets ds" "d \<in> set ds"
  shows "2 \<le> length d"
  using assms by (auto simp: prepared_value_def length_encode_data split: if_splits res.splits)

lemma serve_fragmented:
  assumes "cache_ok path_mtu packet l" and big: "tunnel_mtu path_mtu e < length packet"
    and ds: "prepared_value packet (tunnel_mtu path_mtu e) = TunnelPackets ds"
  shows "\<exists>l'. (serve_endpoint send_to now r path_mtu allowed response packet e l :: ('e, _) res) = Ok l' \<and>
    served send_to now r path_mtu allowed packet e l l'"
proof -
  obtain l1 where l1: "(prepared_for packet (tunnel_mtu path_mtu e) e l :: ('e, _) res) = Ok (TunnelPackets ds, l1)"
    "cache_ok path_mtu packet l1" "tl_fw l1 = tl_fw l" "tl_feedback_mtu l1 = tl_feedback_mtu l"
    "tl_successful_endpoints l1 = tl_successful_endpoints l"
    using prepared_for_value[OF assms(1), of e] ds by auto
  have p: "tunnel_plan path_mtu packet e = Some ds" "\<not> blocked path_mtu packet e"
    using big ds by (simp_all add: tunnel_plan_def blocked_def requires_pmtu_feedback_def)
  obtain complete l2 k where l2: "(send_fragments send_to now r e ds l1 :: ('e, _) res) = Ok (complete, l2)"
    "sent l2 = sent l1 @ take k (map (\<lambda>d. (d, e, fst (tunnel_ecn now r e (drop 2 d)))) ds)" "drops l2 = drops l1"
    "outside l2 = outside l1" "tl_prepared_ipv4_outer l2 = tl_prepared_ipv4_outer l1"
    "tl_prepared_ipv6_outer l2 = tl_prepared_ipv6_outer l1" "tl_feedback_mtu l2 = tl_feedback_mtu l1"
    "tl_successful_endpoints l2 = tl_successful_endpoints l1" "accepting send_to \<longrightarrow> complete \<and> k = length ds"
    using send_fragments_view[of ds send_to now r e l1] prepared_packets_long[OF ds] by blast
  let ?l = "if complete then l2\<lparr>tl_successful_endpoints := tl_successful_endpoints l2 + 1\<rparr> else tally_mtu_drop l2"
  have "(serve_endpoint send_to now r path_mtu allowed response packet e l :: ('e, _) res) = Ok ?l"
    using big l1(1) l2(1) by (simp add: serve_endpoint_def Let_def)
  moreover have "served send_to now r path_mtu allowed packet e l ?l"
  proof -
    have "cache_ok path_mtu packet ?l" "outside ?l = outside l" "sent ?l = sent l2" "sent l1 = sent l" "drops l1 = drops l"
      "tl_feedback_mtu ?l = tl_feedback_mtu l"
      using l1 l2(4-7) by (simp_all add: cache_ok_def outside_def sent_def drops_def tally_mtu_drop_def forwarder_simps)
    then show ?thesis
      using l1(5) l2(2,3,8,9) p by (auto simp: served_def tunnel_sends_def drops_def)
  qed
  ultimately show ?thesis by blast
qed

lemma serve_dropped:
  assumes "cache_ok path_mtu packet l" and big: "tunnel_mtu path_mtu e < length packet"
    and drop: "prepared_value packet (tunnel_mtu path_mtu e) = TunnelDropIpv6 \<or> prepared_value packet (tunnel_mtu path_mtu e) = TunnelDrop x"
  shows "\<exists>l'. (serve_endpoint send_to now r path_mtu allowed response packet e l :: ('e, _) res) = Ok l' \<and>
    served send_to now r path_mtu allowed packet e l l'"
proof -
  let ?p = "prepared_value packet (tunnel_mtu path_mtu e)"
  obtain l1 where l1: "(prepared_for packet (tunnel_mtu path_mtu e) e l :: ('e, _) res) = Ok (?p, l1)"
    "cache_ok path_mtu packet l1" "tl_fw l1 = tl_fw l" "tl_feedback_mtu l1 = tl_feedback_mtu l"
    "tl_successful_endpoints l1 = tl_successful_endpoints l"
    using prepared_for_value[OF assms(1), of e] by auto
  have p: "tunnel_plan path_mtu packet e = None" "blocked path_mtu packet e = requires_pmtu_feedback ?p"
    using big drop by (auto simp: tunnel_plan_def blocked_def)
  let ?l = "if allowed \<and> requires_pmtu_feedback ?p
     then (tally_mtu_drop l1)\<lparr>tl_feedback_mtu := merge_mtu (tl_feedback_mtu (tally_mtu_drop l1)) (tunnel_mtu path_mtu e)\<rparr>
     else tally_mtu_drop l1"
  have "(serve_endpoint send_to now r path_mtu allowed response packet e l :: ('e, _) res) = Ok ?l"
    using big l1(1) drop by (auto simp: serve_endpoint_def Let_def merge_mtu_def)
  moreover have "served send_to now r path_mtu allowed packet e l ?l"
    using l1(2-5) p by (simp add: served_def tunnel_sends_def tally_mtu_drop_def loop_view)
  ultimately show ?thesis by blast
qed

lemma serve_endpoint_served:
  assumes "cache_ok path_mtu packet l"
  shows "\<exists>l'. (serve_endpoint send_to now r path_mtu allowed (encode (MulticastData packet)) packet e l :: ('e, _) res) = Ok l' \<and>
    served send_to now r path_mtu allowed packet e l l'"
proof (cases "length packet \<le> tunnel_mtu path_mtu e")
  case True
  then show ?thesis by (rule serve_whole[OF assms])
next
  case False
  then have big: "tunnel_mtu path_mtu e < length packet" by simp
  show ?thesis
    by (cases "prepared_value packet (tunnel_mtu path_mtu e)")
       (rule serve_fragmented[OF assms big] serve_dropped[OF assms big]; simp)+
qed

lemma feedback_of_Nil [simp]: "feedback_of allowed path_mtu packet [] = None"
  by (simp add: feedback_of_def)

definition merge_feedback :: "nat option \<Rightarrow> nat option \<Rightarrow> nat option" where
  "merge_feedback current found = (case found of None \<Rightarrow> current | Some mtu \<Rightarrow> merge_mtu current mtu)"

lemma feedback_of_Cons:
  "merge_feedback current (feedback_of allowed path_mtu packet (e # es)) =
     merge_feedback (if allowed \<and> blocked path_mtu packet e then merge_mtu current (tunnel_mtu path_mtu e) else current)
       (feedback_of allowed path_mtu packet es)"
proof -
  let ?f = "filter (blocked path_mtu packet) es"
  show ?thesis
  proof (cases "?f = []")
    case False
    then have "Min (insert (tunnel_mtu path_mtu e) (tunnel_mtu path_mtu ` set ?f)) =
        min (tunnel_mtu path_mtu e) (Min (tunnel_mtu path_mtu ` set ?f))"
      by (intro Min_insert) (auto simp: filter_empty_conv)
    with False show ?thesis
      by (auto simp: feedback_of_def merge_feedback_def merge_mtu_def Let_def min.assoc simp del: set_filter split: option.split)
  qed (auto simp: feedback_of_def merge_feedback_def merge_mtu_def Let_def split: option.split)
qed

lemma serve_endpoints_served:
  assumes "cache_ok path_mtu packet l"
  shows "\<exists>l' xs. (serve_endpoints send_to now r path_mtu allowed (encode (MulticastData packet)) packet es l :: ('e, _) res) = Ok l' \<and>
    outside l' = outside l \<and> sent l' = sent l @ xs \<and>
    set xs \<subseteq> (\<Union>e \<in> set es. set (tunnel_sends now r path_mtu packet e)) \<and>
    tl_feedback_mtu l' = merge_feedback (tl_feedback_mtu l) (feedback_of allowed path_mtu packet es) \<and>
    (accepting send_to \<longrightarrow> xs = concat (map (tunnel_sends now r path_mtu packet) es) \<and>
       drops l' = drops l + length (filter (\<lambda>e. tunnel_plan path_mtu packet e = None) es) \<and>
       tl_successful_endpoints l' = tl_successful_endpoints l + length (filter (\<lambda>e. tunnel_plan path_mtu packet e \<noteq> None) es))"
  using assms
proof (induction es arbitrary: l)
  case Nil
  then show ?case by (simp add: merge_feedback_def)
next
  case (Cons e es)
  let ?s = "tunnel_sends now r path_mtu packet"
  obtain l1 where l1: "(serve_endpoint send_to now r path_mtu allowed (encode (MulticastData packet)) packet e l :: ('e, _) res) = Ok l1"
    "served send_to now r path_mtu allowed packet e l l1" using serve_endpoint_served[OF Cons.prems] by blast
  have c: "cache_ok path_mtu packet l1" using l1(2) by (simp add: served_def)
  obtain k where k: "sent l1 = sent l @ take k (?s e)" "accepting send_to \<longrightarrow> k = length (?s e)"
    using l1(2) by (auto simp: served_def)
  obtain l' xs where ih: "(serve_endpoints send_to now r path_mtu allowed (encode (MulticastData packet)) packet es l1 :: ('e, _) res) = Ok l'"
    "outside l' = outside l1" "sent l' = sent l1 @ xs" "set xs \<subseteq> (\<Union>e \<in> set es. set (?s e))"
    "tl_feedback_mtu l' = merge_feedback (tl_feedback_mtu l1) (feedback_of allowed path_mtu packet es)"
    "accepting send_to \<longrightarrow> xs = concat (map ?s es) \<and>
       drops l' = drops l1 + length (filter (\<lambda>e. tunnel_plan path_mtu packet e = None) es) \<and>
       tl_successful_endpoints l' = tl_successful_endpoints l1 + length (filter (\<lambda>e. tunnel_plan path_mtu packet e \<noteq> None) es)"
    using Cons.IH[OF c] by blast
  have "set (take k (?s e) @ xs) \<subseteq> (\<Union>e \<in> set (e # es). set (?s e))"
    using ih(4) set_take_subset[of k "?s e"] by auto
  moreover have "tl_feedback_mtu l' = merge_feedback (tl_feedback_mtu l) (feedback_of allowed path_mtu packet (e # es))"
    using ih(5) l1(2) unfolding feedback_of_Cons by (simp add: served_def)
  moreover have "accepting send_to \<longrightarrow> take k (?s e) @ xs = concat (map ?s (e # es)) \<and>
       drops l' = drops l + length (filter (\<lambda>e. tunnel_plan path_mtu packet e = None) (e # es)) \<and>
       tl_successful_endpoints l' = tl_successful_endpoints l + length (filter (\<lambda>e. tunnel_plan path_mtu packet e \<noteq> None) (e # es))"
    using ih(6) k(2) l1(2) by (simp add: served_def)
  ultimately show ?case
    using ih(1-3) k(1) l1 by (intro exI[of _ l'] exI[of _ "take k (?s e) @ xs"]) (simp add: served_def)
qed

definition transmit_total :: "('c \<Rightarrow> 'p \<Rightarrow> bytes \<Rightarrow> ('t, nat) res \<times> 'c) \<Rightarrow> bool" where
  "transmit_total send_ip_datagram \<longleftrightarrow> (\<forall>c p b. no_panic (fst (send_ip_datagram c p b)))"

lemma no_panic_pmtu_send:
  assumes "transmit_total send_ip_datagram"
  shows "no_panic (fst (pmtu_send send_ip_datagram now sender packet mtu))"
proof (cases "parse_multicast_packet packet")
  case (Ok m)
  have "no_panic (bnd (map_err PmtuTransport (fst (send_ip_datagram (ps_context sender) (ps_publication sender) p)))
      (\<lambda>bytes_sent. Ok (PmtuSent bytes_sent)))" for p
    using assms[unfolded transmit_total_def, rule_format, of "ps_context sender" "ps_publication sender" p]
    by (cases "fst (send_ip_datagram (ps_context sender) (ps_publication sender) p)") simp_all
  then show ?thesis
    by (auto simp: pmtu_send_def Ok no_panic_build_pmtu_feedback[unfolded no_panic_iff] suppress_icmp_error_exact[OF Ok] case_prod_unfold Let_def
        simp del: unanswerable.simps split: res.split bool.split)
qed (use no_panic_parse_multicast_packet[of packet] in \<open>simp_all add: pmtu_send_def\<close>)

lemma relay_pmtu_send_total:
  assumes "transmit_total send_ip_datagram"
  shows "\<exists>x. (relay_pmtu_send send_ip_datagram now feedback packet mtu :: ('e, _) res) = Ok x"
proof -
  have "fst (pmtu_send send_ip_datagram now sender packet mtu) \<noteq> Panic" for sender
    using no_panic_pmtu_send[of send_ip_datagram now sender packet mtu] assms by (simp add: no_panic_iff)
  then show ?thesis
    by (auto simp: relay_pmtu_send_def Let_def case_prod_unfold split: option.split res.split pmtu_feedback_outcome.split)
qed

section \<open>Properties of forwarding\<close>

text \<open>The addresses a captured datagram was received with are those of its header.\<close>

definition captured :: "upstream_datagram \<Rightarrow> bool" where
  "captured u \<longleftrightarrow> (parse_datagram_addresses (pk_datagram (ud_packet u)) :: (unit, _) res) = Ok (Some (ud_source u, ud_group u)) \<and>
     valid_multicast_addresses (ud_source u) (ud_group u)"

lemma parse_addresses_poly:
  "(parse_datagram_addresses d :: (unit, _) res) = Ok x \<Longrightarrow> (parse_datagram_addresses d :: ('e, _) res) = Ok x"
  by (cases x; cases "the x")
     (auto simp: parse_datagram_addresses_def parse_ipv4_datagram_addresses_def parse_ipv6_datagram_addresses_def
       bnd_eq_Ok Let_def be16_at_def byte_at_def slice_def split: option.splits if_splits)

lemma normalized_amt:
  obtains p where "(normalized_datagram u :: ('e, bytes) res) = Ok p"
    "(normalized_amt_datagram u :: ('e, bytes) res) = Ok (encode (MulticastData p))"
proof -
  let ?d = "pk_datagram (ud_packet u)"
  obtain p where p: "(normalize_forwarded_datagram ?d :: ('e, bytes) res) = Ok p"
    using normalize_no_panic[where ?'e = 'e, of ?d] normalize_no_error[where ?'e = 'e, of ?d]
    by (cases "normalize_forwarded_datagram ?d :: ('e, bytes) res") auto
  then have "(normalized_amt_datagram u :: ('e, bytes) res) = Ok (encode (MulticastData p))"
    by (simp add: normalized_amt_datagram_def length_encode_data embedded_eq)
  with p show ?thesis using that by (simp add: normalized_datagram_def)
qed

lemma forward_datagram_served:
  fixes fw :: "('s, 'c, 'p) forwarder" and r :: relay and path_mtu :: nat
  assumes send: "transmit_total send_ip_datagram"
    and n: "(normalized_datagram u :: ('e, bytes) res) = Ok p"
  defines "es \<equiv> matching_endpoints (r_state r) (ud_source u) (ud_group u)"
  defines "fb \<equiv> feedback_of (has_ssm_interest (r_state r) (ud_source u) (ud_group u)) path_mtu p es"
  shows "\<exists>fw' xs. (forward_datagram send_to send_ip_datagram now r path_mtu u fw :: ('e, _) res) = Ok fw' \<and>
    fw_sent fw' = fw_sent fw @ xs \<and> set xs \<subseteq> (\<Union>e \<in> set es. set (tunnel_sends now r path_mtu p e)) \<and>
    (case fb of None \<Rightarrow> fw_feedback fw' = fw_feedback fw
     | Some mtu \<Rightarrow> \<exists>outcome. (relay_pmtu_send send_ip_datagram now (fw_feedback fw) p mtu :: ('e, _) res) = Ok (outcome, fw_feedback fw')) \<and>
    (accepting send_to \<longrightarrow> xs = concat (map (tunnel_sends now r path_mtu p) es) \<and>
       fc_mtu_drops (fw_counters fw') = fc_mtu_drops (fw_counters fw) + length (filter (\<lambda>e. tunnel_plan path_mtu p e = None) es) \<and>
       fc_packets_forwarded (fw_counters fw') = fc_packets_forwarded (fw_counters fw) + length (filter (\<lambda>e. tunnel_plan path_mtu p e \<noteq> None) es))"
proof (cases "es = []")
  case True
  then show ?thesis by (simp add: forward_datagram_def es_def[symmetric] fb_def forwarder_simps)
next
  case False
  let ?l0 = "\<lparr>tl_fw = fw, tl_prepared_ipv4_outer = None, tl_prepared_ipv6_outer = None, tl_feedback_mtu = None,
      tl_successful_endpoints = 0, tl_successful_bytes = 0\<rparr> :: ('s, 'c, 'p) tunnel_loop"
  have a: "(normalized_amt_datagram u :: ('e, bytes) res) = Ok (encode (MulticastData p))"
    using n by (rule_tac normalized_amt[where ?'e = 'e, of u]) simp
  have "cache_ok path_mtu p ?l0" by (simp add: cache_ok_def)
  from serve_endpoints_served[OF this, where ?'e = 'e, of send_to now r "has_ssm_interest (r_state r) (ud_source u) (ud_group u)" es]
  obtain l xs where l: "(serve_endpoints send_to now r path_mtu (has_ssm_interest (r_state r) (ud_source u) (ud_group u))
      (encode (MulticastData p)) p es ?l0 :: ('e, _) res) = Ok l" "outside l = outside ?l0" "sent l = sent ?l0 @ xs"
    "set xs \<subseteq> (\<Union>e \<in> set es. set (tunnel_sends now r path_mtu p e))" "tl_feedback_mtu l = merge_feedback None fb"
    "accepting send_to \<longrightarrow> xs = concat (map (tunnel_sends now r path_mtu p) es) \<and>
       drops l = drops ?l0 + length (filter (\<lambda>e. tunnel_plan path_mtu p e = None) es) \<and>
       tl_successful_endpoints l = 0 + length (filter (\<lambda>e. tunnel_plan path_mtu p e \<noteq> None) es)"
    by (auto simp: fb_def)
  have fbl: "tl_feedback_mtu l = fb" using l(5) by (simp add: merge_feedback_def merge_mtu_def split: option.split)
  have sl: "(slice_from (encode (MulticastData p)) 2 :: ('e, _) res) = Ok p"
    by (simp add: length_encode_data slice_from_def slice_def)
  show ?thesis
  proof (cases fb)
    case None
    then show ?thesis
      using False l(1-4,6) fbl by (auto simp: forward_datagram_def es_def[symmetric] a sl loop_view)
  next
    case (Some mtu)
    obtain outcome fb' where o: "(relay_pmtu_send send_ip_datagram now (fw_feedback (tl_fw l)) p mtu :: ('e, _) res) = Ok (outcome, fb')"
      using relay_pmtu_send_total[where ?'e = 'e, of send_ip_datagram now "fw_feedback (tl_fw l)" p mtu] send by force
    have "fc_mtu_drops (record_pmtu_feedback outcome c) = fc_mtu_drops c"
      "fc_packets_forwarded (record_pmtu_feedback outcome c) = fc_packets_forwarded c" for c
      by (simp_all add: record_pmtu_feedback_def split: relay_pmtu_outcome.split)
    then show ?thesis
      using False Some l(1-4,6) fbl o by (auto simp: forward_datagram_def es_def[symmetric] a sl loop_view)
  qed
qed

lemma captured_parses:
  assumes "captured u" "(normalized_datagram u :: ('e, bytes) res) = Ok p"
  shows "\<exists>m. parse_multicast_packet p = Ok m \<and> mp_source m = ud_source u \<and> mp_group m = ud_group u"
proof -
  have "(parse_datagram_addresses (pk_datagram (ud_packet u)) :: ('e, _) res) = Ok (Some (ud_source u, ud_group u))"
    using assms(1) by (auto simp: captured_def intro: parse_addresses_poly)
  from normalized_parses[OF this, where ?'e = 'e] assms show ?thesis
    by (auto simp: captured_def normalized_datagram_def)
qed

lemma tunnel_sends_fit:
  assumes m: "parse_multicast_packet p = Ok m" and x: "(d, e', ecn) \<in> set (tunnel_sends now r path_mtu p e)"
  shows "e' = e \<and> (\<exists>f q. decode d = Ok (MulticastData f) \<and> parse_multicast_packet f = Ok q \<and>
    mp_source q = mp_source m \<and> mp_group q = mp_group m \<and> outer_ip_header e + 8 + length d \<le> path_mtu)"
proof -
  have size: "outer_ip_header e + 8 + length (encode (MulticastData f)) \<le> path_mtu"
    if "length f \<le> tunnel_mtu path_mtu e" "parse_multicast_packet f = Ok q" for f q
  proof -
    have "f \<noteq> []" using that(2) by (auto simp: parse_multicast_packet_Ok)
    then have "0 < tunnel_mtu path_mtu e" using that(1) by (cases f) auto
    with that(1) show ?thesis by (simp add: tunnel_mtu_def length_encode_data)
  qed
  show ?thesis
  proof (cases "length p \<le> tunnel_mtu path_mtu e")
    case True
    with x have "e' = e" "d = encode (MulticastData p)" by (auto simp: tunnel_sends_def tunnel_plan_def)
    with size[OF True m] m show ?thesis by (auto simp: decode_encode_raw)
  next
    case False
    with x obtain ds where ds: "prepared_value p (tunnel_mtu path_mtu e) = TunnelPackets ds" "e' = e" "d \<in> set ds"
      by (auto simp: tunnel_sends_def tunnel_plan_def split: prepared_tunnel_data.splits)
    then obtain fs f where f: "fragment_ipv4_for_tunnel p (tunnel_mtu path_mtu e) = Ok fs" "f \<in> set fs" "d = encode (MulticastData f)"
      by (auto simp: prepared_value_def split: if_splits res.splits)
    from fragment_ipv4_for_tunnel_parses[OF m f(1,2)] size[of f] ds(2) f(3) show ?thesis by (auto simp: decode_encode_raw)
  qed
qed

definition good_send :: "relay \<Rightarrow> nat \<Rightarrow> tunnel_send \<Rightarrow> bool" where
  "good_send r path_mtu = (\<lambda>(d, e, ecn). \<exists>f q. decode d = Ok (MulticastData f) \<and> parse_multicast_packet f = Ok q \<and>
     wanted (r_state r) e (mp_group q) (mp_source q) \<and> outer_ip_header e + 8 + length d \<le> path_mtu)"

lemma forward_datagram_good:
  fixes fw :: "('s, 'c, 'p) forwarder"
  assumes "state_inv (r_state r)" "transmit_total send_ip_datagram" "captured u"
  shows "\<exists>fw' xs. (forward_datagram send_to send_ip_datagram now r path_mtu u fw :: ('e, _) res) = Ok fw' \<and>
    fw_sent fw' = fw_sent fw @ xs \<and> (\<forall>x \<in> set xs. good_send r path_mtu x)"
proof -
  obtain p where p: "(normalized_datagram u :: ('e, bytes) res) = Ok p" by (rule normalized_amt)
  obtain m where m: "parse_multicast_packet p = Ok m" "mp_source m = ud_source u" "mp_group m = ud_group u"
    using captured_parses[OF assms(3) p] by blast
  obtain fw' xs where f: "(forward_datagram send_to send_ip_datagram now r path_mtu u fw :: ('e, _) res) = Ok fw'"
    "fw_sent fw' = fw_sent fw @ xs"
    "set xs \<subseteq> (\<Union>e \<in> set (matching_endpoints (r_state r) (ud_source u) (ud_group u)). set (tunnel_sends now r path_mtu p e))"
    using forward_datagram_served[OF assms(2) p, where send_to = send_to and now = now and r = r and path_mtu = path_mtu and fw = fw] by blast
  have "good_send r path_mtu x" if "x \<in> set xs" for x
  proof -
    obtain d e' ecn where x: "x = (d, e', ecn)" by (cases x)
    from that f(3) obtain e where e: "wanted (r_state r) e (ud_group u) (ud_source u)" "(d, e', ecn) \<in> set (tunnel_sends now r path_mtu p e)"
      using matching_endpoints_raw(1)[OF assms(1), of "ud_source u" "ud_group u"] x by auto
    from tunnel_sends_fit[OF m(1) e(2)] e(1) m(2,3) x show ?thesis by (auto simp: good_send_def)
  qed
  with f(1,2) show ?thesis by blast
qed

text \<open>The queue hands out captured datagrams and does not panic.\<close>

definition capture_queue :: "('q \<Rightarrow> ('e, upstream_datagram option) res \<times> 'q) \<Rightarrow> bool" where
  "capture_queue try_recv \<longleftrightarrow> (\<forall>q u q'. try_recv q = (Ok (Some u), q') \<longrightarrow> captured u) \<and> (\<forall>q. no_panic (fst (try_recv q)))"

lemma drain_loop_good:
  fixes fw :: "('s, 'c, 'p) forwarder" and try_recv :: "'q \<Rightarrow> ('e, upstream_datagram option) res \<times> 'q"
  assumes "state_inv (r_state r)" "transmit_total send_ip_datagram"
    and queue: "capture_queue try_recv"
  shows "case drain_loop send_to send_ip_datagram clock try_recv r path_mtu budget queue fw of (outcome, queue', fw') \<Rightarrow>
    no_panic outcome \<and> (\<exists>xs. fw_sent fw' = fw_sent fw @ xs \<and> (\<forall>x \<in> set xs. good_send r path_mtu x))"
proof (induction "wb_packet_limit budget - wb_packets budget" arbitrary: budget queue fw rule: less_induct)
  case less
  note unfold = drain_loop.simps[of send_to send_ip_datagram clock try_recv r path_mtu budget queue fw]
  obtain got queue1 where q: "try_recv queue = (got, queue1)" by fastforce
  show ?case
  proof (cases "\<not> can_take_packet (clock (wb_packets budget)) budget \<or> (\<nexists>u. got = Ok (Some u))")
    case True
    then show ?thesis using queue[unfolded capture_queue_def, THEN conjunct2, rule_format, of queue] q unfolding unfold by (auto split: res.split option.split)
  next
    case False
    then obtain u where u: "got = Ok (Some u)" "can_take_packet (clock (wb_packets budget)) budget" by blast
    obtain fw1 xs where f: "(forward_datagram send_to send_ip_datagram (clock (wb_packets budget)) r path_mtu u fw :: ('e, _) res) = Ok fw1"
      "fw_sent fw1 = fw_sent fw @ xs" "\<forall>x \<in> set xs. good_send r path_mtu x"
      using forward_datagram_good[OF assms(1,2), of u] queue q u(1) unfolding capture_queue_def by blast
    have "drain_loop send_to send_ip_datagram clock try_recv r path_mtu budget queue fw =
        drain_loop send_to send_ip_datagram clock try_recv r path_mtu (record_packet budget) queue1 fw1"
      unfolding unfold using u q f(1) by simp
    moreover have "wb_packet_limit (record_packet budget) - wb_packets (record_packet budget) < wb_packet_limit budget - wb_packets budget"
      using u(2) by (auto simp: record_packet_def can_take_packet_def)
    ultimately show ?thesis using less[of "record_packet budget" fw1 queue1] f(2,3) by (fastforce split: prod.splits)
  qed
qed

text \<open>C12: forwarding is exact.  When the tunnel socket takes every datagram, the loop with its caches
  hands it, for each gateway that wants the captured datagram in order, the whole datagram if it
  fits the gateway's tunnel, its fragments if it may be fragmented and nothing otherwise, each with
  the ECN field of the tunnel mode; every wanting gateway is counted once, as served or as an
  MTU drop; and the source is told the smallest tunnel MTU among the gateways it cannot reach,
  if it may be told at all.\<close>

theorem forwarding_exact:
  fixes fw :: "('s, 'c, 'p) forwarder" and u :: upstream_datagram and r :: relay and path_mtu :: nat
  assumes "accepting send_to" and "transmit_total send_ip_datagram"
  defines "es \<equiv> matching_endpoints (r_state r) (ud_source u) (ud_group u)"
  shows "\<exists>p fw'. (normalized_datagram u :: ('e, bytes) res) = Ok p \<and>
    (forward_datagram send_to send_ip_datagram now r path_mtu u fw :: ('e, _) res) = Ok fw' \<and>
    fw_sent fw' = fw_sent fw @ concat (map (tunnel_sends now r path_mtu p) es) \<and>
    fc_packets_forwarded (fw_counters fw') - fc_packets_forwarded (fw_counters fw) = length (filter (\<lambda>e. tunnel_plan path_mtu p e \<noteq> None) es) \<and>
    fc_mtu_drops (fw_counters fw') - fc_mtu_drops (fw_counters fw) = length (filter (\<lambda>e. tunnel_plan path_mtu p e = None) es) \<and>
    (case feedback_of (has_ssm_interest (r_state r) (ud_source u) (ud_group u)) path_mtu p es of
       None \<Rightarrow> fw_feedback fw' = fw_feedback fw
     | Some mtu \<Rightarrow> \<exists>outcome. (relay_pmtu_send send_ip_datagram now (fw_feedback fw) p mtu :: ('e, _) res) = Ok (outcome, fw_feedback fw'))"
proof -
  obtain p where p: "(normalized_datagram u :: ('e, bytes) res) = Ok p" by (rule normalized_amt)
  show ?thesis
    using forward_datagram_served[OF assms(2) p, where send_to = send_to and now = now and r = r and path_mtu = path_mtu and fw = fw]
      assms(1) p unfolding es_def by fastforce
qed

text \<open>A captured datagram of the flow the sample gateway joined.\<close>

definition sample_capture :: upstream_datagram where
  "sample_capture = \<lparr>ud_source = V4 0xC0000201, ud_group = V4 0xE8010203, ud_packet = \<lparr>pk_source_ip = None, pk_group = None,
     pk_datagram = [0x45, 0, 0, 24, 0, 1, 0, 0, 8, 99, 0, 0, 192, 0, 2, 1, 232, 1, 2, 3, 1, 2, 3, 4]\<rparr>\<rparr>"

definition sample_forwarder :: "(unit, unit, unit) forwarder" where
  "sample_forwarder = \<lparr>fw_socket = (), fw_sent = [], fw_feedback = \<lparr>pf_enabled = False, pf_sender = None\<rparr>,
     fw_counters = \<lparr>fc_unmatched_packets = 0, fc_packets_forwarded = 0, fc_bytes_forwarded = 0, fc_fragments_sent = 0, fc_mtu_drops = 0,
       fc_send_errors = 0, fc_forward_errors = 0, fc_ecn_normal_mode = 0, fc_pmtu_sent = 0, fc_pmtu_bytes_sent = 0,
       fc_pmtu_rate_limited = 0, fc_pmtu_suppressed = 0, fc_pmtu_unavailable = 0, fc_pmtu_errors = 0\<rparr>\<rparr>"

lemma sample_capture_captured: "captured sample_capture"
  by (simp add: captured_def sample_capture_def parse_datagram_addresses_Some ipv4_framed_def ihl_of_def
      valid_multicast_addresses_def eval_simps)

definition sample_queue :: "nat \<Rightarrow> ('e, upstream_datagram option) res \<times> nat" where
  "sample_queue q = (if q = 0 then (Ok None, 0) else (Ok (Some sample_capture), q - 1))"

lemma sample_queue_captured: "capture_queue sample_queue"
  by (auto simp: capture_queue_def sample_queue_def sample_capture_captured)

lemma sample_joined_inv: "relay_inv (sample_relay\<lparr>r_state := sample_state\<rparr>)"
  using sample_state_inv sample_state_limits
  by (simp add: relay_inv_def sample_relay_def relay_new_def for_bind_def default_relay_config_def fcard.rep_eq Let_def)

lemma sample_matching:
  "set (matching_endpoints (r_state (sample_relay\<lparr>r_state := sample_state\<rparr>)) (ud_source sample_capture) (ud_group sample_capture)) = {sample_gateway}"
  using matching_endpoints_raw(1)[OF sample_state_inv] by (simp add: sample_capture_def sample_state_wanted)

theorem forwarding_exact_witness:
  "\<exists>p fw'. (normalized_datagram sample_capture :: (unit, bytes) res) = Ok p \<and>
     (forward_datagram (\<lambda>s d e ecn. (True, s)) (\<lambda>c p b. (Ok 0 :: (unit, nat) res, c)) 0 (sample_relay\<lparr>r_state := sample_state\<rparr>) 1500
        sample_capture sample_forwarder :: (unit, _) res) = Ok fw' \<and>
     set (fw_sent fw') = set (tunnel_sends 0 (sample_relay\<lparr>r_state := sample_state\<rparr>) 1500 p sample_gateway)"
proof -
  have "accepting (\<lambda>s d e ecn. (True, s))" "transmit_total (\<lambda>c p b. (Ok 0 :: (unit, nat) res, c))"
    by (simp_all add: accepting_def transmit_total_def)
  from forwarding_exact[OF this, where ?'e = unit and u = sample_capture and r = "sample_relay\<lparr>r_state := sample_state\<rparr>"
      and path_mtu = 1500 and now = 0 and fw = sample_forwarder]
  show ?thesis using sample_matching by (auto simp: sample_forwarder_def)
qed

text \<open>Nothing unwanted or oversized enters a tunnel.  Whatever the socket answers and the clock
  shows, draining the queue of captured datagrams ends without panic, and every datagram it hands to
  the socket carries a datagram that parses, goes to a gateway that wants its source and
  group, and with its outer headers is no larger than the path MTU.\<close>

lemma drain_sends_wanted:
  fixes fw :: "('s, 'c, 'p) forwarder" and try_recv :: "'q \<Rightarrow> ('e, upstream_datagram option) res \<times> 'q"
  assumes "relay_inv r" and "transmit_total send_ip_datagram"
    and "capture_queue try_recv"
    and "drain_upstream send_to send_ip_datagram clock try_recv r path_mtu queue fw = (outcome, queue', fw')"
  shows "no_panic outcome \<and> (\<exists>xs. fw_sent fw' = fw_sent fw @ xs \<and>
    (\<forall>(d, e, ecn) \<in> set xs. \<exists>f q. decode d = Ok (MulticastData f) \<and> parse_multicast_packet f = Ok q \<and>
       wanted (r_state r) e (mp_group q) (mp_source q) \<and> outer_ip_header e + 8 + length d \<le> path_mtu))"
proof -
  have inv: "state_inv (r_state r)" using assms(1) by (simp add: relay_inv_def)
  let ?b = "budget_new (clock 0) MAX_RELAY_DATA_DRAIN RELAY_DATA_FAIRNESS_BUDGET"
  obtain out queue1 fw1 where d: "drain_loop send_to send_ip_datagram clock try_recv r path_mtu ?b queue fw = (out, queue1, fw1)"
    by (metis prod_cases3)
  with assms(4) have o: "outcome = bnd out (\<lambda>budget. Ok (budget_exhausted (clock (wb_packets budget + 1)) budget))" "fw' = fw1"
    by (simp_all add: drain_upstream_def)
  have g: "no_panic out \<and> (\<exists>xs. fw_sent fw1 = fw_sent fw @ xs \<and> (\<forall>x \<in> set xs. good_send r path_mtu x))"
    using drain_loop_good[OF inv assms(2,3), where send_to = send_to and clock = clock and path_mtu = path_mtu and budget = ?b
        and queue = queue and fw = fw] unfolding d by simp
  then have "no_panic outcome" unfolding o by (auto intro: no_panic_bnd)
  with g show ?thesis unfolding o(2) good_send_def by blast
qed

end
