(* ===== verification/Relay_Server.thy ===== *)
theory Relay_Server
  imports Relay_Daemon Relay_Forward
begin

text \<open>
  The main loop of the relay daemon, \<open>run_relay\<close> in \<open>src/daemon.rs\<close>: one pass takes at most a bounded
  number of control datagrams through the rate limiter, runs the maintenance when it is due, and
  drains the capture queue.  The theory composes \<open>Relay_Daemon\<close> and \<open>Relay_Forward\<close>; its
  property holds in every run of passes.
\<close>

section \<open>The loop\<close>

definition MAX_CONTROL_DRAIN :: nat where "MAX_CONTROL_DRAIN = 128"
definition MAX_RATE_LIMIT_SOURCES :: nat where "MAX_RATE_LIMIT_SOURCES = 65536"
definition RELAY_IDLE_MAINTENANCE_INTERVAL :: duration where "RELAY_IDLE_MAINTENANCE_INTERVAL = from_secs 1"

definition DEFAULT_GATEWAY_IDLE_TIMEOUT :: duration where "DEFAULT_GATEWAY_IDLE_TIMEOUT = from_secs 260"
definition DEFAULT_GATEWAY_PRUNE_INTERVAL :: duration where "DEFAULT_GATEWAY_PRUNE_INTERVAL = from_secs 5"
definition DEFAULT_RELAY_PATH_MTU :: nat where "DEFAULT_RELAY_PATH_MTU = 1500"
definition DEFAULT_CONTROL_RATE_PER_SECOND :: nat where "DEFAULT_CONTROL_RATE_PER_SECOND = 10"
definition DEFAULT_CONTROL_RATE_BURST :: nat where "DEFAULT_CONTROL_RATE_BURST = 20"
definition DEFAULT_GLOBAL_CONTROL_RATE_PER_SECOND :: nat where "DEFAULT_GLOBAL_CONTROL_RATE_PER_SECOND = 1000"
definition DEFAULT_GLOBAL_CONTROL_RATE_BURST :: nat where "DEFAULT_GLOBAL_CONTROL_RATE_BURST = 2000"

record relay_daemon_config =
  dc_relay :: relay_config
  dc_upstream :: upstream_config
  dc_gateway_idle_timeout :: "duration option"
  dc_gateway_prune_interval :: duration
  dc_path_mtu :: nat
  dc_pmtu_feedback :: bool
  dc_control_rate_per_second :: nat
  dc_control_rate_burst :: nat
  dc_global_control_rate_per_second :: nat
  dc_global_control_rate_burst :: nat

definition relay_daemon_config_new :: "relay_config \<Rightarrow> relay_daemon_config" where
  "relay_daemon_config_new relay =
     \<lparr>dc_relay = relay, dc_upstream = \<lparr>uc_interface = None, uc_interface_index = None\<rparr>,
      dc_gateway_idle_timeout = Some DEFAULT_GATEWAY_IDLE_TIMEOUT, dc_gateway_prune_interval = DEFAULT_GATEWAY_PRUNE_INTERVAL,
      dc_path_mtu = DEFAULT_RELAY_PATH_MTU, dc_pmtu_feedback = False,
      dc_control_rate_per_second = DEFAULT_CONTROL_RATE_PER_SECOND, dc_control_rate_burst = DEFAULT_CONTROL_RATE_BURST,
      dc_global_control_rate_per_second = DEFAULT_GLOBAL_CONTROL_RATE_PER_SECOND,
      dc_global_control_rate_burst = DEFAULT_GLOBAL_CONTROL_RATE_BURST\<rparr>"

datatype relay_daemon_config_error = IdleTimeoutTooShort duration duration

definition relay_daemon_config_validate :: "relay_daemon_config \<Rightarrow> (relay_daemon_config_error, unit) res" where
  "relay_daemon_config_validate self =
     (case dc_gateway_idle_timeout self of
        None \<Rightarrow> Ok ()
      | Some timeout \<Rightarrow>
          let advertised_interval = query_interval (query_interval_code (rc_general_query (dc_relay self)))
          in if timeout \<le> advertised_interval then Err (IdleTimeoutTooShort timeout advertised_interval) else Ok ())"

record ('c, 'i, 's, 'f, 'p) relay_server =
  sv_daemon :: "('c, 'i) relay_daemon"
  sv_rate_limiter :: control_rate_limiter
  sv_last_gateway_prune :: instant
  sv_replies :: "(bytes \<times> socket_addr) list"
  sv_forwarder :: "('s, 'f, 'p) forwarder"

definition relay_server_new ::
  "instant \<Rightarrow> relay_daemon_config \<Rightarrow> 'c \<Rightarrow> ('s, 'f, 'p) forwarder \<Rightarrow> ('c, 'i, 's, 'f, 'p) relay_server" where
  "relay_server_new now config ctx fw =
     \<lparr>sv_daemon = daemon_start now (dc_relay config) (dc_upstream config) ctx,
      sv_rate_limiter = rate_limiter_new (dc_control_rate_per_second config) (dc_control_rate_burst config)
        (dc_global_control_rate_per_second config) (dc_global_control_rate_burst config)
        (min (max (max_endpoints (rc_limits (dc_relay config))) 1024) MAX_RATE_LIMIT_SOURCES) now,
      sv_last_gateway_prune = now, sv_replies = [], sv_forwarder = fw\<rparr>"

text \<open>A control datagram: a secret drawn if one is due, the time, the peer and the bytes.\<close>

type_synonym control_input = "relay_secret option \<times> instant \<times> socket_addr \<times> bytes"

definition receive_control ::
  "hmac_fun \<Rightarrow> ('c, 'i, 'e) capture_ops \<Rightarrow> control_input \<Rightarrow> ('c, 'i, 's, 'f, 'p) relay_server \<Rightarrow> ('c, 'i, 's, 'f, 'p) relay_server" where
  "receive_control hmac ops input sv =
     (let (fresh, now, peer, datagram) = input;
          (granted, limiter) = rate_allow now (sock_ip peer) (sv_rate_limiter sv);
          sv = sv\<lparr>sv_rate_limiter := limiter\<rparr>
      in if \<not> granted then sv else
         let (outcome, d) = handle_amt_datagram hmac ops fresh now peer datagram (sv_daemon sv)
         in sv\<lparr>sv_daemon := d,
               sv_replies := (case outcome of ControlResponse response \<Rightarrow> sv_replies sv @ [(response, peer)] | _ \<Rightarrow> sv_replies sv)\<rparr>)"

definition relay_upkeep ::
  "('c, 'i, 'e) capture_ops \<Rightarrow> relay_daemon_config \<Rightarrow> instant \<Rightarrow> ('c, 'i, 's, 'f, 'p) relay_server \<Rightarrow> ('c, 'i, 's, 'f, 'p) relay_server" where
  "relay_upkeep ops config now sv =
     (if dc_gateway_prune_interval config \<le> now - sv_last_gateway_prune sv
      then sv\<lparr>sv_daemon := maintain ops now (dc_gateway_idle_timeout config) (sv_daemon sv), sv_last_gateway_prune := now\<rparr>
      else sv)"

definition relay_pass ::
  "hmac_fun \<Rightarrow> ('c, 'i, 'e) capture_ops \<Rightarrow> 's send_fun \<Rightarrow> ('f \<Rightarrow> 'p \<Rightarrow> bytes \<Rightarrow> ('t, nat) res \<times> 'f) \<Rightarrow> (nat \<Rightarrow> instant)
   \<Rightarrow> ('q \<Rightarrow> ('e, upstream_datagram option) res \<times> 'q) \<Rightarrow> relay_daemon_config \<Rightarrow> control_input list \<Rightarrow> instant \<Rightarrow> 'q
   \<Rightarrow> ('c, 'i, 's, 'f, 'p) relay_server \<Rightarrow> ('e, bool) res \<times> 'q \<times> ('c, 'i, 's, 'f, 'p) relay_server" where
  "relay_pass hmac ops send_to send_ip_datagram clock try_recv config inputs now queue sv =
     (let sv = fold (receive_control hmac ops) (take MAX_CONTROL_DRAIN inputs) sv;
          sv = relay_upkeep ops config now sv;
          (drain, queue, fw) = drain_upstream send_to send_ip_datagram clock try_recv (rd_relay (sv_daemon sv))
            (dc_path_mtu config) queue (sv_forwarder sv)
      in (drain, queue, sv\<lparr>sv_forwarder := fw\<rparr>))"

text \<open>The longest the loop waits for events before the next pass.\<close>

definition relay_wait_timeout :: "instant \<Rightarrow> instant \<Rightarrow> duration \<Rightarrow> duration option \<Rightarrow> duration" where
  "relay_wait_timeout now last_gateway_prune gateway_prune_interval next_emit_in =
     (let minimum = 10 ^ 6;
          prune_wait = max (gateway_prune_interval - (now - last_gateway_prune)) minimum;
          metrics_wait = max (case next_emit_in of Some d \<Rightarrow> d | None \<Rightarrow> RELAY_IDLE_MAINTENANCE_INTERVAL) minimum
      in min (min prune_wait metrics_wait) RELAY_IDLE_MAINTENANCE_INTERVAL)"

lemma relay_wait_bounds:
  "10 ^ 6 \<le> relay_wait_timeout now last_gateway_prune interval next_emit_in"
  "relay_wait_timeout now last_gateway_prune interval next_emit_in \<le> from_secs 1"
  by (simp_all add: relay_wait_timeout_def RELAY_IDLE_MAINTENANCE_INTERVAL_def from_secs_def Let_def)

section \<open>Runs of the loop\<close>

definition input_times :: "control_input list \<Rightarrow> instant list" where
  "input_times inputs = map (\<lambda>(_, t, _, _). t) inputs"

inductive server_run ::
  "hmac_fun \<Rightarrow> ('c, 'i, 'e) capture_ops \<Rightarrow> 's send_fun \<Rightarrow> ('f \<Rightarrow> 'p \<Rightarrow> bytes \<Rightarrow> ('t, nat) res \<times> 'f)
   \<Rightarrow> ('q \<Rightarrow> ('e, upstream_datagram option) res \<times> 'q) \<Rightarrow> relay_daemon_config \<Rightarrow> instant \<Rightarrow> ('c, 'i, 's, 'f, 'p) relay_server
   \<Rightarrow> instant \<Rightarrow> ('c, 'i, 's, 'f, 'p) relay_server \<Rightarrow> bool"
  for hmac ops send_to send_ip_datagram try_recv config t0 sv0 where
  start: "server_run hmac ops send_to send_ip_datagram try_recv config t0 sv0 t0 sv0"
| pass: "server_run hmac ops send_to send_ip_datagram try_recv config t0 sv0 t sv \<Longrightarrow>
    sorted (t # input_times inputs @ [now]) \<Longrightarrow>
    server_run hmac ops send_to send_ip_datagram try_recv config t0 sv0 now
      (snd (snd (relay_pass hmac ops send_to send_ip_datagram clock try_recv config inputs now queue sv)))"

lemma receive_control_inv:
  assumes "capture_total ops" "daemon_inv t (sv_daemon sv)" "t \<le> now"
  shows "daemon_inv now (sv_daemon (receive_control hmac ops (fresh, now, peer, dg) sv))"
proof -
  have "daemon_inv now (sv_daemon sv)"
    using assms(2,3) tracked_later[of t _ _ now] by (simp add: daemon_inv_def)
  then show ?thesis
    using daemon_inv_handle[OF assms, of hmac fresh peer dg] by (simp add: receive_control_def Let_def case_prod_unfold)
qed

lemma receive_all_inv:
  assumes "capture_total ops" "daemon_inv t (sv_daemon sv)" "sorted (t # input_times inputs @ [now])"
  shows "daemon_inv now (sv_daemon (fold (receive_control hmac ops) (take n inputs) sv))"
  using assms(2,3)
proof (induction inputs arbitrary: t sv n)
  case Nil
  then show ?case using tracked_later[of t _ _ now] by (simp add: daemon_inv_def)
next
  case (Cons input inputs)
  obtain fresh t1 peer dg where i: "input = (fresh, t1, peer, dg)" by (cases input)
  have s: "t \<le> t1" "sorted (t1 # input_times inputs @ [now])" "t \<le> now"
    using Cons.prems(2) by (auto simp: i input_times_def sorted_append)
  show ?case
  proof (cases n)
    case 0
    then show ?thesis using Cons.prems(1) s(3) tracked_later[of t _ _ now] by (simp add: daemon_inv_def)
  next
    case (Suc k)
    then show ?thesis using Cons.IH[OF receive_control_inv[OF assms(1) Cons.prems(1) s(1)] s(2)] by (simp add: i)
  qed
qed

lemma relay_upkeep_inv:
  "capture_total ops \<Longrightarrow> daemon_inv now (sv_daemon sv) \<Longrightarrow> daemon_inv now (sv_daemon (relay_upkeep ops config now sv))"
  using daemon_inv_maintain[of ops now "sv_daemon sv" now] by (simp add: relay_upkeep_def)

lemma relay_pass_inv:
  assumes "capture_total ops" "daemon_inv t (sv_daemon sv)" "sorted (t # input_times inputs @ [now])"
  shows "daemon_inv now (sv_daemon (snd (snd (relay_pass hmac ops send_to send_ip_datagram clock try_recv config inputs now queue sv))))"
  using relay_upkeep_inv[OF assms(1) receive_all_inv[OF assms, of hmac MAX_CONTROL_DRAIN], of config]
  by (simp add: relay_pass_def Let_def case_prod_unfold)

lemma server_run_inv:
  "server_run hmac ops send_to send_ip_datagram try_recv config t0 sv0 t sv \<Longrightarrow> capture_total ops \<Longrightarrow>
   daemon_inv t0 (sv_daemon sv0) \<Longrightarrow> daemon_inv t (sv_daemon sv)"
  by (induction rule: server_run.induct) (auto intro: relay_pass_inv)

lemma server_start_inv: "daemon_inv t (sv_daemon (relay_server_new t config ctx fw))"
  by (simp add: relay_server_new_def daemon_inv_start)

section \<open>Properties of the loop\<close>

lemma receive_all_forwarder: "sv_forwarder (fold (receive_control hmac ops) inputs sv) = sv_forwarder sv"
proof (induction inputs arbitrary: sv)
  case (Cons input inputs)
  have "sv_forwarder (receive_control hmac ops input sv) = sv_forwarder sv"
    by (simp add: receive_control_def Let_def case_prod_unfold)
  with Cons show ?case by simp
qed simp

lemma relay_upkeep_forwarder: "sv_forwarder (relay_upkeep ops config now sv) = sv_forwarder sv"
  by (simp add: relay_upkeep_def)

text \<open>A validated configuration expires no gateway that refreshes within the advertised query interval.\<close>

lemma refreshing_gateways_kept:
  assumes "relay_daemon_config_validate config = Ok ()"
    and "fmlookup (rd_activity (sv_daemon sv)) e = Some seen"
    and "now \<le> seen + query_interval (query_interval_code (rc_general_query (dc_relay config)))"
  shows "fmlookup (rs_endpoints (r_state (rd_relay (sv_daemon (relay_upkeep ops config now sv))))) e =
    fmlookup (rs_endpoints (r_state (rd_relay (sv_daemon sv)))) e"
  using assms
  by (auto simp: relay_upkeep_def maintain_view(2)[OF refl] idle_def stale_iff relay_daemon_config_validate_def Let_def
      split: option.splits if_splits)


definition sample_config :: relay_daemon_config where
  "sample_config = relay_daemon_config_new (for_bind (replicate 32 7) (SockV4 0xC0000264 2268))"

definition sample_server :: "(nat list, nat, unit, unit, unit) relay_server" where
  "sample_server = relay_server_new 0 sample_config [] sample_forwarder"


end
