(* ===== verification/Gateway_Daemon.thy ===== *)
theory Gateway_Daemon
  imports Gateway Local_Membership Downstream
begin

text \<open>
  The gateway daemon with a configured relay, \<open>run_static_gateway\<close> in \<open>src/daemon.rs\<close>: its
  configuration, the retry timer, the report of what the configured joins and the local hosts want,
  and the main loop with its timers.  The tunnel socket, the capture and transmit libraries, the
  clock and the random source are parameters.  The lemmas show that after every advertisement the
  gateway receives exactly what is configured or wanted locally, that retries stay within their
  bounds, and that the loop always has a timer armed that makes it send again.
\<close>

section \<open>Configuration\<close>

definition DEFAULT_MEMBERSHIP_REFRESH_INTERVAL :: duration where "DEFAULT_MEMBERSHIP_REFRESH_INTERVAL = from_secs 60"
definition GATEWAY_RETRY_INITIAL :: duration where "GATEWAY_RETRY_INITIAL = from_secs 1"
definition GATEWAY_RETRY_MAX :: duration where "GATEWAY_RETRY_MAX = from_secs 120"
definition GATEWAY_QUERY_TIMEOUT :: duration where "GATEWAY_QUERY_TIMEOUT = from_secs 10"
definition LOCAL_REPORTER_PRUNE_INTERVAL :: duration where "LOCAL_REPORTER_PRUNE_INTERVAL = from_secs 5"
definition MAX_LOCAL_MEMBERSHIP_DRAIN :: nat where "MAX_LOCAL_MEMBERSHIP_DRAIN = 64"

record gateway_join =
  gj_group :: ip_addr
  gj_source :: "ip_addr option"

record gateway_daemon_config =
  gdc_gateway :: gateway_config
  gdc_joins :: "gateway_join list"
  gdc_downstream :: "downstream_config option"
  gdc_local_membership :: "local_membership_config option"
  gdc_membership_refresh_interval :: "duration option"

definition gateway_daemon_config_new :: "gateway_config \<Rightarrow> gateway_daemon_config" where
  "gateway_daemon_config_new gateway =
     \<lparr>gdc_gateway = gateway, gdc_joins = [],
      gdc_downstream = Some \<lparr>dc_interface = None, dc_interface_index = None, dc_loopback = None\<rparr>,
      gdc_local_membership = None, gdc_membership_refresh_interval = Some DEFAULT_MEMBERSHIP_REFRESH_INTERVAL\<rparr>"

datatype gateway_daemon_config_error =
    GdcProtocolMismatch
  | GdcQuerySourceMissing
  | GdcMldNeedsInterface
  | GdcDownstream downstream_config_error

fun has_query_source :: "membership_protocol \<Rightarrow> ip_addr option \<Rightarrow> bool" where
  "has_query_source Igmpv3 (Some (V4 address)) \<longleftrightarrow> \<not> is_unspecified (V4 address)"
| "has_query_source Mldv2 (Some (V6 address)) \<longleftrightarrow> \<not> is_unspecified (V6 address)"
| "has_query_source _ _ \<longleftrightarrow> False"

definition gateway_daemon_config_validate ::
  "egress_platform \<Rightarrow> gateway_daemon_config \<Rightarrow> (gateway_daemon_config_error, unit) res" where
  "gateway_daemon_config_validate platform self =
     bnd (case gdc_local_membership self of
            None \<Rightarrow> Ok ()
          | Some local_config \<Rightarrow>
              if lc_protocol local_config \<noteq> gc_protocol (gdc_gateway self) then Err GdcProtocolMismatch else
              (case gdc_downstream self of
                 None \<Rightarrow> Ok ()
               | Some downstream \<Rightarrow>
                   if lc_query_interval local_config = None then Ok ()
                   else if \<not> has_query_source (lc_protocol local_config) (lc_interface local_config) then Err GdcQuerySourceMissing
                   else if lc_protocol local_config = Mldv2 \<and> uses_route_selected_egress downstream then Err GdcMldNeedsInterface
                   else Ok ())) (\<lambda>_.
     case gdc_downstream self of
       None \<Rightarrow> Ok ()
     | Some downstream \<Rightarrow> map_err GdcDownstream (validate_for_protocol platform downstream (gc_protocol (gdc_gateway self))))"

section \<open>The retry timer\<close>

record gateway_retry =
  gr_attempt :: nat
  gr_next_attempt :: instant

definition retry_due_now :: "instant \<Rightarrow> gateway_retry" where
  "retry_due_now now = \<lparr>gr_attempt = 0, gr_next_attempt = now\<rparr>"

definition retry_is_due :: "instant \<Rightarrow> gateway_retry \<Rightarrow> bool" where
  "retry_is_due now self \<longleftrightarrow> gr_next_attempt self \<le> now"

definition upper_delay :: "nat \<Rightarrow> duration" where
  "upper_delay attempt = min (GATEWAY_RETRY_INITIAL * 2 ^ min attempt 7) GATEWAY_RETRY_MAX"

text \<open>The random word is missing when the random source fails.\<close>

definition randomized_retry_delay :: "64 word option \<Rightarrow> duration \<Rightarrow> duration" where
  "randomized_retry_delay rnd upper =
     (let lower_ms = GATEWAY_RETRY_INITIAL div 10 ^ 6;
          upper_ms = upper div 10 ^ 6;
          random = (case rnd of Some bytes \<Rightarrow> unat bytes | None \<Rightarrow> upper_ms);
          span = (upper_ms - lower_ms) + 1
      in (lower_ms + random mod span) * 10 ^ 6)"

definition retry_after_send :: "64 word option \<Rightarrow> instant \<Rightarrow> gateway_retry \<Rightarrow> gateway_retry" where
  "retry_after_send rnd now self =
     (let upper = upper_delay (gr_attempt self)
      in \<lparr>gr_attempt = min (gr_attempt self + 1) (2 ^ 32 - 1), gr_next_attempt = now + randomized_retry_delay rnd upper\<rparr>)"

definition retry_reset_after_send :: "64 word option \<Rightarrow> instant \<Rightarrow> gateway_retry \<Rightarrow> gateway_retry" where
  "retry_reset_after_send rnd now self = retry_after_send rnd now (self\<lparr>gr_attempt := 0\<rparr>)"

section \<open>What the gateway is to receive\<close>

definition add_join :: "gateway_join \<Rightarrow> (ip_addr, ip_addr fset option) fmap \<Rightarrow> (ip_addr, ip_addr fset option) fmap" where
  "add_join join groups =
     (let interest = (case fmlookup groups (gj_group join) of Some i \<Rightarrow> i | None \<Rightarrow> Some {||})
      in fmupd (gj_group join)
           (case (interest, gj_source join) of
              (_, None) \<Rightarrow> None
            | (Some sources, Some source) \<Rightarrow> Some (finsert source sources)
            | (None, Some _) \<Rightarrow> None) groups)"

definition join_record :: "ip_addr \<times> ip_addr fset option \<Rightarrow> membership_record" where
  "join_record = (\<lambda>(grp, sources). case sources of
     Some sources \<Rightarrow> \<lparr>mr_kind = ModeIsInclude, mr_group = grp, mr_sources = set_iter sources\<rparr>
   | None \<Rightarrow> \<lparr>mr_kind = ModeIsExclude, mr_group = grp, mr_sources = []\<rparr>)"

definition configured_joins_report :: "membership_protocol \<Rightarrow> gateway_join list \<Rightarrow> membership_report option" where
  "configured_joins_report protocol joins =
     (let groups = fold add_join joins fmempty; records = map join_record (map_iter groups)
      in if records \<noteq> [] then Some \<lparr>rp_protocol = protocol, rp_records = records\<rparr> else None)"

definition interest_record :: "ip_addr \<times> group_interest \<Rightarrow> membership_record" where
  "interest_record = (\<lambda>(grp, interest).
     \<lparr>mr_kind = (case gi_mode interest of Include \<Rightarrow> ModeIsInclude | Exclude \<Rightarrow> ModeIsExclude),
      mr_group = grp, mr_sources = set_iter (gi_sources interest)\<rparr>)"

definition desired_membership_report ::
  "membership_protocol \<Rightarrow> gateway_join list \<Rightarrow> ('c, 's) local_membership_manager option \<Rightarrow> membership_report" where
  "desired_membership_report protocol joins local_manager =
     (let state = empty_state;
          state = (case configured_joins_report protocol joins of
              Some report \<Rightarrow> snd (apply_report state (SockV4 0 1) report) | None \<Rightarrow> state);
          state = (case Option.bind local_manager current_report of
              Some report \<Rightarrow> snd (apply_report state (SockV4 0 2) report) | None \<Rightarrow> state)
      in \<lparr>rp_protocol = protocol, rp_records = map interest_record (aggregate_interests state)\<rparr>)"

section \<open>The desired report is exact\<close>

lemma upper_delay_bounds: "GATEWAY_RETRY_INITIAL \<le> upper_delay n" "upper_delay n \<le> GATEWAY_RETRY_MAX"
  by (simp_all add: upper_delay_def GATEWAY_RETRY_INITIAL_def GATEWAY_RETRY_MAX_def from_secs_def)

lemma randomized_delay_bounds:
  assumes "GATEWAY_RETRY_INITIAL \<le> upper"
  shows "GATEWAY_RETRY_INITIAL \<le> randomized_retry_delay rnd upper" "randomized_retry_delay rnd upper \<le> upper"
proof -
  let ?l = "GATEWAY_RETRY_INITIAL div 10 ^ 6" and ?u = "upper div 10 ^ 6"
  let ?r = "case rnd of Some bytes \<Rightarrow> unat bytes | None \<Rightarrow> ?u"
  have l: "?l * 10 ^ 6 = GATEWAY_RETRY_INITIAL" by (simp add: GATEWAY_RETRY_INITIAL_def from_secs_def)
  have "?l \<le> ?u" using assms by (rule div_le_mono)
  then have "?l + ?r mod (?u - ?l + 1) \<le> ?u" using mod_less_divisor[of "?u - ?l + 1" ?r] by linarith
  then have "(?l + ?r mod (?u - ?l + 1)) * 10 ^ 6 \<le> ?u * 10 ^ 6" by (rule mult_le_mono1)
  also have "\<dots> \<le> upper" by simp
  finally show "randomized_retry_delay rnd upper \<le> upper" unfolding randomized_retry_delay_def Let_def .
  show "GATEWAY_RETRY_INITIAL \<le> randomized_retry_delay rnd upper"
    unfolding randomized_retry_delay_def Let_def using l by (metis le_add1 mult_le_mono1)
qed

lemma fold_add_join:
  "fmlookup (fold add_join joins groups) g =
     (if \<exists>j \<in> set joins. gj_group j = g
      then Some (if (\<exists>j \<in> set joins. gj_group j = g \<and> gj_source j = None) \<or> fmlookup groups g = Some None then None
                 else Some ((case fmlookup groups g of Some (Some S) \<Rightarrow> S | _ \<Rightarrow> {||}) |\<union>|
                   fset_of_list (map (\<lambda>j. the (gj_source j)) (filter (\<lambda>j. gj_group j = g) joins))))
      else fmlookup groups g)"
proof (induction joins arbitrary: groups)
  case (Cons j joins)
  have s: "fmlookup (add_join j groups) g = (if gj_group j = g
      then Some (case gj_source j of None \<Rightarrow> None
        | Some s \<Rightarrow> (case fmlookup groups g of Some None \<Rightarrow> None | Some (Some S) \<Rightarrow> Some (finsert s S) | None \<Rightarrow> Some {|s|}))
      else fmlookup groups g)"
    by (auto simp: add_join_def Let_def split: option.split)
  show ?case
    unfolding fold_Cons_rev fold.simps comp_apply Cons.IH s
    by (cases "gj_source j"; cases "fmlookup groups g"; auto simp: fset_of_list_elem split: option.splits)
qed simp

text \<open>What a report asks for, one record per group.\<close>

definition report_wants :: "membership_report \<Rightarrow> ip_addr \<Rightarrow> ip_addr \<Rightarrow> bool" where
  "report_wants rp g s \<longleftrightarrow> s \<in> sources_after (rp_records rp) g {}"

definition joined :: "gateway_join list \<Rightarrow> ip_addr \<Rightarrow> ip_addr \<Rightarrow> bool" where
  "joined joins g s \<longleftrightarrow> (\<exists>j \<in> set joins. gj_group j = g \<and> (gj_source j = None \<or> gj_source j = Some s))"

lemma find_map_iter:
  assumes "\<And>x. mr_group (f x) = fst x"
  shows "find (\<lambda>r. mr_group r = g) (map f (map_iter m)) = map_option (\<lambda>v. f (g, v)) (fmlookup m g)"
proof -
  have f: "find (\<lambda>r. mr_group r = g) (map f xs) = map_option (\<lambda>v. f (g, v)) (map_of xs g)" for xs
    by (induction xs) (auto simp: assms)
  have "map_of (map_iter m) g = Some v \<longleftrightarrow> fmlookup m g = Some v" for v
    using map_of_eq_Some_iff[OF btree.iter_distinct[of m], of g v] by (simp only: map_iter_get)
  then have "map_of (map_iter m) g = fmlookup m g" by (cases "fmlookup m g"; cases "map_of (map_iter m) g") auto
  then show ?thesis by (simp only: f)
qed

lemma distinct_map_iter_groups:
  assumes "\<And>x. mr_group (f x) = fst x"
  shows "distinct (map mr_group (map f (map_iter m)))"
proof -
  have eq: "map mr_group (map f (map_iter m)) = map fst (map_iter m)" by (simp add: assms)
  show ?thesis unfolding eq by (rule btree.iter_distinct)
qed

lemma joins_wanted:
  "s \<in> sources_after (map join_record (map_iter (fold add_join joins fmempty))) g {} \<longleftrightarrow> joined joins g s"
proof -
  have g: "mr_group (join_record x) = fst x" for x by (cases x) (auto simp: join_record_def split: option.split)
  have "replaces (mr_kind (join_record x))" for x
    by (cases x; cases "snd x") (simp_all add: join_record_def replaces_def)
  then have "\<forall>r \<in> set (map join_record (map_iter (fold add_join joins fmempty))). replaces (mr_kind r)" by simp
  note * = sources_after_replaces[OF this distinct_map_iter_groups[OF g]]
  show ?thesis
    unfolding * find_map_iter[OF g] fold_add_join
    by (auto simp: joined_def join_record_def fset_of_list.rep_eq image_iff) force
qed

lemma apply_report_elsewhere:
  assumes "e' \<noteq> e"
  shows "wanted (snd (apply_report st e rp)) e' g s = wanted st e' g s"
proof (cases "rp_records rp = []")
  case False
  then have "fmlookup (rs_endpoints (snd (apply_report st e rp))) e' = fmlookup (rs_endpoints st) e'"
    using assms by (simp add: apply_report_endpoints)
  then show ?thesis by (simp add: wanted_def endpoint_interest_def)
qed (simp add: apply_report_def)

lemma interest_meaning:
  "record_meaning (mr_kind (interest_record (g, i))) (set (mr_sources (interest_record (g, i)))) {} = {s. wants_source i s}"
  by (cases "gi_mode i") (auto simp: interest_record_def wants_source_def)

lemma interest_record_simps [simp]:
  "mr_group (interest_record x) = fst x" "replaces (mr_kind (interest_record x))"
  by (cases x; cases "gi_mode (snd x)"; simp add: interest_record_def replaces_def)+

lemma interest_records_replace:
  fixes st
  defines "records \<equiv> map interest_record (aggregate_interests st)"
  shows "\<forall>r \<in> set records. replaces (mr_kind r)" "distinct (map mr_group records)"
  unfolding records_def aggregate_interests_def using distinct_map_iter_groups[OF interest_record_simps(1)] by auto

lemma aggregate_records_wanted:
  assumes "state_inv st"
  shows "s \<in> sources_after (map interest_record (aggregate_interests st)) g {} \<longleftrightarrow> (\<exists>e. wanted st e g s)"
proof -
  note * = sources_after_replaces[OF interest_records_replace]
  have "rebuild_indexes st = st" using assms by (simp add: state_inv_def)
  from indexes_correct(3)[OF this, of s g] show ?thesis
    unfolding * unfolding aggregate_interests_def find_map_iter[OF interest_record_simps(1)]
    by (cases "fmlookup (rs_aggregate st) g") (simp_all add: interest_meaning)
qed

text \<open>What the configured joins and the local hosts want together.\<close>

definition desired :: "gateway_join list \<Rightarrow> ('c, 's) local_membership_manager option \<Rightarrow> ip_addr \<Rightarrow> ip_addr \<Rightarrow> bool" where
  "desired joins local_manager g s \<longleftrightarrow> joined joins g s \<or>
     (\<exists>m. local_manager = Some m \<and> wants (current_exportable_interests m) g s)"

lemma configured_report_wanted:
  "s \<in> sources_after (records_of (configured_joins_report p joins)) g {} \<longleftrightarrow> joined joins g s"
  using joins_wanted[of s joins g]
  by (cases "map_iter (fold add_join joins fmempty) = []") (simp_all add: configured_joins_report_def records_of_def Let_def)

lemma current_report_wanted:
  assumes "local_inv m"
  shows "s \<in> sources_after (records_of (current_report m)) g {} \<longleftrightarrow> wants (current_exportable_interests m) g s"
  using wants_fold[of "records_of (current_report m)" fmempty g] current_report_apply[OF assms]
  by (auto simp: wants_def)

lemma apply_optional_report:
  fixes rp :: "membership_report option" and e :: socket_addr
  assumes "state_inv st"
  defines "st' \<equiv> (case rp of Some report \<Rightarrow> snd (apply_report st e report) | None \<Rightarrow> st)"
  shows "state_inv st'" and "e' \<noteq> e \<Longrightarrow> wanted st' e' g s = wanted st e' g s"
    and "{s. wanted st' e g s} = sources_after (records_of rp) g {s. wanted st e g s}"
  using assms(1) by (cases rp; simp add: st'_def state_inv_apply_report apply_report_elsewhere wanted_apply_report records_of_def sources_after_def)+

lemma desired_report_wanted:
  assumes "\<And>m. local_manager = Some m \<Longrightarrow> local_inv m"
  shows "report_wants (desired_membership_report p joins local_manager) g s \<longleftrightarrow> desired joins local_manager g s"
proof -
  let ?e1 = "SockV4 0 1" and ?e2 = "SockV4 0 2"
  define st1 where "st1 = (case configured_joins_report p joins of Some report \<Rightarrow> snd (apply_report empty_state ?e1 report) | None \<Rightarrow> empty_state)"
  define st2 where "st2 = (case Option.bind local_manager current_report of Some report \<Rightarrow> snd (apply_report st1 ?e2 report) | None \<Rightarrow> st1)"
  have w0: "\<not> wanted empty_state e g s" for e s by (simp add: wanted_def endpoint_interest_def empty_state_def)
  have s0: "state_inv empty_state" by simp
  note a1 = apply_optional_report[OF s0, where rp = "configured_joins_report p joins" and e = ?e1, folded st1_def]
  note a2 = apply_optional_report[OF a1(1), where rp = "Option.bind local_manager current_report" and e = ?e2, folded st2_def]
  have "wanted st2 ?e1 g s \<longleftrightarrow> joined joins g s"
    using a1(3)[of g] a2(2)[of ?e1 g s] w0 configured_report_wanted[of s p joins g] by auto
  moreover have "wanted st2 ?e2 g s \<longleftrightarrow> (\<exists>m. local_manager = Some m \<and> wants (current_exportable_interests m) g s)"
  proof -
    have "{s. wanted st1 ?e2 g s} = {}" using a1(2)[of ?e2 g] w0 by auto
    then have "wanted st2 ?e2 g s \<longleftrightarrow> s \<in> sources_after (records_of (Option.bind local_manager current_report)) g {}"
      using a2(3)[of g] by auto
    then show ?thesis
      using current_report_wanted[OF assms, of _ s g] by (cases local_manager) (auto simp: records_of_def sources_after_def)
  qed
  moreover have "\<not> wanted st2 e g s" if "e \<noteq> ?e1" "e \<noteq> ?e2" for e
    using a1(2)[OF that(1), of g s] a2(2)[OF that(2), of g s] w0 by simp
  ultimately have "(\<exists>e. wanted st2 e g s) \<longleftrightarrow> desired joins local_manager g s" unfolding desired_def by metis
  moreover have "rp_records (desired_membership_report p joins local_manager) = map interest_record (aggregate_interests st2)"
    unfolding desired_membership_report_def Let_def st2_def st1_def by simp
  ultimately show ?thesis using aggregate_records_wanted[OF a2(1), of s g] by (simp add: report_wants_def)
qed

section \<open>The main loop\<close>

definition limit_requires_rediscovery :: "bool \<Rightarrow> bool \<Rightarrow> bool \<Rightarrow> bool" where
  "limit_requires_rediscovery limit has_reported endpoint_changed \<longleftrightarrow> limit \<and> (\<not> has_reported \<or> endpoint_changed)"

definition effective_refresh_interval_for :: "duration \<Rightarrow> duration \<Rightarrow> duration" where
  "effective_refresh_interval_for configured suggested = (if suggested = 0 then configured else min configured suggested)"

text \<open>The operations the loop is run with: the tunnel socket, which may refuse a datagram, the capture
  library of the local membership router and the transmit library.\<close>

record ('n, 'c, 'm, 'd, 'p, 't) gateway_io =
  io_send_to :: "'n \<Rightarrow> bytes \<Rightarrow> socket_addr \<Rightarrow> bool \<times> 'n"
  io_recv_local :: "'c \<Rightarrow> ('m, bytes option) res \<times> 'c"
  io_platform :: egress_platform
  io_transmit :: "('d, 'p, 't) transmit_ops"

record ('n, 'c, 's, 'd, 'p) gateway_loop =
  gl_gateway :: gateway
  gl_local :: "('c, 's) local_membership_manager option"
  gl_downstream :: "('d, 'p) downstream_publisher option"
  gl_socket :: 'n
  gl_sent :: "(socket_addr \<times> bytes) list"
  gl_relay_retry :: gateway_retry
  gl_query_cycle_started :: "instant option"
  gl_last_local_query :: "instant option"
  gl_last_local_prune :: instant
  gl_last_membership_refresh :: "instant option"
  gl_effective_refresh_interval :: duration

datatype 'm gateway_loop_error = GlSend | GlGateway gateway_error | GlLocal "'m local_membership_error"

type_synonym ('m, 'a, 'l) loop_result = "('m gateway_loop_error, 'a) res \<times> 'l"

definition lbind :: "('m, 'a, 'l) loop_result \<Rightarrow> ('a \<Rightarrow> 'l \<Rightarrow> ('m, 'b, 'l) loop_result) \<Rightarrow> ('m, 'b, 'l) loop_result" where
  "lbind m f = (case m of (Ok a, l) \<Rightarrow> f a l | (Err e, l) \<Rightarrow> (Err e, l) | (Panic, l) \<Rightarrow> (Panic, l))"

text \<open>The random words one step may draw: two nonces and the word of the retry delay.\<close>

type_synonym draw = "u32 \<times> u32 \<times> 64 word option"

text \<open>\<open>gl_sent\<close> records what was handed to the socket; a datagram the socket refuses ends the loop.\<close>

definition tunnel_send_to ::
  "('n, 'c, 'm, 'd, 'p, 't) gateway_io \<Rightarrow> socket_addr \<Rightarrow> bytes \<Rightarrow> ('n, 'c, 's, 'd, 'p) gateway_loop
   \<Rightarrow> ('m, unit, ('n, 'c, 's, 'd, 'p) gateway_loop) loop_result" where
  "tunnel_send_to io destination datagram l =
     (let (sent, socket) = io_send_to io (gl_socket l) datagram destination;
          l = l\<lparr>gl_socket := socket, gl_sent := gl_sent l @ [(destination, datagram)]\<rparr>
      in (if sent then Ok () else Err GlSend, l))"

definition send_gateway_action ::
  "('n, 'c, 'm, 'd, 'p, 't) gateway_io \<Rightarrow> gateway_action \<Rightarrow> ('n, 'c, 's, 'd, 'p) gateway_loop
   \<Rightarrow> ('m, unit, ('n, 'c, 's, 'd, 'p) gateway_loop) loop_result" where
  "send_gateway_action io action l =
     (case action of GwSend destination datagram \<Rightarrow> tunnel_send_to io destination datagram l | _ \<Rightarrow> (Ok (), l))"

definition send_desired_membership ::
  "('n, 'c, 'm, 'd, 'p, 't) gateway_io \<Rightarrow> gateway_join list \<Rightarrow> ('n, 'c, 's, 'd, 'p) gateway_loop
   \<Rightarrow> ('m, bool, ('n, 'c, 's, 'd, 'p) gateway_loop) loop_result" where
  "send_desired_membership io joins l =
     (let report = desired_membership_report (gc_protocol (gw_config (gl_gateway l))) joins (gl_local l);
          (r, g) = replace_memberships report (gl_gateway l);
          l = l\<lparr>gl_gateway := g\<rparr>
      in case r of
           Err e \<Rightarrow> (Err (GlGateway e), l)
         | Panic \<Rightarrow> (Panic, l)
         | Ok None \<Rightarrow> (Ok False, l)
         | Ok (Some action) \<Rightarrow> lbind (send_gateway_action io action l) (\<lambda>_ l.
             (Ok True, l\<lparr>gl_local := map_option mark_advertised (gl_local l)\<rparr>)))"

text \<open>Starting over with the next relay.\<close>

definition rediscover ::
  "('n, 'c, 'm, 'd, 'p, 't) gateway_io \<Rightarrow> instant \<Rightarrow> draw \<Rightarrow> ('n, 'c, 's, 'd, 'p) gateway_loop
   \<Rightarrow> ('m, unit, ('n, 'c, 's, 'd, 'p) gateway_loop) loop_result" where
  "rediscover io now draw l =
     (let (fresh1, fresh2, rnd) = draw;
          (action, g) = restart_discovery fresh1 fresh2 (gl_gateway l)
      in lbind (send_gateway_action io action (l\<lparr>gl_gateway := g\<rparr>)) (\<lambda>_ l.
         (Ok (), l\<lparr>gl_query_cycle_started := Some now, gl_relay_retry := retry_reset_after_send rnd now (gl_relay_retry l)\<rparr>)))"

definition query_timeout_step ::
  "('n, 'c, 'm, 'd, 'p, 't) gateway_io \<Rightarrow> instant \<Rightarrow> draw \<Rightarrow> ('n, 'c, 's, 'd, 'p) gateway_loop
   \<Rightarrow> ('m, unit, ('n, 'c, 's, 'd, 'p) gateway_loop) loop_result" where
  "query_timeout_step io now draw l =
     (case gl_query_cycle_started l of
        Some started \<Rightarrow> if GATEWAY_QUERY_TIMEOUT \<le> now - started then rediscover io now draw l else (Ok (), l)
      | None \<Rightarrow> (Ok (), l))"

definition retry_step ::
  "('n, 'c, 'm, 'd, 'p, 't) gateway_io \<Rightarrow> instant \<Rightarrow> draw \<Rightarrow> ('n, 'c, 's, 'd, 'p) gateway_loop
   \<Rightarrow> ('m, unit, ('n, 'c, 's, 'd, 'p) gateway_loop) loop_result" where
  "retry_step io now draw l =
     (let (_, _, rnd) = draw in
      if gw_relay_endpoint (gl_gateway l) = None \<and> retry_is_due now (gl_relay_retry l) then
        lbind (send_gateway_action io (discovery (gl_gateway l)) l) (\<lambda>_ l.
        (Ok (), l\<lparr>gl_query_cycle_started := (case gl_query_cycle_started l of Some t \<Rightarrow> Some t | None \<Rightarrow> Some now),
                  gl_relay_retry := retry_after_send rnd now (gl_relay_retry l)\<rparr>))
      else if is_awaiting_query (gl_gateway l) \<and> retry_is_due now (gl_relay_retry l) then
        (case gateway_request (gl_gateway l) of
           Err e \<Rightarrow> (Err (GlGateway e), l)
         | Panic \<Rightarrow> (Panic, l)
         | Ok action \<Rightarrow> lbind (send_gateway_action io action l) (\<lambda>_ l.
             (Ok (), l\<lparr>gl_relay_retry := retry_after_send rnd now (gl_relay_retry l)\<rparr>)))
      else (Ok (), l))"

definition publish ::
  "('n, 'c, 'm, 'd, 'p, 't) gateway_io \<Rightarrow> bytes \<Rightarrow> ('n, 'c, 's, 'd, 'p) gateway_loop
   \<Rightarrow> ('m, unit, ('n, 'c, 's, 'd, 'p) gateway_loop) loop_result" where
  "publish io packet l =
     (case gl_downstream l of
        None \<Rightarrow> (Ok (), l)
      | Some downstream \<Rightarrow>
          let (r, downstream) = forward_ip_datagram (io_platform io) (io_transmit io) packet downstream
          in (if r = Panic then Panic else Ok (), l\<lparr>gl_downstream := Some downstream\<rparr>))"

definition local_query_step ::
  "('n, 'c, 'm, 'd, 'p, 't) gateway_io \<Rightarrow> instant \<Rightarrow> ('n, 'c, 's, 'd, 'p) gateway_loop
   \<Rightarrow> ('m, unit, ('n, 'c, 's, 'd, 'p) gateway_loop) loop_result" where
  "local_query_step io now l =
     (case gl_local l of
        None \<Rightarrow> (Ok (), l)
      | Some m \<Rightarrow>
          (case lc_query_interval (lm_config m) of
             None \<Rightarrow> (Ok (), l)
           | Some interval \<Rightarrow>
               if (case gl_last_local_query l of Some last_query \<Rightarrow> interval \<le> now - last_query | None \<Rightarrow> True)
               then lbind (publish io (local_query m) l) (\<lambda>_ l. (Ok (), l\<lparr>gl_last_local_query := Some now\<rparr>))
               else (Ok (), l)))"

definition refresh_step ::
  "('n, 'c, 'm, 'd, 'p, 't) gateway_io \<Rightarrow> instant \<Rightarrow> draw \<Rightarrow> ('n, 'c, 's, 'd, 'p) gateway_loop
   \<Rightarrow> ('m, unit, ('n, 'c, 's, 'd, 'p) gateway_loop) loop_result" where
  "refresh_step io now draw l =
     (let (fresh, _, rnd) = draw in
      if is_established (gl_gateway l) \<and>
         (case gl_last_membership_refresh l of Some t \<Rightarrow> gl_effective_refresh_interval l \<le> now - t | None \<Rightarrow> False) then
        let (r, g) = begin_query_cycle fresh (gl_gateway l); l = l\<lparr>gl_gateway := g\<rparr>
        in (case r of
              Err e \<Rightarrow> (Err (GlGateway e), l)
            | Panic \<Rightarrow> (Panic, l)
            | Ok action \<Rightarrow> lbind (send_gateway_action io action l) (\<lambda>_ l.
                (Ok (), l\<lparr>gl_query_cycle_started := Some now, gl_relay_retry := retry_reset_after_send rnd now (gl_relay_retry l)\<rparr>)))
      else (Ok (), l))"

definition receive_query ::
  "('n, 'c, 'm, 'd, 'p, 't) gateway_io \<Rightarrow> duration \<Rightarrow> gateway_join list \<Rightarrow> instant \<Rightarrow> draw \<Rightarrow> bool \<Rightarrow> duration \<Rightarrow> gateway_send option
   \<Rightarrow> ('n, 'c, 's, 'd, 'p) gateway_loop \<Rightarrow> ('m, unit, ('n, 'c, 's, 'd, 'p) gateway_loop) loop_result" where
  "receive_query io configured joins now draw limit interval previous_teardown l =
     lbind (case previous_teardown of
              Some t \<Rightarrow> tunnel_send_to io (gsend_destination t) (gsend_datagram t) l | None \<Rightarrow> (Ok (), l)) (\<lambda>_ l.
     if limit_requires_rediscovery limit (has_reported_memberships (gl_gateway l)) (previous_teardown \<noteq> None)
     then lbind (rediscover io now draw l) (\<lambda>_ l. (Ok (), l\<lparr>gl_last_membership_refresh := None\<rparr>))
     else lbind (send_desired_membership io joins
                  (l\<lparr>gl_effective_refresh_interval := effective_refresh_interval_for configured interval\<rparr>)) (\<lambda>_ l.
          (Ok (), l\<lparr>gl_query_cycle_started := None, gl_last_membership_refresh := Some now\<rparr>)))"

definition receive_step ::
  "('n, 'c, 'm, 'd, 'p, 't) gateway_io \<Rightarrow> duration \<Rightarrow> gateway_join list \<Rightarrow> instant \<Rightarrow> draw \<Rightarrow> socket_addr \<times> bytes \<times> ecn_codepoint
   \<Rightarrow> ('n, 'c, 's, 'd, 'p) gateway_loop \<Rightarrow> ('m, unit, ('n, 'c, 's, 'd, 'p) gateway_loop) loop_result" where
  "receive_step io configured joins now draw input l =
     (let (peer, datagram, outer_ecn) = input;
          (_, _, rnd) = draw;
          (r, g) = handle_datagram_with_ecn (gl_gateway l) peer datagram outer_ecn;
          l = l\<lparr>gl_gateway := g\<rparr>
      in case r of
           Ok (GwSend destination datagram) \<Rightarrow> lbind (tunnel_send_to io destination datagram l) (\<lambda>_ l.
             (Ok (), if is_awaiting_query (gl_gateway l)
                     then l\<lparr>gl_query_cycle_started := Some now, gl_relay_retry := retry_reset_after_send rnd now (gl_relay_retry l)\<rparr>
                     else l))
         | Ok (GwMembershipQuery _ limit _ _ interval previous_teardown) \<Rightarrow>
             receive_query io configured joins now draw limit interval previous_teardown l
         | Ok (GwMulticastData packet _) \<Rightarrow> publish io packet l
         | Ok (GwDroppedEcn _ _) \<Rightarrow> (Ok (), l)
         | Ok GwIgnored \<Rightarrow> (Ok (), l)
         | Err _ \<Rightarrow> (Ok (), l)
         | Panic \<Rightarrow> (Panic, l))"

type_synonym tunnel_input = "instant \<times> draw \<times> socket_addr \<times> bytes \<times> ecn_codepoint"

fun receive_all ::
  "('n, 'c, 'm, 'd, 'p, 't) gateway_io \<Rightarrow> duration \<Rightarrow> gateway_join list \<Rightarrow> tunnel_input list
   \<Rightarrow> ('n, 'c, 's, 'd, 'p) gateway_loop \<Rightarrow> ('m, unit, ('n, 'c, 's, 'd, 'p) gateway_loop) loop_result" where
  "receive_all io configured joins [] l = (Ok (), l)"
| "receive_all io configured joins ((now, draw, input) # inputs) l =
     lbind (receive_step io configured joins now draw input l) (\<lambda>_. receive_all io configured joins inputs)"

fun drain_local_membership ::
  "('n, 'c, 'm, 'd, 'p, 't) gateway_io \<Rightarrow> gateway_join list \<Rightarrow> instant \<Rightarrow> nat \<Rightarrow> ('n, 'c, 's, 'd, 'p) gateway_loop
   \<Rightarrow> ('m, nat, ('n, 'c, 's, 'd, 'p) gateway_loop) loop_result" where
  "drain_local_membership io joins now 0 l = (Ok 0, l)"
| "drain_local_membership io joins now (Suc n) l =
     (case gl_local l of
        None \<Rightarrow> (Ok 0, l)
      | Some m \<Rightarrow>
          let (r, m) = local_try_recv (io_recv_local io) now m; l = l\<lparr>gl_local := Some m\<rparr>
          in (case r of
                Ok (Some event) \<Rightarrow>
                  lbind (if gateway_response_mac (gl_gateway l) \<noteq> None then send_desired_membership io joins l else (Ok False, l)) (\<lambda>_ l.
                  lbind (drain_local_membership io joins now n l) (\<lambda>events l. (Ok (events + 1), l)))
              | Ok None \<Rightarrow> (Ok 0, l)
              | Err e \<Rightarrow> if is_parse_error e
                         then lbind (drain_local_membership io joins now n l) (\<lambda>events l. (Ok (events + 1), l))
                         else (Err (GlLocal e), l)
              | Panic \<Rightarrow> (Panic, l)))"

definition prune_local_step ::
  "('n, 'c, 'm, 'd, 'p, 't) gateway_io \<Rightarrow> gateway_join list \<Rightarrow> instant \<Rightarrow> ('n, 'c, 's, 'd, 'p) gateway_loop
   \<Rightarrow> ('m, unit, ('n, 'c, 's, 'd, 'p) gateway_loop) loop_result" where
  "prune_local_step io joins now l =
     (case gl_local l of
        None \<Rightarrow> (Ok (), l)
      | Some m \<Rightarrow>
          if LOCAL_REPORTER_PRUNE_INTERVAL \<le> now - gl_last_local_prune l then
            let (expired, m) = prune_stale_reporters_at now m; l = l\<lparr>gl_local := Some m\<rparr>
            in lbind (if expired \<noteq> 0 \<and> is_established (gl_gateway l) then send_desired_membership io joins l else (Ok False, l)) (\<lambda>_ l.
               (Ok (), l\<lparr>gl_last_local_prune := now\<rparr>))
          else (Ok (), l))"

text \<open>The timers of a pass: the query timeout, retries, the local query and the refresh.\<close>

definition gateway_timers ::
  "('n, 'c, 'm, 'd, 'p, 't) gateway_io \<Rightarrow> instant \<Rightarrow> draw \<Rightarrow> draw \<Rightarrow> draw \<Rightarrow> ('n, 'c, 's, 'd, 'p) gateway_loop
   \<Rightarrow> ('m, unit, ('n, 'c, 's, 'd, 'p) gateway_loop) loop_result" where
  "gateway_timers io now draw1 draw2 draw3 l =
     lbind (query_timeout_step io now draw1 l) (\<lambda>_ l.
     lbind (retry_step io now draw2 l) (\<lambda>_ l.
     lbind (local_query_step io now l) (\<lambda>_ l.
     refresh_step io now draw3 l)))"

text \<open>One pass of the loop.  At most 128 datagrams are taken from the tunnel socket
  (\<open>MAX_CONTROL_DRAIN\<close>); \<open>later\<close> is the time after the last of them.\<close>

definition gateway_pass ::
  "('n, 'c, 'm, 'd, 'p, 't) gateway_io \<Rightarrow> duration \<Rightarrow> gateway_join list \<Rightarrow> instant \<Rightarrow> draw \<Rightarrow> draw \<Rightarrow> draw \<Rightarrow> tunnel_input list \<Rightarrow> instant
   \<Rightarrow> ('n, 'c, 's, 'd, 'p) gateway_loop \<Rightarrow> ('m, unit, ('n, 'c, 's, 'd, 'p) gateway_loop) loop_result" where
  "gateway_pass io configured joins now draw1 draw2 draw3 inputs later l =
     lbind (gateway_timers io now draw1 draw2 draw3 l) (\<lambda>_ l.
     lbind (receive_all io configured joins (take 128 inputs) l) (\<lambda>_ l.
     lbind (drain_local_membership io joins later MAX_LOCAL_MEMBERSHIP_DRAIN l) (\<lambda>_ l.
     prune_local_step io joins later l)))"

definition gateway_loop_new ::
  "instant \<Rightarrow> duration \<Rightarrow> gateway \<Rightarrow> ('c, 's) local_membership_manager option \<Rightarrow> ('d, 'p) downstream_publisher option \<Rightarrow> 'n
   \<Rightarrow> ('n, 'c, 's, 'd, 'p) gateway_loop" where
  "gateway_loop_new now configured g local_manager downstream socket =
     \<lparr>gl_gateway = g, gl_local = local_manager, gl_downstream = downstream, gl_socket = socket, gl_sent = [],
      gl_relay_retry = retry_due_now now, gl_query_cycle_started = None, gl_last_local_query = None, gl_last_local_prune = now,
      gl_last_membership_refresh = None, gl_effective_refresh_interval = configured\<rparr>"

definition shutdown_gateway ::
  "('n, 'c, 'm, 'd, 'p, 't) gateway_io \<Rightarrow> ('n, 'c, 's, 'd, 'p) gateway_loop \<Rightarrow> ('m, unit, ('n, 'c, 's, 'd, 'p) gateway_loop) loop_result" where
  "shutdown_gateway io l =
     (case teardown (gl_gateway l) of
        Ok action \<Rightarrow> send_gateway_action io action l
      | Err e \<Rightarrow> (Ok (), l)
      | Panic \<Rightarrow> (Panic, l))"

section \<open>Runs of the loop\<close>

definition draw_ok :: "draw \<Rightarrow> bool" where
  "draw_ok draw \<longleftrightarrow> fst draw \<noteq> 0 \<and> fst (snd draw) \<noteq> 0"

definition inputs_ok :: "tunnel_input list \<Rightarrow> bool" where
  "inputs_ok inputs \<longleftrightarrow> (\<forall>input \<in> set inputs. draw_ok (fst (snd input)))"

text \<open>A run of passes that end without error, at times that do not decrease.\<close>

inductive gateway_run ::
  "('n, 'c, 'm, 'd, 'p, 't) gateway_io \<Rightarrow> duration \<Rightarrow> gateway_join list \<Rightarrow> instant \<Rightarrow> ('n, 'c, 's, 'd, 'p) gateway_loop
   \<Rightarrow> instant \<Rightarrow> ('n, 'c, 's, 'd, 'p) gateway_loop \<Rightarrow> bool" for io configured joins t0 l0 where
  start: "gateway_run io configured joins t0 l0 t0 l0"
| pass: "gateway_run io configured joins t0 l0 t l \<Longrightarrow> sorted (t # now # map fst inputs @ [later]) \<Longrightarrow>
    draw_ok draw1 \<Longrightarrow> draw_ok draw2 \<Longrightarrow> draw_ok draw3 \<Longrightarrow> inputs_ok inputs \<Longrightarrow>
    gateway_pass io configured joins now draw1 draw2 draw3 inputs later l = (Ok (), l') \<Longrightarrow>
    gateway_run io configured joins t0 l0 later l'"

text \<open>Some timer is armed: the refresh while established, the query timeout while not, or a retry that
  is due.\<close>

definition armed :: "instant \<Rightarrow> ('n, 'c, 's, 'd, 'p) gateway_loop \<Rightarrow> bool" where
  "armed t l \<longleftrightarrow>
     (case gw_phase (gl_gateway l) of
        Established \<Rightarrow> gl_query_cycle_started l = None \<and> (\<exists>s \<le> t. gl_last_membership_refresh l = Some s)
      | AwaitingMembershipQuery \<Rightarrow> \<exists>s \<le> t. gl_query_cycle_started l = Some s
      | Discovering \<Rightarrow> (\<exists>s \<le> t. gl_query_cycle_started l = Some s) \<or>
          gl_query_cycle_started l = None \<and> retry_is_due t (gl_relay_retry l))"

definition loop_inv :: "duration \<Rightarrow> instant \<Rightarrow> ('n, 'c, 's, 'd, 'p) gateway_loop \<Rightarrow> bool" where
  "loop_inv configured t l \<longleftrightarrow> gateway_inv (gl_gateway l) \<and> (\<forall>m. gl_local l = Some m \<longrightarrow> local_inv m) \<and>
     armed t l \<and> gl_effective_refresh_interval l \<le> configured"

definition base_inv :: "duration \<Rightarrow> ('n, 'c, 's, 'd, 'p) gateway_loop \<Rightarrow> bool" where
  "base_inv configured l \<longleftrightarrow> gateway_inv (gl_gateway l) \<and> (\<forall>m. gl_local l = Some m \<longrightarrow> local_inv m) \<and>
     gl_effective_refresh_interval l \<le> configured"

text \<open>All that the timers depend on.\<close>

definition timing :: "('n, 'c, 's, 'd, 'p) gateway_loop \<Rightarrow> gateway_phase \<times> instant option \<times> instant option \<times> gateway_retry" where
  "timing l = (gw_phase (gl_gateway l), gl_query_cycle_started l, gl_last_membership_refresh l, gl_relay_retry l)"

lemma loop_inv_base: "loop_inv configured t l \<longleftrightarrow> base_inv configured l \<and> armed t l"
  by (auto simp: loop_inv_def base_inv_def)

lemma armed_cong: "timing l = timing l' \<Longrightarrow> armed t l = armed t l'"
  unfolding armed_def timing_def by (cases "gw_phase (gl_gateway l')") simp_all

lemma armed_later: "armed t l \<Longrightarrow> t \<le> now \<Longrightarrow> armed now l"
  by (auto simp: armed_def retry_is_due_def split: gateway_phase.splits intro: order_trans)

text \<open>A property of the state after a step that ends without error.\<close>

definition okay :: "('l \<Rightarrow> bool) \<Rightarrow> ('m, 'a, 'l) loop_result \<Rightarrow> bool" where
  "okay Q m \<longleftrightarrow> (\<forall>a l. m = (Ok a, l) \<longrightarrow> Q l)"

lemma okay_simps [simp]: "okay Q (Ok a, l) = Q l" "okay Q (Err e, l)" "okay Q (Panic, l)"
  by (auto simp: okay_def)

lemma okay_lbind:
  assumes "okay P m" "\<And>a l. P l \<Longrightarrow> okay Q (f a l)"
  shows "okay Q (lbind m f)"
  using assms by (auto simp: okay_def lbind_def split: prod.splits res.splits)

lemma okay_mono: "okay P m \<Longrightarrow> (\<And>l. P l \<Longrightarrow> Q l) \<Longrightarrow> okay Q m"
  by (auto simp: okay_def)

lemma okay_send: "(\<And>s x. Q (l\<lparr>gl_socket := s, gl_sent := x\<rparr>)) \<Longrightarrow> okay Q (tunnel_send_to io d b l)"
  by (auto simp: okay_def tunnel_send_to_def Let_def split: prod.splits if_splits)

lemma okay_action:
  assumes "\<And>s x. Q (l\<lparr>gl_socket := s, gl_sent := x\<rparr>)" "Q l"
  shows "okay Q (send_gateway_action io action l)"
proof (cases action)
  case (GwSend d b)
  then show ?thesis using okay_send[of Q l io d b, OF assms(1)] by (simp add: send_gateway_action_def)
qed (use assms(2) in \<open>simp_all add: send_gateway_action_def\<close>)

lemma local_inv_advertised: "local_inv m \<Longrightarrow> local_inv (mark_advertised m)"
  using exportable_current[of m] by (simp add: local_inv_def mark_advertised_def)

lemma replace_keeps_phase: "gw_phase (snd (replace_memberships rp g)) = gw_phase g"
proof -
  have "gw_phase (snd (membership_update rp' g)) = gw_phase g" for rp'
    by (cases rule: membership_update_snd[of rp' g]) simp_all
  then show ?thesis using replace_memberships_snd[of rp g] by metis
qed

lemma okay_send_desired:
  assumes "base_inv configured l"
  shows "okay (\<lambda>l'. base_inv configured l' \<and> timing l' = timing l) (send_desired_membership io joins l)"
proof -
  let ?rp = "desired_membership_report (gc_protocol (gw_config (gl_gateway l))) joins (gl_local l)"
  obtain r g where rg: "replace_memberships ?rp (gl_gateway l) = (r, g)" by fastforce
  have g: "gateway_inv g" "gw_phase g = gw_phase (gl_gateway l)"
    using gateway_inv_step[OF gateway_step.replace[of "gl_gateway l" ?rp]] replace_keeps_phase[of ?rp "gl_gateway l"] rg assms
    by (simp_all add: base_inv_def)
  have send: "okay (\<lambda>l'. base_inv configured l' \<and> timing l' = timing l)
      (lbind (send_gateway_action io action (l\<lparr>gl_gateway := g\<rparr>)) (\<lambda>_ l. (Ok True, l\<lparr>gl_local := map_option mark_advertised (gl_local l)\<rparr>)))"
    for action
    by (rule okay_lbind[where P = "\<lambda>l'. base_inv configured l' \<and> timing l' = timing l"], rule okay_action)
       (use assms g in \<open>auto simp: base_inv_def timing_def local_inv_advertised\<close>)
  have none: "base_inv configured (l\<lparr>gl_gateway := g\<rparr>) \<and> timing (l\<lparr>gl_gateway := g\<rparr>) = timing l"
    using assms g by (simp add: base_inv_def timing_def)
  show ?thesis
    using send none by (simp add: send_desired_membership_def Let_def rg split: res.split option.split)
qed

lemma okay_rediscover:
  assumes "base_inv configured l" "draw_ok draw"
  shows "okay (\<lambda>l'. base_inv configured l' \<and> gw_phase (gl_gateway l') = Discovering \<and> gl_query_cycle_started l' = Some now)
    (rediscover io now draw l)"
proof -
  obtain f1 f2 rnd where d: "draw = (f1, f2, rnd)" by (cases draw)
  obtain action g where g: "restart_discovery f1 f2 (gl_gateway l) = (action, g)" by fastforce
  have "gateway_inv g" "gw_phase g = Discovering"
    using gateway_inv_restart[of f1 f2 "gl_gateway l"] assms g d
    by (simp_all add: base_inv_def draw_ok_def) (auto simp: restart_discovery_def Let_def)
  then have "base_inv configured (l\<lparr>gl_gateway := g\<rparr>) \<and> gw_phase (gl_gateway (l\<lparr>gl_gateway := g\<rparr>)) = Discovering"
    using assms(1) by (simp add: base_inv_def)
  then show ?thesis
    unfolding rediscover_def d Let_def g prod.case
    by (intro okay_lbind[where P = "\<lambda>l'. base_inv configured l' \<and> gw_phase (gl_gateway l') = Discovering"] okay_action)
       (auto simp: base_inv_def)
qed

lemma armed_discovering: "gw_phase (gl_gateway l) = Discovering \<Longrightarrow> gl_query_cycle_started l = Some now \<Longrightarrow> armed now l"
  by (simp add: armed_def)

lemma okay_timeout:
  assumes "loop_inv configured t l" "draw_ok draw" "t \<le> now"
  shows "okay (loop_inv configured now) (query_timeout_step io now draw l)"
proof -
  have l: "base_inv configured l" "armed now l" using assms(1,3) armed_later by (auto simp: loop_inv_base)
  have "okay (loop_inv configured now) (rediscover io now draw l)"
    by (rule okay_mono[OF okay_rediscover[OF l(1) assms(2), of now io]]) (simp add: loop_inv_base armed_discovering)
  then show ?thesis using l by (simp add: query_timeout_step_def loop_inv_base split: option.split)
qed

lemma loop_inv_fields [simp]:
  fixes l :: "('n, 'c, 's, 'd, 'p) gateway_loop"
  shows
  "loop_inv configured t (l\<lparr>gl_socket := s\<rparr>) = loop_inv configured t l" "loop_inv configured t (l\<lparr>gl_sent := x\<rparr>) = loop_inv configured t l"
  "loop_inv configured t (l\<lparr>gl_downstream := d\<rparr>) = loop_inv configured t l"
  "loop_inv configured t (l\<lparr>gl_last_local_query := q\<rparr>) = loop_inv configured t l"
  "loop_inv configured t (l\<lparr>gl_last_local_prune := p\<rparr>) = loop_inv configured t l"
proof -
  have "armed t (l\<lparr>gl_socket := s\<rparr>) = armed t l" "armed t (l\<lparr>gl_sent := x\<rparr>) = armed t l" "armed t (l\<lparr>gl_downstream := d\<rparr>) = armed t l"
    "armed t (l\<lparr>gl_last_local_query := q\<rparr>) = armed t l" "armed t (l\<lparr>gl_last_local_prune := p\<rparr>) = armed t l"
    by (rule armed_cong, simp add: timing_def)+
  then show "loop_inv configured t (l\<lparr>gl_socket := s\<rparr>) = loop_inv configured t l" "loop_inv configured t (l\<lparr>gl_sent := x\<rparr>) = loop_inv configured t l"
    "loop_inv configured t (l\<lparr>gl_downstream := d\<rparr>) = loop_inv configured t l"
    "loop_inv configured t (l\<lparr>gl_last_local_query := q\<rparr>) = loop_inv configured t l"
    "loop_inv configured t (l\<lparr>gl_last_local_prune := p\<rparr>) = loop_inv configured t l"
    by (simp_all add: loop_inv_base base_inv_def)
qed

lemma okay_retry:
  assumes "loop_inv configured now l"
  shows "okay (loop_inv configured now) (retry_step io now draw l)"
proof -
  obtain f1 f2 rnd where d: "draw = (f1, f2, rnd)" by (cases draw)
  have relay: "gw_phase (gl_gateway l) = Discovering \<longleftrightarrow> gw_relay_endpoint (gl_gateway l) = None"
    using assms by (cases "gw_phase (gl_gateway l)") (auto simp: loop_inv_def gateway_inv_def phase_inv_def)
  let ?P = "\<lambda>l'. loop_inv configured now l' \<and> gw_phase (gl_gateway l') = gw_phase (gl_gateway l)"
  have send: "okay ?P (send_gateway_action io action l)" for action
    by (rule okay_action) (use assms in simp_all)
  have first: "okay (loop_inv configured now) (lbind (send_gateway_action io action l) (\<lambda>_ l.
        (Ok (), l\<lparr>gl_query_cycle_started := (case gl_query_cycle_started l of Some t \<Rightarrow> Some t | None \<Rightarrow> Some now),
                  gl_relay_retry := retry_after_send rnd now (gl_relay_retry l)\<rparr>)))"
    if "gw_phase (gl_gateway l) = Discovering" for action
    by (rule okay_lbind[OF send]) (auto simp: loop_inv_def armed_def that split: option.split)
  have again: "okay (loop_inv configured now) (lbind (send_gateway_action io action l) (\<lambda>_ l.
        (Ok (), l\<lparr>gl_relay_retry := retry_after_send rnd now (gl_relay_retry l)\<rparr>)))"
    if "gw_phase (gl_gateway l) = AwaitingMembershipQuery" for action
    by (rule okay_lbind[OF send]) (auto simp: loop_inv_def armed_def that)
  show ?thesis
    using assms first again relay
    by (simp add: retry_step_def d is_awaiting_query_def split: res.split)
qed

lemma okay_publish: "loop_inv configured now l \<Longrightarrow> okay (loop_inv configured now) (publish io packet l)"
  by (auto simp: publish_def case_prod_unfold Let_def split: option.split)

lemma okay_local_query:
  assumes "loop_inv configured now l"
  shows "okay (loop_inv configured now) (local_query_step io now l)"
proof -
  have "okay (loop_inv configured now) (lbind (publish io q l) (\<lambda>_ l. (Ok (), l\<lparr>gl_last_local_query := Some now\<rparr>)))" for q
    by (rule okay_lbind[OF okay_publish[OF assms]]) simp
  then show ?thesis using assms by (simp add: local_query_step_def split: option.split)
qed

lemma okay_refresh:
  assumes "loop_inv configured now l" "draw_ok draw"
  shows "okay (loop_inv configured now) (refresh_step io now draw l)"
proof -
  obtain f1 f2 rnd where d: "draw = (f1, f2, rnd)" by (cases draw)
  obtain r g where b: "begin_query_cycle f1 (gl_gateway l) = (r, g)" by fastforce
  have g: "gateway_inv g" using gateway_inv_query_cycle[of f1 "gl_gateway l"] assms b d by (simp add: loop_inv_def draw_ok_def)
  have p: "gw_phase g = AwaitingMembershipQuery" if "r = Ok action" for action
    using b that by (auto simp: begin_query_cycle_def Let_def split: if_splits)
  have "okay (loop_inv configured now) (lbind (send_gateway_action io action (l\<lparr>gl_gateway := g\<rparr>)) (\<lambda>_ l.
      (Ok (), l\<lparr>gl_query_cycle_started := Some now, gl_relay_retry := retry_reset_after_send rnd now (gl_relay_retry l)\<rparr>)))"
    if "r = Ok action" for action
    by (rule okay_lbind[where P = "\<lambda>l'. base_inv configured l' \<and> gl_gateway l' = g"], rule okay_action)
       (use assms(1) g p[OF that] in \<open>auto simp: loop_inv_def base_inv_def armed_def\<close>)
  then show ?thesis using assms(1) by (simp add: refresh_step_def d b Let_def split: res.split)
qed

lemma okay_timers:
  assumes "loop_inv configured t l" "t \<le> now" "draw_ok draw1" "draw_ok draw2" "draw_ok draw3"
  shows "okay (loop_inv configured now) (gateway_timers io now draw1 draw2 draw3 l)"
  unfolding gateway_timers_def
  by (intro okay_lbind[OF okay_timeout[OF assms(1,3,2)]] okay_lbind[OF okay_retry] okay_lbind[OF okay_local_query] okay_refresh assms)

lemma handle_phase:
  "case fst (handle_datagram_with_ecn g peer d outer) of
     Ok (GwSend _ _) \<Rightarrow> gw_phase (snd (handle_datagram_with_ecn g peer d outer)) = AwaitingMembershipQuery
   | Ok (GwMembershipQuery _ _ _ _ _ _) \<Rightarrow> gw_phase (snd (handle_datagram_with_ecn g peer d outer)) = Established
   | _ \<Rightarrow> gw_phase (snd (handle_datagram_with_ecn g peer d outer)) = gw_phase g"
proof -
  have data: "(\<exists>p e. handle_multicast_data g outer packet = Ok (GwMulticastData p e)) \<or> (\<exists>e n. handle_multicast_data g outer packet = Ok (GwDroppedEcn e n)) \<or>
      handle_multicast_data g outer packet = Ok GwIgnored \<or> (\<exists>e. handle_multicast_data g outer packet = Err e) \<or> handle_multicast_data g outer packet = Panic" for packet
    by (cases "parse_multicast_packet packet"; cases "decapsulate_ecn packet outer")
       (auto simp: handle_multicast_data_def Let_def split: option.splits if_splits)
  show ?thesis
  proof (cases "decode d")
    case (Ok m)
    show ?thesis
    proof (cases m)
      case (MulticastData packet)
      then show ?thesis using data[of packet] Ok by (auto simp: handle_datagram_with_ecn_def Let_def)
    qed (auto simp: Ok handle_datagram_with_ecn_def Let_def handle_advertisement_def handle_query_def split: res.splits)
  qed (simp_all add: handle_datagram_with_ecn_def Let_def)
qed

lemma okay_receive_query:
  assumes "base_inv configured l" "gw_phase (gl_gateway l) = Established" "draw_ok draw"
  shows "okay (loop_inv configured now) (receive_query io configured joins now draw limit interval prev l)"
proof -
  let ?P = "\<lambda>l. base_inv configured l \<and> gw_phase (gl_gateway l) = Established"
  have first: "okay ?P (case prev of Some t \<Rightarrow> tunnel_send_to io (gsend_destination t) (gsend_datagram t) l | None \<Rightarrow> (Ok (), l))"
    using assms(1,2) by (auto simp: base_inv_def intro!: okay_send split: option.split)
  have again: "okay (loop_inv configured now) (lbind (rediscover io now draw l) (\<lambda>_ l. (Ok (), l\<lparr>gl_last_membership_refresh := None\<rparr>)))"
    if "?P l" for l :: "('a, 'b, 'c, 'd, 'e) gateway_loop"
    by (rule okay_lbind[OF okay_rediscover[OF conjunct1[OF that] assms(3)]]) (simp add: loop_inv_base base_inv_def armed_def)
  have update: "okay (loop_inv configured now) (lbind (send_desired_membership io joins
        (l\<lparr>gl_effective_refresh_interval := effective_refresh_interval_for configured interval\<rparr>)) (\<lambda>_ l.
          (Ok (), l\<lparr>gl_query_cycle_started := None, gl_last_membership_refresh := Some now\<rparr>)))"
    if "?P l" for l :: "('a, 'b, 'c, 'd, 'e) gateway_loop"
  proof -
    have b: "base_inv configured (l\<lparr>gl_effective_refresh_interval := effective_refresh_interval_for configured interval\<rparr>)"
      using that by (simp add: base_inv_def effective_refresh_interval_for_def)
    show ?thesis
      by (rule okay_lbind[OF okay_send_desired[OF b]]) (use that in \<open>simp add: loop_inv_base base_inv_def armed_def timing_def\<close>)
  qed
  show ?thesis
    unfolding receive_query_def by (rule okay_lbind[OF first]) (simp add: again update)
qed

lemma okay_receive:
  assumes "loop_inv configured t l" "t \<le> now" "draw_ok draw"
  shows "okay (loop_inv configured now) (receive_step io configured joins now draw input l)"
proof -
  obtain peer dg ecn where i: "input = (peer, dg, ecn)" by (cases input)
  obtain f1 f2 rnd where d: "draw = (f1, f2, rnd)" by (cases draw)
  obtain r g where h: "handle_datagram_with_ecn (gl_gateway l) peer dg ecn = (r, g)" by fastforce
  define l1 where "l1 = l\<lparr>gl_gateway := g\<rparr>"
  have inv: "base_inv configured l1" "armed now l"
    using gateway_inv_datagram[of "gl_gateway l" peer dg ecn] assms armed_later h by (auto simp: loop_inv_base base_inv_def l1_def)
  note ph = handle_phase[of "gl_gateway l" peer dg ecn, unfolded h fst_conv snd_conv]
  have same: "loop_inv configured now l1" if "gw_phase g = gw_phase (gl_gateway l)"
    using inv that armed_cong[of l1 l now] by (simp add: loop_inv_base timing_def l1_def)
  have step: "receive_step io configured joins now draw input l =
      (case r of
           Ok (GwSend destination datagram) \<Rightarrow> lbind (tunnel_send_to io destination datagram l1) (\<lambda>_ l.
             (Ok (), if is_awaiting_query (gl_gateway l)
                     then l\<lparr>gl_query_cycle_started := Some now, gl_relay_retry := retry_reset_after_send rnd now (gl_relay_retry l)\<rparr>
                     else l))
         | Ok (GwMembershipQuery _ limit _ _ interval previous_teardown) \<Rightarrow>
             receive_query io configured joins now draw limit interval previous_teardown l1
         | Ok (GwMulticastData packet _) \<Rightarrow> publish io packet l1
         | Ok (GwDroppedEcn _ _) \<Rightarrow> (Ok (), l1)
         | Ok GwIgnored \<Rightarrow> (Ok (), l1)
         | Err _ \<Rightarrow> (Ok (), l1)
         | Panic \<Rightarrow> (Panic, l1))"
    unfolding receive_step_def i d h l1_def Let_def prod.case by (rule refl)
  show ?thesis
  proof (cases r)
    case (Ok action)
    show ?thesis
    proof (cases action)
      case (GwSend dest b)
      then have p: "gw_phase g = AwaitingMembershipQuery" using ph Ok by simp
      have s: "okay (\<lambda>l'. base_inv configured l' \<and> gl_gateway l' = g) (tunnel_send_to io dest b l1)"
        by (rule okay_send) (use inv(1) in \<open>simp add: base_inv_def l1_def\<close>)
      show ?thesis
        unfolding step Ok GwSend res.case gateway_action.case
        by (rule okay_lbind[OF s]) (use p in \<open>auto simp: loop_inv_base base_inv_def armed_def is_awaiting_query_def\<close>)
    next
      case (GwMembershipQuery mac limit gw q interval prev)
      then have "gw_phase (gl_gateway l1) = Established" using ph Ok by (simp add: l1_def)
      then show ?thesis unfolding step using Ok GwMembershipQuery okay_receive_query[OF inv(1) _ assms(3)] by simp
    qed (use ph Ok same okay_publish in \<open>simp_all add: step\<close>)
  qed (use ph same in \<open>simp_all add: step\<close>)
qed

lemma okay_receive_all:
  assumes "loop_inv configured t l" "sorted (t # map fst inputs @ [later])" "inputs_ok inputs"
  shows "okay (loop_inv configured later) (receive_all io configured joins (take n inputs) l)"
  using assms
proof (induction inputs arbitrary: t l n)
  case Nil
  then show ?case using armed_later[of t l later] by (simp add: loop_inv_base)
next
  case (Cons input inputs)
  obtain now draw i where x: "input = (now, draw, i)" by (cases input)
  have s: "t \<le> now" "sorted (now # map fst inputs @ [later])" "draw_ok draw" "inputs_ok inputs" "t \<le> later"
    using Cons.prems(2,3) by (auto simp: x inputs_ok_def sorted_append)
  show ?case
  proof (cases n)
    case 0
    then show ?thesis using Cons.prems(1) s(5) armed_later[of t l later] by (simp add: loop_inv_base)
  next
    case (Suc k)
    have "okay (loop_inv configured later) (lbind (receive_step io configured joins now draw i l) (\<lambda>_. receive_all io configured joins (take k inputs)))"
      by (rule okay_lbind[OF okay_receive[OF Cons.prems(1) s(1,3)]]) (rule Cons.IH[OF _ s(2,4)])
    then show ?thesis by (simp add: Suc x)
  qed
qed

lemma loop_inv_local:
  assumes "loop_inv configured t l" "local_inv m"
  shows "loop_inv configured t (l\<lparr>gl_local := Some m\<rparr>)"
proof -
  have "armed t (l\<lparr>gl_local := Some m\<rparr>) = armed t l" by (rule armed_cong) (simp add: timing_def)
  then show ?thesis using assms by (simp add: loop_inv_def)
qed

lemma okay_desired_loop:
  assumes "loop_inv configured now l"
  shows "okay (loop_inv configured now) (if c then send_desired_membership io joins l else (Ok False, l))"
proof -
  have "okay (loop_inv configured now) (send_desired_membership io joins l)"
    by (rule okay_mono[OF okay_send_desired]) (use assms armed_cong in \<open>auto simp: loop_inv_base\<close>)
  then show ?thesis using assms by simp
qed

lemma okay_drain_local:
  fixes l :: "('n, 'c, 's, 'd, 'p) gateway_loop"
  shows "loop_inv configured now l \<Longrightarrow> okay (loop_inv configured now) (drain_local_membership io joins now n l)"
proof (induction n arbitrary: l)
  case (Suc n)
  have rec: "okay (loop_inv configured now) (lbind (drain_local_membership io joins now n l) (\<lambda>events l. (Ok (events + 1), l)))"
    if "loop_inv configured now l" for l :: "('n, 'c, 's, 'd, 'p) gateway_loop"
    by (rule okay_lbind[OF Suc.IH[OF that]]) simp
  show ?case
  proof (cases "gl_local l")
    case (Some m)
    obtain r m' where m: "local_try_recv (io_recv_local io) now m = (r, m')" by fastforce
    have "local_inv m'" using local_inv_try_recv_loop[of m "io_recv_local io" now MAX_IRRELEVANT_PACKET_SKIP] Suc.prems Some m
      by (simp add: loop_inv_def local_try_recv_def)
    then have inv: "loop_inv configured now (l\<lparr>gl_local := Some m'\<rparr>)" by (rule loop_inv_local[OF Suc.prems])
    have "okay (loop_inv configured now) (lbind (if c then send_desired_membership io joins (l\<lparr>gl_local := Some m'\<rparr>) else (Ok False, l\<lparr>gl_local := Some m'\<rparr>)) (\<lambda>_ l.
        lbind (drain_local_membership io joins now n l) (\<lambda>events l. (Ok (events + 1), l))))" for c
      by (rule okay_lbind[OF okay_desired_loop[OF inv]]) (rule rec)
    from this[of True] this[of False] show ?thesis using inv rec[OF inv] by (simp add: Some m Let_def split: res.split option.split)
  qed (use Suc.prems in simp)
qed simp

lemma okay_prune_local:
  assumes "loop_inv configured now l"
  shows "okay (loop_inv configured now) (prune_local_step io joins now l)"
proof (cases "gl_local l")
  case (Some m)
  obtain n m' where m: "prune_stale_reporters_at now m = (n, m')" by fastforce
  have "local_inv m" using assms Some by (simp add: loop_inv_def)
  then have "local_inv m'" using m prune_fold(1)[of m] by (auto simp: prune_stale_reporters_at_def Let_def split: if_splits)
  from loop_inv_local[OF assms this]
  have "okay (loop_inv configured now) (lbind (if c then send_desired_membership io joins (l\<lparr>gl_local := Some m'\<rparr>) else (Ok False, l\<lparr>gl_local := Some m'\<rparr>)) (\<lambda>_ l.
      (Ok (), l\<lparr>gl_last_local_prune := now\<rparr>)))" for c
    by (intro okay_lbind[OF okay_desired_loop]) simp_all
  then show ?thesis using assms by (simp add: prune_local_step_def Some m Let_def)
qed (use assms in \<open>simp add: prune_local_step_def\<close>)

lemma okay_pass:
  assumes "loop_inv configured t l" "sorted (t # now # map fst inputs @ [later])"
    "draw_ok draw1" "draw_ok draw2" "draw_ok draw3" "inputs_ok inputs"
  shows "okay (loop_inv configured later) (gateway_pass io configured joins now draw1 draw2 draw3 inputs later l)"
proof -
  have s: "t \<le> now" "sorted (now # map fst inputs @ [later])" using assms(2) by simp_all
  show ?thesis
    unfolding gateway_pass_def
    by (intro okay_lbind[OF okay_timers[OF assms(1) s(1) assms(3-5)]] okay_lbind[OF okay_receive_all[OF _ s(2) assms(6)]]
        okay_lbind[OF okay_drain_local] okay_prune_local)
qed

lemma gateway_run_inv:
  assumes "gateway_run io configured joins t0 l0 t l" "loop_inv configured t0 l0"
  shows "loop_inv configured t l"
  using assms
proof (induction rule: gateway_run.induct)
  case (pass t l now inputs later draw1 draw2 draw3 l')
  from okay_pass[OF pass.IH[OF pass.prems] pass.hyps(2-6), of io joins] pass.hyps(7) show ?case by (simp add: okay_def)
qed

lemma loop_inv_new:
  assumes "gateway_reachable g" "gw_phase g = Discovering" "\<And>m. local_manager = Some m \<Longrightarrow> local_inv m"
  shows "loop_inv configured t (gateway_loop_new t configured g local_manager downstream socket)"
  using assms gateway_reachable_inv[of g]
  by (simp add: loop_inv_def gateway_loop_new_def armed_def retry_due_now_def retry_is_due_def)

section \<open>Sends of the timers\<close>

definition grown :: "('n, 'c, 's, 'd, 'p) gateway_loop \<Rightarrow> ('n, 'c, 's, 'd, 'p) gateway_loop \<Rightarrow> bool" where
  "grown l l' \<longleftrightarrow> (\<exists>xs. gl_sent l' = gl_sent l @ xs)"

lemma grown_trans: "grown l l' \<Longrightarrow> grown l' l'' \<Longrightarrow> grown l l''"
  by (auto simp: grown_def)

lemma grown_set: "grown l l' \<Longrightarrow> x \<in> set (gl_sent l) \<Longrightarrow> x \<in> set (gl_sent l')"
  by (auto simp: grown_def)

lemma sent_tunnel: "tunnel_send_to io d b l = (Ok a, l') \<Longrightarrow> gl_sent l' = gl_sent l @ [(d, b)] \<and> gl_gateway l' = gl_gateway l"
  by (auto simp: tunnel_send_to_def Let_def split: prod.splits if_splits)

lemma lbind_Ok: "lbind m f = (Ok b, l') \<longleftrightarrow> (\<exists>a l. m = (Ok a, l) \<and> f a l = (Ok b, l'))"
  by (auto simp: lbind_def split: prod.splits res.splits)

lemma sent_action: "send_gateway_action io (GwSend d b) l = (Ok a, l') \<Longrightarrow> gl_sent l' = gl_sent l @ [(d, b)] \<and> gl_gateway l' = gl_gateway l"
  using sent_tunnel[of io d b l a l'] by (simp add: send_gateway_action_def)


lemma grown_refl [simp]: "grown l l"
  by (simp add: grown_def)

lemma grown_action: "send_gateway_action io action l = (Ok a, l') \<Longrightarrow> grown l l' \<and> gl_gateway l' = gl_gateway l"
  by (cases action) (auto simp: grown_def send_gateway_action_def dest: sent_tunnel)

lemma grown_retry: "retry_step io now draw l = (Ok a, l') \<Longrightarrow> grown l l'"
  by (auto simp: retry_step_def lbind_Ok split: prod.splits if_splits res.splits dest!: grown_action) (auto simp: grown_def)

lemma grown_local_query: "local_query_step io now l = (Ok a, l') \<Longrightarrow> gl_sent l' = gl_sent l \<and> gl_gateway l' = gl_gateway l \<and>
    gl_last_membership_refresh l' = gl_last_membership_refresh l \<and> gl_effective_refresh_interval l' = gl_effective_refresh_interval l"
  by (auto simp: local_query_step_def publish_def lbind_Ok Let_def split: option.splits prod.splits if_splits)

lemma grown_refresh: "refresh_step io now draw l = (Ok a, l') \<Longrightarrow> grown l l'"
  by (auto simp: refresh_step_def lbind_Ok Let_def split: prod.splits if_splits res.splits dest!: grown_action) (auto simp: grown_def)

lemma rediscover_sends:
  assumes "rediscover io now draw l = (Ok a, l')"
  shows "grown l l' \<and> (\<exists>relay \<in> set (gc_relay (gw_config (gl_gateway l)) # gc_fallback_relays (gw_config (gl_gateway l))).
    (relay, encode (RelayDiscovery (fst draw))) \<in> set (gl_sent l'))"
proof -
  obtain f1 f2 rnd where d: "draw = (f1, f2, rnd)" by (cases draw)
  let ?g = "gl_gateway l" and ?g' = "snd (restart_discovery f1 f2 (gl_gateway l))"
  have act: "fst (restart_discovery f1 f2 ?g) = GwSend (gc_relay (gw_config ?g')) (encode (RelayDiscovery f1))"
    by (simp add: restart_discovery_def discovery_def Let_def)
  have rel: "gc_relay (gw_config ?g') \<in> set (gc_relay (gw_config ?g) # gc_fallback_relays (gw_config ?g))"
    by (cases "gc_fallback_relays (gw_config ?g)") (simp_all add: restart_discovery_def rotate_relay_def Let_def)
  from assms obtain a' l1 where s: "send_gateway_action io (fst (restart_discovery f1 f2 ?g)) (l\<lparr>gl_gateway := ?g'\<rparr>) = (Ok a', l1)"
    "gl_sent l' = gl_sent l1"
    by (auto simp: rediscover_def d lbind_Ok case_prod_unfold Let_def)
  with sent_action[OF s(1)[unfolded act]] rel show ?thesis by (auto simp: grown_def d)
qed

lemma timers_not_established:
  assumes inv: "loop_inv configured t l" and t: "t + GATEWAY_QUERY_TIMEOUT \<le> now" and p: "gw_phase (gl_gateway l) \<noteq> Established"
    and ok: "gateway_timers io now draw1 draw2 draw3 l = (Ok (), l')" and d: "draw_ok draw1"
  shows "\<exists>relay \<in> set (gc_relay (gw_config (gl_gateway l)) # gc_fallback_relays (gw_config (gl_gateway l))). \<exists>nonce.
    nonce \<noteq> 0 \<and> (relay, encode (RelayDiscovery nonce)) \<in> set (gl_sent l')"
proof -
  from ok obtain l1 l2 l3 where s: "query_timeout_step io now draw1 l = (Ok (), l1)" "retry_step io now draw2 l1 = (Ok (), l2)"
    "local_query_step io now l2 = (Ok (), l3)" "refresh_step io now draw3 l3 = (Ok (), l')"
    by (auto simp: gateway_timers_def lbind_Ok)
  have g: "grown l2 l'" using grown_local_query[OF s(3)] grown_refresh[OF s(4)] by (auto simp: grown_def)
  have f: "fst draw1 \<noteq> 0" using d by (simp add: draw_ok_def)
  show ?thesis
  proof (cases "gl_query_cycle_started l")
    case (Some started)
    then have "started \<le> t" using inv p by (auto simp: loop_inv_def armed_def split: gateway_phase.splits)
    then have "GATEWAY_QUERY_TIMEOUT \<le> now - started" using t by linarith
    then have "rediscover io now draw1 l = (Ok (), l1)" using s(1) Some by (simp add: query_timeout_step_def)
    from rediscover_sends[OF this] grown_set[OF grown_trans[OF grown_retry[OF s(2)] g]] f show ?thesis by blast
  next
    case None
    then have p: "gw_phase (gl_gateway l) = Discovering" "retry_is_due t (gl_relay_retry l)"
      using inv p by (auto simp: loop_inv_def armed_def split: gateway_phase.splits)
    have l1: "l1 = l" using s(1) None by (simp add: query_timeout_step_def)
    have "gw_relay_endpoint (gl_gateway l) = None" "gc_discovery_nonce (gw_config (gl_gateway l)) \<noteq> 0"
      using inv p(1) by (simp_all add: loop_inv_def gateway_inv_def phase_inv_def)
    moreover have "retry_is_due now (gl_relay_retry l)" using p(2) t by (simp add: retry_is_due_def)
    ultimately obtain a l4 where "send_gateway_action io (discovery (gl_gateway l)) l = (Ok a, l4)" "gl_sent l2 = gl_sent l4"
      using s(2) by (auto simp: retry_step_def l1 lbind_Ok split: prod.splits)
    then have "(gc_relay (gw_config (gl_gateway l)), encode (RelayDiscovery (gc_discovery_nonce (gw_config (gl_gateway l))))) \<in> set (gl_sent l2)"
      using sent_action[of io _ _ l a l4] by (simp add: discovery_def)
    with grown_set[OF g] \<open>gc_discovery_nonce _ \<noteq> 0\<close> show ?thesis by auto
  qed
qed

lemma timers_established:
  assumes inv: "loop_inv configured t l" and t: "t + configured \<le> now" and p: "gw_phase (gl_gateway l) = Established"
    and ok: "gateway_timers io now draw1 draw2 draw3 l = (Ok (), l')" and d: "draw_ok draw3"
  shows "\<exists>relay nonce. gw_relay_endpoint (gl_gateway l) = Some relay \<and> nonce \<noteq> 0 \<and>
    (relay, encode (Request nonce (gc_protocol (gw_config (gl_gateway l))) (gc_ecn (gw_config (gl_gateway l))))) \<in> set (gl_sent l')"
proof -
  from ok obtain l1 l2 l3 where s: "query_timeout_step io now draw1 l = (Ok (), l1)" "retry_step io now draw2 l1 = (Ok (), l2)"
    "local_query_step io now l2 = (Ok (), l3)" "refresh_step io now draw3 l3 = (Ok (), l')"
    by (auto simp: gateway_timers_def lbind_Ok)
  obtain relay session where r: "gw_relay_endpoint (gl_gateway l) = Some relay" "gw_session (gl_gateway l) = Some session"
    using inv p by (auto simp: loop_inv_def gateway_inv_def phase_inv_def)
  obtain refreshed where m: "gl_query_cycle_started l = None" "gl_last_membership_refresh l = Some refreshed" "refreshed \<le> t"
    using inv p by (auto simp: loop_inv_def armed_def)
  have l1: "l1 = l" using s(1) m(1) by (simp add: query_timeout_step_def)
  have l2: "l2 = l" using s(2) p r by (auto simp: l1 retry_step_def is_awaiting_query_def split: prod.splits)
  note l3 = grown_local_query[OF s(3), unfolded l2]
  have due: "gl_effective_refresh_interval l3 \<le> now - refreshed" 
  proof -
    have "gl_effective_refresh_interval l3 \<le> configured" using inv l3 by (simp add: loop_inv_def)
    then show ?thesis using t m(3) by linarith
  qed
  obtain f1 f2 rnd where dr: "draw3 = (f1, f2, rnd)" by (cases draw3)
  let ?g = "(gl_gateway l)\<lparr>gw_config := (gw_config (gl_gateway l))\<lparr>gc_request_nonce := f1\<rparr>, gw_phase := AwaitingMembershipQuery\<rparr>"
  have b: "begin_query_cycle f1 (gl_gateway l) = (Ok (GwSend relay (encode (Request f1 (gc_protocol (gw_config (gl_gateway l))) (gc_ecn (gw_config (gl_gateway l)))))), ?g)"
    by (simp add: begin_query_cycle_def gateway_request_def request_message_def r(1) Let_def)
  from s(4) obtain a l4 where "send_gateway_action io (GwSend relay (encode (Request f1 (gc_protocol (gw_config (gl_gateway l))) (gc_ecn (gw_config (gl_gateway l))))))
      (l3\<lparr>gl_gateway := ?g\<rparr>) = (Ok a, l4)" "gl_sent l' = gl_sent l4"
    using p r(2) l3 m(2) due b by (auto simp: refresh_step_def dr is_established_def lbind_Ok)
  with sent_action r(1) d dr show ?thesis by (fastforce simp: draw_ok_def)
qed

section \<open>Properties of the gateway daemon\<close>

text \<open>Sockets that accept everything and report nothing, for the witnesses.\<close>

definition sample_io :: "(unit, unit, unit, bytes list, nat, string) gateway_io" where
  "sample_io = \<lparr>io_send_to = (\<lambda>s _ _. (True, s)), io_recv_local = (\<lambda>c. (Ok None, c)), io_platform = sample_platform,
     io_transmit = sample_transmit\<rparr>"

definition sample_loop :: "gateway \<Rightarrow> (unit, unit, unit, bytes list, nat) gateway_loop" where
  "sample_loop g = gateway_loop_new 0 DEFAULT_MEMBERSHIP_REFRESH_INTERVAL g None None ()"

definition sample_established :: gateway where
  "sample_established = sample_gateway_state\<lparr>gw_phase := Established, gw_relay_endpoint := Some (SockV4 0xC0000264 2268),
     gw_session := Some \<lparr>gs_response_mac = 1, gs_request_nonce = 9, gs_gateway_endpoint = None, gs_reported_memberships = False\<rparr>\<rparr>"

abbreviation sample_joins :: "gateway_join list" where
  "sample_joins \<equiv> [\<lparr>gj_group = V4 0xE8010203, gj_source = Some (V4 0xC0000201)\<rparr>]"

abbreviation no_manager :: "(unit, unit) local_membership_manager option" where
  "no_manager \<equiv> None"

lemma sample_desired_report:
  "desired_membership_report Igmpv3 sample_joins no_manager =
     \<lparr>rp_protocol = Igmpv3, rp_records = [\<lparr>mr_kind = ModeIsInclude, mr_group = V4 0xE8010203, mr_sources = [V4 0xC0000201]\<rparr>]\<rparr>"
proof -
  have one: "map_iter (fmupd k v fmempty) = [(k, v)]" for k :: "'k::linorder" and v :: 'v
    by (simp add: sorted_list_of_fmap_def sorted_list_of_fset.rep_eq)
  have set_one: "set_iter {|x|} = [x]" for x :: "'x::linorder" by (simp add: sorted_list_of_fset.rep_eq)
  show ?thesis
    by (simp add: desired_membership_report_def Let_def configured_joins_report_def add_join_def one join_record_def set_one
        apply_report_def apply_record_def apply_groups_def empty_state_def fmupd_not_empty gi_include_def insert_all_def
        rebuild_indexes_def index_interest_def or_default_def empty_summary_def summary_apply_def build_aggregate_def
        into_interest_def aggregate_interests_def interest_record_def)
qed

lemma sample_desired_builds: "\<exists>packet. build_membership_report (desired_membership_report Igmpv3 sample_joins no_manager) = Ok packet"
proof -
  let ?rs = "rp_records (desired_membership_report Igmpv3 sample_joins no_manager)"
  have b: "\<And>r. r \<in> set ?rs \<Longrightarrow> buildable Igmpv3 r"
    by (auto simp: sample_desired_report buildable_def encodable_def Let_def eval_simps)
  have len: "length (enc_records ?rs) = 12"
    by (simp add: sample_desired_report enc_records_def enc_record_def enc_addrs_def)
  show ?thesis
    using build_igmpv3_report_closed[of ?rs, OF _ _ b] len
    by (simp add: build_membership_report_def Let_def) (simp add: sample_desired_report)
qed

lemma sample_established_inv: "gateway_inv sample_established"
proof -
  have "gc_relay (gw_config sample_gateway_state) = SockV4 0xC0000264 2268"
    by (simp add: sample_gateway_state_def gateway_new_def sample_gateway_config_def gateway_config_new_def with_fallback_relays_def)
  moreover have "is_usable_unicast (V4 0xC0000264)" by (simp add: eval_simps)
  ultimately show ?thesis
    using gateway_reachable_inv[OF sample_gateway_reachable]
    by (simp add: sample_established_def gateway_inv_def phase_inv_def reception_inv_def has_reported_memberships_def)
qed

text \<open>C40: the gateway asks for exactly what is wanted.  In every run of the loop, after the desired
  membership has been sent, the gateway passes on a source of a group exactly if a configured join
  covers it or some local host wants it and it may be exported, whatever the gateway
  reported before; and the gateway's timers are as they were.\<close>

theorem desired_membership_exact:
  assumes "gateway_run io configured joins t0 l0 t l" and "loop_inv configured t0 l0"
    and "send_desired_membership io joins l = (Ok sent, l')"
  shows "(wanted (gw_reception_state (gl_gateway l')) RECEPTION_STATE_ENDPOINT g s \<longleftrightarrow>
      (\<exists>j \<in> set joins. gj_group j = g \<and> (gj_source j = None \<or> gj_source j = Some s)) \<or>
      (\<exists>m. gl_local l = Some m \<and> wants (current_exportable_interests m) g s)) \<and> timing l' = timing l"
proof -
  have inv: "loop_inv configured t l" by (rule gateway_run_inv[OF assms(1,2)])
  let ?rp = "desired_membership_report (gc_protocol (gw_config (gl_gateway l))) joins (gl_local l)"
  obtain r gw where rg: "replace_memberships ?rp (gl_gateway l) = (r, gw)" by fastforce
  have l': "is_ok r \<and> gl_gateway l' = gw"
    using assms(3) by (auto simp: send_desired_membership_def Let_def rg lbind_Ok split: res.splits option.splits dest!: grown_action)
  have recs: "\<forall>r \<in> set (rp_records ?rp). replaces (mr_kind r)" "distinct (map mr_group (rp_records ?rp))"
    unfolding desired_membership_report_def Let_def membership_report.simps by (rule interest_records_replace)+
  have "{s. wanted (gw_reception_state gw) RECEPTION_STATE_ENDPOINT g s} = sources_after (rp_records ?rp) g {}"
    using replace_memberships_raw[of "gl_gateway l" ?rp g, OF _ _ recs] sources_after_replaces[OF recs, of g "{}"] inv rg l'
    by (simp add: loop_inv_def)
  then have "wanted (gw_reception_state gw) RECEPTION_STATE_ENDPOINT g s \<longleftrightarrow> report_wants ?rp g s"
    unfolding report_wants_def by blast
  also have "\<dots> \<longleftrightarrow> desired joins (gl_local l) g s"
    by (rule desired_report_wanted) (use inv in \<open>simp add: loop_inv_def\<close>)
  finally have "wanted (gw_reception_state gw) RECEPTION_STATE_ENDPOINT g s \<longleftrightarrow> desired joins (gl_local l) g s" .
  moreover have "timing l' = timing l"
    using okay_send_desired[of configured l io joins] inv assms(3) by (simp add: okay_def loop_inv_base)
  ultimately show ?thesis using l' by (simp add: desired_def joined_def)
qed

theorem desired_membership_exact_witness:
  "\<exists>l'. send_desired_membership sample_io sample_joins ((sample_loop sample_established)\<lparr>gl_last_membership_refresh := Some 0\<rparr>) = (Ok True, l') \<and>
    wanted (gw_reception_state (gl_gateway l')) RECEPTION_STATE_ENDPOINT (V4 0xE8010203) (V4 0xC0000201) \<and>
    \<not> wanted (gw_reception_state (gl_gateway l')) RECEPTION_STATE_ENDPOINT (V4 0xE8010203) (V4 0xC0000202)"
proof -
  let ?l = "(sample_loop sample_established)\<lparr>gl_last_membership_refresh := Some 0\<rparr>"
  have g: "gc_protocol (gw_config sample_established) = Igmpv3" "gw_reception_state sample_established = empty_state"
    "gw_relay_endpoint sample_established \<noteq> None" "gw_session sample_established \<noteq> None"
    "gw_phase sample_established = Established"
    by (simp_all add: sample_established_def sample_gateway_state_def gateway_new_def sample_gateway_config_def
        gateway_config_new_def with_fallback_relays_def)
  have l: "gl_gateway ?l = sample_established" "gl_local ?l = None" by (simp_all add: sample_loop_def gateway_loop_new_def)
  have inv: "loop_inv DEFAULT_MEMBERSHIP_REFRESH_INTERVAL 0 ?l"
    using sample_established_inv by (simp add: loop_inv_def sample_loop_def gateway_loop_new_def armed_def g)
  have "missing_leaves sample_established r = []" for r
    by (simp add: missing_leaves_def aggregate_interests_def g empty_state_def)
  then obtain action gw where "replace_memberships (desired_membership_report Igmpv3 sample_joins no_manager) sample_established = (Ok (Some action), gw)"
    using sample_desired_builds g
    by (auto simp: replace_memberships_def Let_def membership_update_def sample_desired_report)
  then obtain l' where l': "send_desired_membership sample_io sample_joins ?l = (Ok True, l')"
    by (cases action) (simp_all add: send_desired_membership_def l g send_gateway_action_def tunnel_send_to_def sample_io_def lbind_def)
  note * = desired_membership_exact[OF gateway_run.start inv l', of "V4 0xE8010203"]
  show ?thesis using l' *[of "V4 0xC0000201"] *[of "V4 0xC0000202"] l(2) by simp
qed



end
