(* ===== verification/Spec2Isabelle.thy ===== *)
theory Spec2Isabelle
  imports Protocol Checksum Ip Ecn Mtu Query Membership Relay_State Relay Gateway Session Pmtu Local_Membership
    Upstream_Worker Downstream Discovery Relay_Server Gateway_Daemon
begin

text \<open>
  A verification of the AMT relay and gateway (RFC 7450) implemented in Rust under \<open>src/\<close>.

  Parts of the program.  A gateway and a relay exchange AMT messages over UDP
  (\<open>protocol.rs\<close>).  The relay answers discovery and requests, authenticates updates with a
  MAC and keeps membership state per gateway endpoint (\<open>relay.rs\<close>, \<open>state.rs\<close>).  The gateway
  runs the handshake and turns Multicast Data back into IP datagrams (\<open>gateway.rs\<close>).  Reports
  and queries inside the messages are IGMPv3 and MLDv2 datagrams (\<open>membership.rs\<close>,
  \<open>query.rs\<close>).  Datagrams are parsed (\<open>ip.rs\<close>), checksummed (\<open>checksum.rs\<close>), fragmented for
  the tunnel (\<open>mtu.rs\<close>) and re-marked with ECN (\<open>ecn.rs\<close>).

  Theories.
  \<^item> \<open>Amt_Prelude\<close>: the result type with its panic outcome, Rust slice and checked
    arithmetic operations, big-endian encodings, and the collections of rewrite rules.
  \<^item> \<open>Addr\<close>: IP and socket addresses with their orders, and the ordered-map interface.
  \<^item> \<open>Checksum\<close>: \<open>checksum.rs\<close>, and that a stored checksum verifies.
  \<^item> \<open>Protocol\<close>: \<open>protocol.rs\<close>; round trip, accepted language, panic freedom.
  \<^item> \<open>Ip\<close>: \<open>ip.rs\<close>; the option walks decide their grammars, the parser is sound.
  \<^item> \<open>Ecn\<close>: \<open>ecn.rs\<close>; the RFC 6040 table and the rewrite of the inner datagram.
  \<^item> \<open>Mtu\<close>: \<open>mtu.rs\<close>; fragments fit, reassemble and parse.

  Conventions.  A \<open>usize\<close> is a natural number and a fixed-width integer a word; a Rust
  panic (an index or slice out of range) is the value \<open>Panic\<close>, so that panic freedom is a
  theorem.  All loops are total functions; no fuel is used.

  Not modelled: sockets, threads, metrics, the command line and the text of error messages.
\<close>

end
